(* ===== verification/Prelude.thy ===== *)
theory Prelude
  imports Main "HOL-Library.Word" "HOL-Library.AList"
begin

text \<open>
  Shared vocabulary of the development: the Go integer and byte types the sources use, Go error
  values and panics, the ``if err != nil return err'' composition as a bind on sums, Go maps as
  association lists, and the generic lemmas on lists and words that the component proofs rely on.
\<close>

unbundle bit_operations_syntax

subsection \<open>Types\<close>

type_synonym byte = "8 word"
type_synonym bytes = "byte list"
type_synonym u32 = "32 word"
type_synonym u64 = "64 word"

text \<open>A Go \<^verbatim>\<open>string\<close> is an immutable byte sequence; literals are written through \<open>lit\<close>.\<close>

type_synonym gostring = bytes

definition lit :: "string \<Rightarrow> gostring" where
  "lit s = map of_char s"

text \<open>
  A Go map. The list holds each key once (\<open>distinct (map fst m)\<close>); lookup is \<open>map_of\<close> and
  assignment \<open>AList.update\<close>. Go leaves the order of \<^verbatim>\<open>range\<close> over a map open, so no result may
  depend on the order of the list; where bytes on disk depend on it, the order is an argument.
\<close>

type_synonym ('k, 'v) gomap = "('k \<times> 'v) list"

subsection \<open>Errors and panics\<close>

text \<open>
  \<open>Wrap msg e\<close> is \<^verbatim>\<open>fmt.Errorf(msg + "%w", e)\<close>, \<open>Errorf msg\<close> an error without a cause. A run-time
  panic is not an error value: the functions that can panic return \<open>failure + 'a\<close>.
\<close>

datatype go_error = EOF | ErrUnexpectedEOF | ErrClosed | ErrNotExist | OsErr
  | Errorf string | Wrap string go_error

datatype failure = Error go_error | Panic

text \<open>\<open>sbind m f\<close>: return the error of \<open>m\<close> at once, otherwise go on with its value.\<close>

fun sbind :: "'e + 'a \<Rightarrow> ('a \<Rightarrow> 'e + 'b) \<Rightarrow> 'e + 'b" where
  "sbind (Inl e) f = Inl e"
| "sbind (Inr x) f = f x"

text \<open>\<open>wrap_err msg m\<close>: \<^verbatim>\<open>if err != nil { return fmt.Errorf(msg + "%w", err) }\<close>.\<close>

fun wrap_err :: "string \<Rightarrow> go_error + 'a \<Rightarrow> go_error + 'a" where
  "wrap_err msg (Inl e) = Inl (Wrap msg e)"
| "wrap_err msg (Inr x) = Inr x"

fun may_panic :: "go_error + 'a \<Rightarrow> failure + 'a" where
  "may_panic (Inl e) = Inl (Error e)"
| "may_panic (Inr x) = Inr x"

lemma sbind_Inr_iff [simp]: "sbind m f = Inr y \<longleftrightarrow> (\<exists>x. m = Inr x \<and> f x = Inr y)"
  by (cases m) auto

lemma sbind_Inl_iff: "sbind m f = Inl e \<longleftrightarrow> m = Inl e \<or> (\<exists>x. m = Inr x \<and> f x = Inl e)"
  by (cases m) auto

lemma sbind_assoc: "sbind (sbind m f) g = sbind m (\<lambda>x. sbind (f x) g)"
  by (cases m) auto

lemma wrap_err_Inr_iff [simp]: "wrap_err msg m = Inr y \<longleftrightarrow> m = Inr y"
  by (cases m) auto

lemma may_panic_Inr_iff [simp]: "may_panic m = Inr y \<longleftrightarrow> m = Inr y"
  by (cases m) auto

lemma may_panic_not_Panic [simp]: "may_panic m \<noteq> Inl Panic"
  by (cases m) auto

subsection \<open>Collections of facts\<close>

named_theorems codec_simps \<open>decoding what was just encoded\<close>
named_theorems os_simps \<open>what an operating-system call leaves in the file system\<close>
named_theorems frame_simps \<open>fields an operation does not write\<close>

subsection \<open>Words\<close>

lemma unat_of_nat_u32 [simp]: "n < 2 ^ 32 \<Longrightarrow> unat (of_nat n :: u32) = n"
  by (simp add: unat_of_nat take_bit_nat_eq_self)

lemma unat_of_nat_u64 [simp]: "n < 2 ^ 64 \<Longrightarrow> unat (of_nat n :: u64) = n"
  by (simp add: unat_of_nat take_bit_nat_eq_self)

lemma unat_u32_less: "unat (x :: u32) < 2 ^ 32"
  using unsigned_less [of x] by simp

lemma unat_u64_less: "unat (x :: u64) < 2 ^ 64"
  using unsigned_less [of x] by simp

lemma unat_succ_u64: "unat (x :: u64) + 1 < 2 ^ 64 \<Longrightarrow> unat (x + 1) = unat x + 1"
  by (simp add: unat_word_ariths)

lemma unat_succ_of_less: "(x :: u64) < y \<Longrightarrow> unat (x + 1) = unat x + 1"
  using unat_u64_less [of y] by (intro unat_succ_u64) (simp add: word_less_nat_alt)

lemma signed_mod_u64:
  "n < 2 ^ 64 \<Longrightarrow> (int n + 2 ^ 63) mod 2 ^ 64 - 2 ^ 63 = (if n < 2 ^ 63 then int n else int n - 2 ^ 64)"
proof (cases "n < 2 ^ 63")
  case True
  then have "(int n + 2 ^ 63) mod 2 ^ 64 = int n + 2 ^ 63"
    by (intro mod_pos_pos_trivial) auto
  with True show ?thesis by simp
next
  case False
  assume "n < 2 ^ 64"
  then have "(int n + 2 ^ 63 - 2 ^ 64) mod 2 ^ 64 = int n + 2 ^ 63 - 2 ^ 64"
    using False by (intro mod_pos_pos_trivial) auto
  moreover have "(int n + 2 ^ 63 - 2 ^ 64) mod 2 ^ 64 = (int n + 2 ^ 63) mod 2 ^ 64"
    by (rule minus_mod_self2)
  ultimately have "(int n + 2 ^ 63) mod 2 ^ 64 = int n + 2 ^ 63 - 2 ^ 64" by metis
  with False show ?thesis by simp
qed

lemma sint_u64: "sint (w :: u64) = (if unat w < 2 ^ 63 then int (unat w) else int (unat w) - 2 ^ 64)"
proof -
  have "sint w = (int (unat w) + 2 ^ 63) mod 2 ^ 64 - 2 ^ 63"
    by (simp add: sint_uint signed_take_bit_eq_take_bit_shift take_bit_eq_mod)
  then show ?thesis
    by (simp only: signed_mod_u64 [OF unat_u64_less])
qed

lemma sint_u64_neg: "\<not> unat (w :: u64) < 2 ^ 63 \<Longrightarrow> unat w < 2 ^ 64 - k \<Longrightarrow> sint w < - int k"
proof -
  assume "\<not> unat w < 2 ^ 63" and "unat w < 2 ^ 64 - k"
  then have "sint w = int (unat w) - 2 ^ 64" by (simp only: sint_u64 if_False)
  moreover have "int (unat w) < 2 ^ 64 - int k"
    using \<open>unat w < 2 ^ 64 - k\<close> by (simp del: of_nat_unat)
  ultimately show ?thesis by linarith
qed

lemma unat_sub_u64:
  "unat (a - b :: u64) = (if unat b \<le> unat a then unat a - unat b else 2 ^ 64 + unat a - unat b)"
  using unat_u64_less [of a] unat_u64_less [of b] by (auto simp: unat_sub_if_size word_size not_le)

subsection \<open>Lists\<close>

lemma list_all_concat_map:
  "list_all P xs \<Longrightarrow> (\<And>x. P x \<Longrightarrow> f x = g x) \<Longrightarrow> concat (map f xs) = concat (map g xs)"
  by (induction xs) auto

lemma concat_map_split:
  "xs = ys @ zs \<Longrightarrow> concat (map f xs) = concat (map f ys) @ concat (map f zs)"
  by simp

lemma drop_eq_hd_Cons: "n < length xs \<Longrightarrow> drop n xs = xs ! n # drop (Suc n) xs"
  by (simp add: Cons_nth_drop_Suc)

subsection \<open>Go maps\<close>

lemma map_of_update [simp]: "map_of (AList.update k v m) = (map_of m)(k \<mapsto> v)"
  by (rule update_conv')

end
