(* ===== verification/Go_Strings.thy ===== *)
theory Go_Strings
  imports Prelude
begin

text \<open>
  The functions of Go's \<^verbatim>\<open>strings\<close> and \<^verbatim>\<open>fmt\<close> packages the sources call: \<^verbatim>\<open>strings.Fields\<close>,
  \<^verbatim>\<open>strings.SplitN(s, "=", 2)\<close>, \<^verbatim>\<open>strings.HasPrefix\<close>, \<^verbatim>\<open>strings.TrimPrefix\<close> and the \<^verbatim>\<open>%d\<close> verb.
\<close>

subsection \<open>White space\<close>

text \<open>
  The number of bytes of the white-space rune a string starts with, 0 if it starts with none:
  the ASCII spaces, U+0085 and U+00A0 (two bytes), U+1680, U+2000 to U+200A, U+2028, U+2029, U+202F,
  U+205F and U+3000 (three bytes), that is \<^verbatim>\<open>unicode.IsSpace\<close>. Their encodings start with a lead
  byte, and the bytes inside a rune are continuation bytes, so looking for one at every byte
  finds the same runes as decoding the string rune by rune.
\<close>

definition space1 :: "byte \<Rightarrow> bool" where
  "space1 b0 \<longleftrightarrow> b0 = 32 \<or> (9 \<le> b0 \<and> b0 \<le> 13)"

definition space2 :: "byte \<Rightarrow> byte \<Rightarrow> bool" where
  "space2 b0 b1 \<longleftrightarrow> b0 = 0xC2 \<and> (b1 = 0x85 \<or> b1 = 0xA0)"

definition space3 :: "byte \<Rightarrow> byte \<Rightarrow> byte \<Rightarrow> bool" where
  "space3 b0 b1 b2 \<longleftrightarrow>
     (b0 = 0xE1 \<and> b1 = 0x9A \<and> b2 = 0x80)
   \<or> (b0 = 0xE2 \<and> b1 = 0x80 \<and> (0x80 \<le> b2 \<and> b2 \<le> 0x8A \<or> b2 = 0xA8 \<or> b2 = 0xA9 \<or> b2 = 0xAF))
   \<or> (b0 = 0xE2 \<and> b1 = 0x81 \<and> b2 = 0x9F)
   \<or> (b0 = 0xE3 \<and> b1 = 0x80 \<and> b2 = 0x80)"

fun space_width :: "bytes \<Rightarrow> nat" where
  "space_width [] = 0"
| "space_width [b0] = (if space1 b0 then 1 else 0)"
| "space_width [b0, b1] = (if space1 b0 then 1 else if space2 b0 b1 then 2 else 0)"
| "space_width (b0 # b1 # b2 # s) =
     (if space1 b0 then 1 else if space2 b0 b1 then 2 else if space3 b0 b1 b2 then 3 else 0)"

fun no_space :: "bytes \<Rightarrow> bool" where
  "no_space [] = True"
| "no_space (b # s) = (space_width (b # s) = 0 \<and> no_space s)"

lemma space_width_space [simp]: "space_width (32 # s) = 1"
  by (cases "32 # s" rule: space_width.cases) (auto simp: space1_def)

text \<open>A byte below \<open>0x80\<close> ends every multi-byte rune, so it cannot complete one.\<close>

lemma ascii_ends_rune:
  assumes "c < 0x80"
  shows "\<not> space2 b c" and "\<not> space3 b c d" and "\<not> space3 a b c"
  using assms by (auto simp: space2_def space3_def)

lemma space_width_append_ascii:
  assumes "s \<noteq> []" and "c < 0x80"
  shows "space_width (s @ c # t) = space_width s"
proof (cases s rule: space_width.cases)
  case (2 b0)
  with assms(2) show ?thesis by (cases t) (auto simp: ascii_ends_rune)
qed (use assms in \<open>auto simp: ascii_ends_rune\<close>)

lemma no_space_append_ascii:
  "no_space (s @ c # t) \<longleftrightarrow> no_space s \<and> no_space (c # t)" if "c < 0x80"
proof (induction s)
  case Nil
  then show ?case by simp
next
  case (Cons b s)
  with that space_width_append_ascii [of "b # s" c t] show ?case by simp
qed

subsection \<open>Fields\<close>

text \<open>\<open>cur\<close> is the field being collected; it is emitted at white space and at the end if not empty.\<close>

definition emit :: "bytes \<Rightarrow> bytes list" where
  "emit cur = (if cur = [] then [] else [cur])"

function fields_from :: "bytes \<Rightarrow> bytes \<Rightarrow> bytes list" where
  "fields_from cur [] = emit cur"
| "fields_from cur (b # s) =
     (if 0 < space_width (b # s)
      then emit cur @ fields_from [] (drop (space_width (b # s)) (b # s))
      else fields_from (cur @ [b]) s)"
  by pat_completeness auto
termination
  by (relation "measure (\<lambda>(cur, s). length s)") auto

definition Fields :: "gostring \<Rightarrow> gostring list" where
  "Fields s = fields_from [] s"

lemma fields_from_no_space: "no_space s \<Longrightarrow> fields_from cur s = emit (cur @ s)"
  by (induction s arbitrary: cur) auto

lemma fields_from_word:
  "no_space w \<Longrightarrow> fields_from cur (w @ 32 # s) = emit (cur @ w) @ fields_from [] s"
proof (induction w arbitrary: cur)
  case Nil
  then show ?case by simp
next
  case (Cons b w)
  then show ?case
    using space_width_append_ascii [of "b # w" 32 s] by simp
qed

lemma Fields_two:
  "no_space v \<Longrightarrow> no_space w \<Longrightarrow> v \<noteq> [] \<Longrightarrow> w \<noteq> [] \<Longrightarrow> Fields (v @ 32 # w) = [v, w]"
  by (simp add: Fields_def fields_from_word fields_from_no_space emit_def)

subsection \<open>SplitN, HasPrefix, TrimPrefix\<close>

text \<open>\<^verbatim>\<open>strings.SplitN(s, sep, 2)\<close> for a separator of one byte: cut at its first occurrence.\<close>

definition SplitN_2 :: "gostring \<Rightarrow> byte \<Rightarrow> gostring list" where
  "SplitN_2 s c =
     (if c \<in> set s then [takeWhile (\<lambda>b. b \<noteq> c) s, tl (dropWhile (\<lambda>b. b \<noteq> c) s)] else [s])"

lemma SplitN_2_cut: "c \<notin> set k \<Longrightarrow> SplitN_2 (k @ c # v) c = [k, v]"
  by (simp add: SplitN_2_def takeWhile_append dropWhile_append) 

definition HasPrefix :: "gostring \<Rightarrow> gostring \<Rightarrow> bool" where
  "HasPrefix s p \<longleftrightarrow> take (length p) s = p"

definition TrimPrefix :: "gostring \<Rightarrow> gostring \<Rightarrow> gostring" where
  "TrimPrefix s p = (if HasPrefix s p then drop (length p) s else s)"

subsection \<open>Decimal numbers\<close>

fun decimal :: "nat \<Rightarrow> string" where
  "decimal n = (if n < 10 then [char_of (48 + n)] else decimal (n div 10) @ [char_of (48 + n mod 10)])"

declare decimal.simps [simp del]

lemma decimal_nonempty [simp]: "decimal n \<noteq> []" "[] \<noteq> decimal n"
  by (subst decimal.simps, simp)+

lemma char_of_digit_inject:
  "m < 10 \<Longrightarrow> n < 10 \<Longrightarrow> (char_of (48 + m :: nat) = char_of (48 + n)) = (m = n)"
  by (auto simp: char_of_eq_iff take_bit_eq_mod)

lemma decimal_inject: "decimal m = decimal n \<Longrightarrow> m = n"
proof (induction m arbitrary: n rule: decimal.induct)
  case (1 m)
  from "1.prems" have eq: "decimal m = decimal n" .
  show ?case
  proof (cases "m < 10 \<or> n < 10")
    case True
    with eq show ?thesis
      by (subst (asm) (1 2) decimal.simps)
        (auto simp: char_of_digit_inject split: if_splits)
  next
    case False
    with eq have "decimal (m div 10) = decimal (n div 10)" and "m mod 10 = n mod 10"
      by (subst (asm) (1 2) decimal.simps, auto simp: char_of_digit_inject)+
    with "1.IH" False have "m div 10 = n div 10" by simp
    with \<open>m mod 10 = n mod 10\<close> show ?thesis by (metis div_mult_mod_eq)
  qed
qed

end
