(* ===== verification/Go_Std.thy ===== *)
theory Go_Std
  imports Prelude
begin

text \<open>
  The parts of Go's standard library whose result the sources compute with: big-endian integers
  (\<^verbatim>\<open>encoding/binary\<close>), sequential readers (\<^verbatim>\<open>bytes.Reader\<close>, \<^verbatim>\<open>bufio.Reader\<close>, \<^verbatim>\<open>io.ReadFull\<close>), the
  IEEE checksum (\<^verbatim>\<open>hash/crc32\<close>).
  The locales \<open>codec\<close>, \<open>exact_codec\<close> and \<open>record_file\<close> are the contract between an encoder and the
  decoder of the same format; what follows for sequences of records is proved once inside them.
\<close>

subsection \<open>Big-endian integers\<close>

primrec put_be :: "nat \<Rightarrow> 'a::len word \<Rightarrow> bytes" where
  "put_be 0 v = []"
| "put_be (Suc k) v = put_be k (drop_bit 8 v) @ [ucast v]"

definition get_be :: "bytes \<Rightarrow> 'a::len word" where
  "get_be bs = foldl (\<lambda>acc b. push_bit 8 acc OR ucast b) 0 bs"

definition PutUint32 :: "u32 \<Rightarrow> bytes" where
  "PutUint32 v = put_be 4 v"

definition PutUint64 :: "u64 \<Rightarrow> bytes" where
  "PutUint64 v = put_be 8 v"

definition Uint32 :: "bytes \<Rightarrow> u32" where
  "Uint32 bs = get_be (take 4 bs)"

definition Uint64 :: "bytes \<Rightarrow> u64" where
  "Uint64 bs = get_be (take 8 bs)"

lemma length_put_be [simp]: "length (put_be k v) = k"
  by (induction k arbitrary: v) simp_all

lemma get_be_put_be: "get_be (put_be k v) = take_bit (8 * k) v"
proof (induction k arbitrary: v)
  case 0
  then show ?case by (simp add: get_be_def)
next
  case (Suc k)
  have "push_bit 8 (take_bit (8 * k) (drop_bit 8 v)) OR ucast (ucast v :: byte) = take_bit (8 * Suc k) v"
    by (rule bit_word_eqI) (auto simp: bit_simps not_le)
  with Suc show ?case by (simp add: get_be_def)
qed

lemma length_PutUint32 [simp]: "length (PutUint32 v) = 4"
  by (simp add: PutUint32_def)

lemma length_PutUint64 [simp]: "length (PutUint64 v) = 8"
  by (simp add: PutUint64_def)

lemma take_bit_full: "LENGTH('a::len) \<le> n \<Longrightarrow> take_bit n (v :: 'a word) = v"
  by (rule bit_word_eqI) (auto simp: bit_simps)

lemma Uint32_PutUint32 [simp]: "Uint32 (PutUint32 v) = v"
  by (simp add: Uint32_def PutUint32_def get_be_put_be take_bit_full)

lemma Uint64_PutUint64 [simp]: "Uint64 (PutUint64 v) = v"
  by (simp add: Uint64_def PutUint64_def get_be_put_be take_bit_full)

text \<open>The other direction: four (eight) bytes are the encoding of the integer they decode to.\<close>

lemma put_be_get_be:
  "8 * length bs \<le> LENGTH('a::len) \<Longrightarrow> put_be (length bs) (get_be bs :: 'a word) = bs"
proof (induction bs rule: rev_induct)
  case Nil
  then show ?case by simp
next
  case (snoc b bs)
  let ?g = "get_be bs :: 'a word"
  have hi: "drop_bit 8 (push_bit 8 ?g OR ucast b) = take_bit (LENGTH('a) - 8) ?g"
    by (rule bit_word_eqI) (auto simp: bit_simps dest: bit_imp_le_length)
  have lo: "(ucast (push_bit 8 ?g OR ucast b) :: byte) = b"
    using snoc.prems by (intro bit_word_eqI) (auto simp: bit_simps)
  have small: "take_bit (8 * length bs) ?g = ?g"
  proof -
    have "get_be (put_be (length bs) ?g) = take_bit (8 * length bs) ?g"
      by (rule get_be_put_be)
    with snoc show ?thesis by simp
  qed
  have "take_bit (LENGTH('a) - 8) ?g = ?g"
    using snoc.prems small by (metis take_bit_take_bit min.absorb2 length_append_singleton
        add_diff_cancel_right' diff_le_mono mult_Suc_right add.commute)
  moreover have "get_be (bs @ [b]) = push_bit 8 ?g OR ucast b"
    by (simp add: get_be_def)
  ultimately show ?case
    using hi lo snoc by simp
qed

lemma PutUint32_Uint32: "length bs = 4 \<Longrightarrow> PutUint32 (Uint32 bs) = bs"
  using put_be_get_be [of bs, where 'a = 32] by (simp add: PutUint32_def Uint32_def)

lemma PutUint64_Uint64: "length bs = 8 \<Longrightarrow> PutUint64 (Uint64 bs) = bs"
  using put_be_get_be [of bs, where 'a = 64] by (simp add: PutUint64_def Uint64_def)

subsection \<open>CRC-32\<close>

text \<open>
  \<^verbatim>\<open>crc32.ChecksumIEEE\<close>: the reflected polynomial \<open>0xEDB88320\<close>, one bit at a time.
\<close>

definition crc_bit :: "u32 \<Rightarrow> u32" where
  "crc_bit c = (if bit c 0 then drop_bit 1 c XOR 0xEDB88320 else drop_bit 1 c)"

definition crc_byte :: "u32 \<Rightarrow> byte \<Rightarrow> u32" where
  "crc_byte c b = (crc_bit ^^ 8) (c XOR ucast b)"

definition ChecksumIEEE :: "bytes \<Rightarrow> u32" where
  "ChecksumIEEE bs = NOT (foldl crc_byte 0xFFFFFFFF bs)"

lemma bit31_crc_bit: "bit (crc_bit c) 31 = bit c 0"
  by (auto simp: crc_bit_def bit_simps dest: bit_imp_le_length)

lemma crc_bit_inject: "crc_bit c = crc_bit d \<Longrightarrow> c = d"
proof (rule bit_word_eqI)
  assume eq: "crc_bit c = crc_bit d"
  have b0: "bit c 0 = bit d 0"
    using eq bit31_crc_bit [of c] bit31_crc_bit [of d] by simp
  have hi: "drop_bit 1 c = drop_bit 1 d"
  proof (rule bit_word_eqI)
    fix n assume "n < LENGTH(32)"
    from eq have "bit (crc_bit c) n = bit (crc_bit d) n" by simp
    with b0 show "bit (drop_bit 1 c) n = bit (drop_bit 1 d) n"
      by (auto simp: crc_bit_def bit_xor_iff split: if_splits)
  qed
  fix n assume "n < LENGTH(32)"
  show "bit c n = bit d n"
  proof (cases n)
    case 0
    with b0 show ?thesis by simp
  next
    case (Suc m)
    from hi have "bit (drop_bit 1 c) m = bit (drop_bit 1 d) m" by simp
    with Suc show ?thesis by (simp add: bit_drop_bit_eq)
  qed
qed

lemma crc_bits_inject: "(crc_bit ^^ n) c = (crc_bit ^^ n) d \<Longrightarrow> c = d"
  by (induction n) (auto dest: crc_bit_inject)

lemma xor_left_cancel_word: "(a :: 'a::len word) XOR b = a XOR c \<Longrightarrow> b = c"
  by (metis xor.left_neutral xor.assoc xor_self_eq)

lemma crc_byte_state_inject: "crc_byte c b = crc_byte d b \<Longrightarrow> c = d"
  unfolding crc_byte_def
  by (metis crc_bits_inject xor.commute xor_left_cancel_word)

lemma crc_byte_byte_inject: "crc_byte c a = crc_byte c b \<Longrightarrow> a = b"
proof -
  assume "crc_byte c a = crc_byte c b"
  then have "c XOR ucast a = c XOR (ucast b :: u32)"
    unfolding crc_byte_def by (rule crc_bits_inject)
  then have eq: "(ucast a :: u32) = ucast b" by (rule xor_left_cancel_word)
  show "a = b"
  proof (rule bit_word_eqI)
    fix n assume n: "n < LENGTH(8)"
    from eq have "bit (ucast a :: u32) n = bit (ucast b :: u32) n" by simp
    with n show "bit a n = bit b n" by (simp add: bit_simps)
  qed
qed

lemma crc_fold_state_inject: "foldl crc_byte c bs = foldl crc_byte d bs \<Longrightarrow> c = d"
  by (induction bs arbitrary: c d) (auto dest: crc_byte_state_inject)

lemma ChecksumIEEE_detects_byte:
  "a \<noteq> b \<Longrightarrow> ChecksumIEEE (xs @ a # ys) \<noteq> ChecksumIEEE (xs @ b # ys)"
proof
  assume "a \<noteq> b" and "ChecksumIEEE (xs @ a # ys) = ChecksumIEEE (xs @ b # ys)"
  then have "foldl crc_byte (foldl crc_byte 0xFFFFFFFF xs) (a # ys)
      = foldl crc_byte (foldl crc_byte 0xFFFFFFFF xs) (b # ys)"
    unfolding ChecksumIEEE_def by (metis bit.double_compl foldl_append)
  then have "crc_byte (foldl crc_byte 0xFFFFFFFF xs) a = crc_byte (foldl crc_byte 0xFFFFFFFF xs) b"
    by (auto dest: crc_fold_state_inject)
  with \<open>a \<noteq> b\<close> show False by (auto dest: crc_byte_byte_inject)
qed

text \<open>Evaluation by the simplifier: one byte is eight unfolded steps.\<close>

lemma funpow8: "(f ^^ 8) x = f (f (f (f (f (f (f (f x)))))))"
  by (simp add: eval_nat_numeral)

lemmas crc_eval = ChecksumIEEE_def crc_byte_def crc_bit_def funpow8 bit_0

lemma ChecksumIEEE_check_value: "ChecksumIEEE [49, 50, 51, 52, 53, 54, 55, 56, 57] = 0xCBF43926"
  by (simp add: crc_eval)
text \<open>The same for the big-endian integers.\<close>

lemma put_be_4:
  "put_be 4 v = [ucast (drop_bit 24 v), ucast (drop_bit 16 v), ucast (drop_bit 8 v), ucast v]"
  by (simp add: eval_nat_numeral)

lemma put_be_8:
  "put_be 8 v = put_be 4 (drop_bit 32 v) @ put_be 4 v"
  by (simp add: eval_nat_numeral)

lemmas be_eval = PutUint32_def PutUint64_def Uint32_def Uint64_def put_be_8 put_be_4 get_be_def

subsection \<open>Readers\<close>

text \<open>
  A reader is the list of bytes not yet consumed. \<^verbatim>\<open>io.ReadFull\<close> into a buffer of \<open>n\<close> bytes fails
  with \<open>EOF\<close> when nothing is left and with \<open>ErrUnexpectedEOF\<close> when the input ends early; a buffer
  of size 0 never fails. \<^verbatim>\<open>bytes.Reader.Read\<close> instead returns what there is, the rest of the buffer
  keeping its zero bytes, and fails only at the very end of the input.
\<close>

type_synonym 'a reader = "bytes \<Rightarrow> go_error + 'a \<times> bytes"

definition ReadFull :: "nat \<Rightarrow> bytes reader" where
  "ReadFull n bs =
     (if n \<le> length bs then Inr (take n bs, drop n bs)
      else Inl (if bs = [] then EOF else ErrUnexpectedEOF))"

definition Reader_Read :: "nat \<Rightarrow> bytes reader" where
  "Reader_Read n bs =
     (if bs = [] then Inl EOF
      else Inr (take n bs @ replicate (n - length bs) 0, drop n bs))"

definition read_u32 :: "u32 reader" where
  "read_u32 bs = sbind (ReadFull 4 bs) (\<lambda>(b, rest). Inr (Uint32 b, rest))"

definition read_u64 :: "u64 reader" where
  "read_u64 bs = sbind (ReadFull 8 bs) (\<lambda>(b, rest). Inr (Uint64 b, rest))"

text \<open>\<^verbatim>\<open>binary.Write\<close> and \<^verbatim>\<open>binary.Read\<close> on a \<^verbatim>\<open>bool\<close>: one byte, any non-zero byte reads as true.\<close>

definition put_bool :: "bool \<Rightarrow> bytes" where
  "put_bool b = [if b then 1 else 0]"

definition read_bool :: "bool reader" where
  "read_bool bs = sbind (ReadFull 1 bs) (\<lambda>(b, rest). Inr (hd b \<noteq> 0, rest))"

text \<open>A counted loop \<^verbatim>\<open>for i := 0; i < n; i++\<close> that reads one item per turn and stops at an error.\<close>

fun read_n :: "(bytes \<Rightarrow> 'e + 'a \<times> bytes) \<Rightarrow> nat \<Rightarrow> bytes \<Rightarrow> 'e + 'a list \<times> bytes" where
  "read_n rd 0 bs = Inr ([], bs)"
| "read_n rd (Suc n) bs =
     sbind (rd bs) (\<lambda>(x, rest). sbind (read_n rd n rest) (\<lambda>(xs, rest'). Inr (x # xs, rest')))"

lemma ReadFull_append [codec_simps]: "n = length xs \<Longrightarrow> ReadFull n (xs @ rest) = Inr (xs, rest)"
  by (simp add: ReadFull_def)

lemma ReadFull_all [codec_simps]: "n = length xs \<Longrightarrow> ReadFull n xs = Inr (xs, [])"
  by (simp add: ReadFull_def)

lemma ReadFull_Inr_iff: "ReadFull n bs = Inr (x, rest) \<longleftrightarrow> bs = x @ rest \<and> length x = n"
  by (auto simp: ReadFull_def)

lemma ReadFull_short: "length bs < n \<Longrightarrow> \<exists>e. ReadFull n bs = Inl e"
  by (simp add: ReadFull_def)

lemma Reader_Read_append [codec_simps]:
  "n = length xs \<Longrightarrow> xs \<noteq> [] \<Longrightarrow> Reader_Read n (xs @ rest) = Inr (xs, rest)"
  by (simp add: Reader_Read_def)

lemma read_u32_PutUint32 [codec_simps]: "read_u32 (PutUint32 v @ rest) = Inr (v, rest)"
  by (simp add: read_u32_def ReadFull_append)

lemma read_u64_PutUint64 [codec_simps]: "read_u64 (PutUint64 v @ rest) = Inr (v, rest)"
  by (simp add: read_u64_def ReadFull_append)

lemma read_bool_put_bool [codec_simps]: "read_bool (put_bool b @ rest) = Inr (b, rest)"
  by (simp add: read_bool_def put_bool_def ReadFull_def)

lemma read_u32_Inr_iff: "read_u32 bs = Inr (v, rest) \<longleftrightarrow> bs = PutUint32 v @ rest"
  by (auto simp: read_u32_def ReadFull_Inr_iff PutUint32_Uint32)

lemma read_u64_Inr_iff: "read_u64 bs = Inr (v, rest) \<longleftrightarrow> bs = PutUint64 v @ rest"
  by (auto simp: read_u64_def ReadFull_Inr_iff PutUint64_Uint64)

subsection \<open>Codecs\<close>

text \<open>
  The law every encoder/decoder pair of the program is to satisfy: on the values that \<open>ok\<close> admits
  (the ones whose lengths fit the length fields) decoding gives back the value and leaves the
  bytes that follow.
\<close>

locale codec =
  fixes enc :: "'a \<Rightarrow> bytes"
    and dec :: "bytes \<Rightarrow> 'e + 'a \<times> bytes"
    and ok :: "'a \<Rightarrow> bool"
  assumes dec_enc: "ok x \<Longrightarrow> dec (enc x @ rest) = Inr (x, rest)"
begin

lemma read_n_concat:
  "list_all ok xs \<Longrightarrow> read_n dec (length xs) (concat (map enc xs) @ rest) = Inr (xs, rest)"
  by (induction xs) (simp_all add: dec_enc)

lemma enc_prefix_free:
  assumes "ok x" and "ok y" and "enc x @ r = enc y @ s"
  shows "x = y \<and> r = s"
proof -
  have "dec (enc x @ r) = Inr (x, r)" using assms(1) by (rule dec_enc)
  moreover have "dec (enc x @ r) = Inr (y, s)" using assms(2,3) dec_enc by simp
  ultimately show ?thesis by simp
qed

end

text \<open>
  A decoder that accepts nothing but encodings: what it consumed is exactly the encoding of what it
  returned. Then a cut-off record is recognised as such.
\<close>

locale exact_codec = codec enc dec ok
  for enc :: "'a \<Rightarrow> bytes" and dec :: "bytes \<Rightarrow> 'e + 'a \<times> bytes" and ok :: "'a \<Rightarrow> bool" +
  assumes dec_exact: "dec bs = Inr (x, rest) \<Longrightarrow> ok x \<and> bs = enc x @ rest"
begin

lemma dec_iff: "dec bs = Inr (x, rest) \<longleftrightarrow> ok x \<and> bs = enc x @ rest"
  using dec_exact dec_enc by blast

lemma dec_torn:
  assumes "ok x" and "enc x = p @ q" and "q \<noteq> []"
  shows "\<exists>e. dec p = Inl e"
proof (cases "dec p")
  case (Inr r)
  then obtain y rest where "dec p = Inr (y, rest)" by (cases r) simp
  then have "ok y" and "enc x @ [] = enc y @ (rest @ q)"
    using assms(2) dec_exact by fastforce+
  with assms(1) have "rest @ q = []"
    using enc_prefix_free by blast
  with assms(3) show ?thesis by simp
qed simp

end

text \<open>
  A file of records. \<open>scan\<close> is a loop that decodes records until the first error.
\<close>

locale record_file = exact_codec enc dec ok
  for enc :: "'a \<Rightarrow> bytes" and dec :: "bytes \<Rightarrow> 'e + 'a \<times> bytes" and ok :: "'a \<Rightarrow> bool" +
  fixes scan :: "bytes \<Rightarrow> 'a list"
  assumes enc_nonempty: "enc x \<noteq> []"
    and scan_unfold: "scan bs = (case dec bs of Inl e \<Rightarrow> [] | Inr (x, rest) \<Rightarrow> x # scan rest)"
begin

lemma scan_error: "dec bs = Inl e \<Longrightarrow> scan bs = []"
  by (subst scan_unfold) simp

lemma dec_Nil: "\<exists>e. dec [] = Inl e"
proof (cases "dec []")
  case (Inr r)
  then obtain y rest where "dec [] = Inr (y, rest)" by (cases r) simp
  then have "enc y = []" using dec_exact by fastforce
  then show ?thesis by (simp add: enc_nonempty)
qed simp

lemma scan_Nil [simp]: "scan [] = []"
  using dec_Nil scan_error by blast

lemma scan_records: "list_all ok xs \<Longrightarrow> scan (concat (map enc xs) @ rest) = xs @ scan rest"
proof (induction xs)
  case Nil
  then show ?case by simp
next
  case (Cons x xs)
  then have "scan ((enc x @ concat (map enc xs)) @ rest) = x # scan (concat (map enc xs) @ rest)"
    by (subst scan_unfold) (simp add: dec_enc)
  with Cons show ?case by simp
qed

lemma scan_exactly: "list_all ok xs \<Longrightarrow> scan (concat (map enc xs)) = xs"
  using scan_records [of xs "[]"] by simp

text \<open>A record cut off anywhere (\<open>p\<close> of it was written) is ignored, unless it is complete.\<close>

lemma scan_records_torn:
  assumes "list_all ok xs" and "ok x" and "enc x = p @ q"
  shows "scan (concat (map enc xs) @ p) = (if q = [] then xs @ [x] else xs)"
proof (cases "q = []")
  case True
  with assms have "scan p = [x]" using scan_exactly [of "[x]"] by simp
  with True assms(1) show ?thesis by (simp add: scan_records)
next
  case False
  with assms(2,3) have "scan p = []" using dec_torn scan_error by blast
  with False assms(1) show ?thesis by (simp add: scan_records)
qed

text \<open>What the loop returns is the longest sequence of records the file starts with.\<close>

lemma scan_longest:
  "\<exists>tail e. bs = concat (map enc (scan bs)) @ tail \<and> dec tail = Inl e \<and> list_all ok (scan bs)"
proof (induction bs rule: length_induct)
  case (1 bs)
  show ?case
  proof (cases "dec bs")
    case (Inl e)
    then have "scan bs = []" by (rule scan_error)
    with Inl show ?thesis by simp
  next
    case (Inr r)
    then obtain x rest where d: "dec bs = Inr (x, rest)" by (cases r) simp
    then have bs: "ok x" "bs = enc x @ rest" and s: "scan bs = x # scan rest"
      using dec_exact by (auto simp: scan_unfold [of bs])
    then have "length rest < length bs" by (simp add: enc_nonempty)
    with "1.IH" obtain tail e where "rest = concat (map enc (scan rest)) @ tail"
      "dec tail = Inl e" "list_all ok (scan rest)" by blast
    with bs s show ?thesis by (intro exI [of _ tail] exI [of _ e]) simp
  qed
qed

end

end
