(* ===== verification/Go_Os.thy ===== *)
theory Go_Os
  imports Prelude
begin

text \<open>
  The operating system as the sources see it through \<^verbatim>\<open>os.File\<close>: named files with byte contents and
  system calls that may fail. What a run of the program meets is fixed in advance by the list
  \<open>faults\<close>: every call takes the next outcome, \<open>Fail k\<close> is an error (of a write: after \<open>k\<close> bytes were
  written; of a read: after \<open>k\<close> bytes were read) and an exhausted list means success from there
  on. A process that dies at some system call has the disk of a run in which that call and all later
  ones fail, so statements over all lists of faults cover crashes too.
\<close>

datatype fault = Succeed | Fail nat

text \<open>
  \<open>dirty\<close> are the files with contents not yet passed to \<^verbatim>\<open>Sync\<close>. \<open>range_order\<close> is the order in which
  the Go run-time lets \<^verbatim>\<open>range\<close> visit the entries of a map of strings.
\<close>

record os =
  files :: "string \<rightharpoonup> bytes"
  dirty :: "string set"
  faults :: "fault list"
  range_order :: "(gostring, gostring) gomap \<Rightarrow> (gostring, gostring) gomap"

type_synonym 'a io = "os \<Rightarrow> (go_error + 'a) \<times> os"

definition next_fault :: "os \<Rightarrow> fault \<times> os" where
  "next_fault s = (case faults s of [] \<Rightarrow> (Succeed, s) | f # fs \<Rightarrow> (f, s\<lparr>faults := fs\<rparr>))"

definition content :: "os \<Rightarrow> string \<Rightarrow> bytes" where
  "content s p = (case files s p of None \<Rightarrow> [] | Some c \<Rightarrow> c)"

subsection \<open>Sequencing\<close>

text \<open>\<open>obind m f\<close>: \<^verbatim>\<open>if err != nil { return err }\<close> between two calls that change the state.\<close>

fun obind :: "(go_error + 'a) \<times> 's \<Rightarrow> ('a \<Rightarrow> 's \<Rightarrow> (go_error + 'b) \<times> 's) \<Rightarrow> (go_error + 'b) \<times> 's" where
  "obind (Inl e, s) f = (Inl e, s)"
| "obind (Inr x, s) f = f x s"

fun owrap :: "string \<Rightarrow> (go_error + 'a) \<times> 's \<Rightarrow> (go_error + 'a) \<times> 's" where
  "owrap msg (r, s) = (wrap_err msg r, s)"

lemma obind_Inr_iff: "obind m f = (Inr y, t) \<longleftrightarrow> (\<exists>x s. m = (Inr x, s) \<and> f x s = (Inr y, t))"
  by (cases "(m, f)" rule: obind.cases) auto

lemma owrap_Inr_iff: "owrap msg m = (Inr y, t) \<longleftrightarrow> m = (Inr y, t)"
  by (cases m) auto

lemma fst_owrap [simp]: "fst (owrap msg m) = wrap_err msg (fst m)"
  by (cases m) auto

lemma snd_owrap [simp]: "snd (owrap msg m) = snd m"
  by (cases m) auto

text \<open>What a relation between the state before and after survives a sequence of calls.\<close>

lemma snd_obind: "snd (obind m f) = (case fst m of Inl e \<Rightarrow> snd m | Inr x \<Rightarrow> snd (f x (snd m)))"
  by (cases m; cases "fst m") auto

lemma fst_obind: "fst (obind m f) = (case fst m of Inl e \<Rightarrow> Inl e | Inr x \<Rightarrow> fst (f x (snd m)))"
  by (cases m; cases "fst m") auto

subsection \<open>System calls\<close>

text \<open>\<^verbatim>\<open>OpenFile(p, O_CREATE|O_RDWR|O_APPEND)\<close> and \<^verbatim>\<open>OpenFile(p, O_CREATE|O_WRONLY|O_TRUNC)\<close>.\<close>

definition os_open_append :: "string \<Rightarrow> unit io" where
  "os_open_append p s =
     (case next_fault s of
        (Succeed, s') \<Rightarrow> (Inr (), s'\<lparr>files := (files s')(p \<mapsto> content s' p)\<rparr>)
      | (Fail k, s') \<Rightarrow> (Inl OsErr, s'))"

definition os_open_trunc :: "string \<Rightarrow> unit io" where
  "os_open_trunc p s =
     (case next_fault s of
        (Succeed, s') \<Rightarrow> (Inr (), s'\<lparr>files := (files s')(p \<mapsto> []), dirty := insert p (dirty s')\<rparr>)
      | (Fail k, s') \<Rightarrow> (Inl OsErr, s'))"

definition os_write :: "string \<Rightarrow> bytes \<Rightarrow> unit io" where
  "os_write p bs s =
     (case next_fault s of
        (Succeed, s') \<Rightarrow>
          (Inr (), s'\<lparr>files := (files s')(p \<mapsto> content s' p @ bs), dirty := insert p (dirty s')\<rparr>)
      | (Fail k, s') \<Rightarrow>
          (Inl OsErr, s'\<lparr>files := (files s')(p \<mapsto> content s' p @ take k bs), dirty := insert p (dirty s')\<rparr>))"

definition os_sync :: "string \<Rightarrow> unit io" where
  "os_sync p s =
     (case next_fault s of
        (Succeed, s') \<Rightarrow> (Inr (), s'\<lparr>dirty := dirty s' - {p}\<rparr>)
      | (Fail k, s') \<Rightarrow> (Inl OsErr, s'))"

text \<open>\<^verbatim>\<open>Truncate(n)\<close> fills up with zero bytes when the file is shorter.\<close>

definition os_truncate :: "string \<Rightarrow> nat \<Rightarrow> unit io" where
  "os_truncate p n s =
     (case next_fault s of
        (Succeed, s') \<Rightarrow>
          (Inr (), s'\<lparr>files := (files s')(p \<mapsto> take n (content s' p) @ replicate (n - length (content s' p)) 0),
                     dirty := insert p (dirty s')\<rparr>)
      | (Fail k, s') \<Rightarrow> (Inl OsErr, s'))"

text \<open>\<^verbatim>\<open>Seek\<close>, \<^verbatim>\<open>Close\<close>: nothing in the file system changes.\<close>

definition os_plain :: "unit io" where
  "os_plain s = (case next_fault s of (Succeed, s') \<Rightarrow> (Inr (), s') | (Fail k, s') \<Rightarrow> (Inl OsErr, s'))"

text \<open>
  Reading a file from its start through a buffered reader: the bytes delivered before the end of the
  file or before a read error. Its callers treat both ends alike.
\<close>

definition os_read :: "string \<Rightarrow> os \<Rightarrow> bytes \<times> os" where
  "os_read p s =
     (case next_fault s of
        (Succeed, s') \<Rightarrow> (content s' p, s')
      | (Fail k, s') \<Rightarrow> (take k (content s' p), s'))"

definition os_ReadFile :: "string \<Rightarrow> bytes io" where
  "os_ReadFile p s =
     (case next_fault s of
        (Succeed, s') \<Rightarrow> (case files s' p of None \<Rightarrow> (Inl ErrNotExist, s') | Some c \<Rightarrow> (Inr c, s'))
      | (Fail k, s') \<Rightarrow> (Inl OsErr, s'))"

text \<open>\<^verbatim>\<open>os.Rename\<close> is atomic; the file keeps what is not yet synced of it.\<close>

definition os_rename :: "string \<Rightarrow> string \<Rightarrow> unit io" where
  "os_rename p q s =
     (case next_fault s of
        (Succeed, s') \<Rightarrow>
          (case files s' p of
             None \<Rightarrow> (Inl ErrNotExist, s')
           | Some c \<Rightarrow> (Inr (), s'\<lparr>files := (files s')(p := None, q \<mapsto> c),
                                 dirty := (if p \<in> dirty s' then insert q else (\<lambda>d. d - {q})) (dirty s' - {p})\<rparr>))
      | (Fail k, s') \<Rightarrow> (Inl OsErr, s'))"

lemmas os_call_defs = os_open_append_def os_open_trunc_def os_write_def os_sync_def os_truncate_def
  os_plain_def os_read_def os_ReadFile_def os_rename_def

subsection \<open>What the calls leave\<close>

lemma next_fault_simps [simp]:
  "next_fault s = (f, s') \<Longrightarrow> files s' = files s"
  "next_fault s = (f, s') \<Longrightarrow> dirty s' = dirty s"
  "next_fault s = (f, s') \<Longrightarrow> range_order s' = range_order s"
  "next_fault s = (f, s') \<Longrightarrow> content s' p = content s p"
  by (auto simp: next_fault_def content_def split: list.splits)

lemma next_fault_free [simp]: "faults s = [] \<Longrightarrow> next_fault s = (Succeed, s)"
  by (simp add: next_fault_def)

lemma content_simps [simp]:
  "content (s\<lparr>files := (files t)(p \<mapsto> c)\<rparr>) q = (if q = p then c else content t q)"
  "content (s\<lparr>files := (files t)(p := None, p' \<mapsto> c)\<rparr>) q =
     (if q = p' then c else if q = p then [] else content t q)"
  "content (s\<lparr>dirty := d\<rparr>) q = content s q"
  "content (s\<lparr>faults := fs\<rparr>) q = content s q"
  by (simp_all add: content_def)

text \<open>Every call leaves the files it does not name alone.\<close>

lemma os_frame [frame_simps]:
  "q \<noteq> p \<Longrightarrow> files (snd (os_open_append p s)) q = files s q"
  "q \<noteq> p \<Longrightarrow> files (snd (os_open_trunc p s)) q = files s q"
  "q \<noteq> p \<Longrightarrow> files (snd (os_write p bs s)) q = files s q"
  "files (snd (os_sync p s)) = files s"
  "q \<noteq> p \<Longrightarrow> files (snd (os_truncate p n s)) q = files s q"
  "files (snd (os_plain s)) = files s"
  "files (snd (os_read p s)) = files s"
  "files (snd (os_ReadFile p s)) = files s"
  "q \<noteq> p \<Longrightarrow> q \<noteq> p' \<Longrightarrow> files (snd (os_rename p p' s)) q = files s q"
  by (auto simp: os_call_defs split: prod.splits fault.splits option.splits)

lemma os_range_order [frame_simps]:
  "range_order (snd (os_open_append p s)) = range_order s"
  "range_order (snd (os_open_trunc p s)) = range_order s"
  "range_order (snd (os_write p bs s)) = range_order s"
  "range_order (snd (os_sync p s)) = range_order s"
  "range_order (snd (os_truncate p n s)) = range_order s"
  "range_order (snd (os_plain s)) = range_order s"
  "range_order (snd (os_read p s)) = range_order s"
  "range_order (snd (os_ReadFile p s)) = range_order s"
  "range_order (snd (os_rename p p' s)) = range_order s"
  by (auto simp: os_call_defs split: prod.splits fault.splits option.splits)

text \<open>The calls when nothing fails.\<close>

lemma os_free [os_simps]:
  assumes "faults s = []"
  shows "os_open_append p s = (Inr (), s\<lparr>files := (files s)(p \<mapsto> content s p)\<rparr>)"
    and "os_open_trunc p s = (Inr (), s\<lparr>files := (files s)(p \<mapsto> []), dirty := insert p (dirty s)\<rparr>)"
    and "os_write p bs s =
      (Inr (), s\<lparr>files := (files s)(p \<mapsto> content s p @ bs), dirty := insert p (dirty s)\<rparr>)"
    and "os_sync p s = (Inr (), s\<lparr>dirty := dirty s - {p}\<rparr>)"
    and "os_plain s = (Inr (), s)"
    and "os_read p s = (content s p, s)"
    and "files s p = Some c \<Longrightarrow> os_ReadFile p s = (Inr c, s)"
    and "files s p = None \<Longrightarrow> os_ReadFile p s = (Inl ErrNotExist, s)"
    and "n \<le> length (content s p) \<Longrightarrow> os_truncate p n s =
      (Inr (), s\<lparr>files := (files s)(p \<mapsto> take n (content s p)), dirty := insert p (dirty s)\<rparr>)"
  using assms by (simp_all add: os_call_defs)

text \<open>A write under any outcome: a prefix of the data is appended, all of it on success.\<close>

lemma os_write_effect:
  assumes "os_write p bs s = (r, s')"
  shows "\<exists>ps qs. bs = ps @ qs \<and> content s' p = content s p @ ps \<and> (r = Inr () \<longrightarrow> qs = [])"
proof (cases "fst (next_fault s)")
  case Succeed
  with assms show ?thesis
    by (intro exI [of _ bs] exI [of _ "[]"]) (auto simp: os_write_def content_def split: prod.splits)
next
  case (Fail k)
  with assms show ?thesis
    by (intro exI [of _ "take k bs"] exI [of _ "drop k bs"])
      (auto simp: os_write_def content_def split: prod.splits)
qed

lemma os_sync_effect:
  "os_sync p s = (r, s') \<Longrightarrow> files s' = files s \<and> (r = Inr () \<longrightarrow> p \<notin> dirty s')"
  by (auto simp: os_sync_def split: prod.splits fault.splits)

lemma content_cong: "files s p = files t p \<Longrightarrow> content s p = content t p"
  by (simp add: content_def)

subsection \<open>Frames\<close>

text \<open>From \<open>s\<close> to \<open>s'\<close> no file outside \<open>Q\<close> changed, nor did the iteration order.\<close>

definition changes_only :: "string set \<Rightarrow> os \<Rightarrow> os \<Rightarrow> bool" where
  "changes_only Q s s' \<longleftrightarrow> (\<forall>q. q \<notin> Q \<longrightarrow> files s' q = files s q) \<and> range_order s' = range_order s"

lemma changes_only_refl [simp]: "changes_only Q s s"
  by (simp add: changes_only_def)

lemma changes_only_trans: "changes_only Q s t \<Longrightarrow> changes_only Q t u \<Longrightarrow> changes_only Q s u"
  by (simp add: changes_only_def)

lemma changes_only_mono: "changes_only Q s t \<Longrightarrow> Q \<subseteq> R \<Longrightarrow> changes_only R s t"
  by (auto simp: changes_only_def)

lemma changes_only_content: "changes_only Q s s' \<Longrightarrow> q \<notin> Q \<Longrightarrow> content s' q = content s q"
  by (simp add: changes_only_def content_def)

lemma changes_only_obind:
  assumes "changes_only Q s (snd m)"
    and "\<And>x t. m = (Inr x, t) \<Longrightarrow> changes_only Q t (snd (f x t))"
  shows "changes_only Q s (snd (obind m f))"
proof (cases m)
  case (Pair r t)
  with assms show ?thesis
    by (cases r) (auto intro: changes_only_trans)
qed

lemma changes_only_calls [simp]:
  "changes_only {p} s (snd (os_open_append p s))"
  "changes_only {p} s (snd (os_open_trunc p s))"
  "changes_only {p} s (snd (os_write p bs s))"
  "changes_only {p} s (snd (os_truncate p n s))"
  "changes_only {p, q} s (snd (os_rename p q s))"
  "changes_only Q s (snd (os_sync p s))"
  "changes_only Q s (snd (os_plain s))"
  "changes_only Q s (snd (os_read p s))"
  "changes_only Q s (snd (os_ReadFile p s))"
  by (auto simp: changes_only_def frame_simps)

subsection \<open>An example\<close>

text \<open>A system with no files on which nothing fails.\<close>

definition quiet_os :: os where
  "quiet_os = \<lparr>files = Map.empty, dirty = {}, faults = [], range_order = id\<rparr>"

lemma quiet_os_simps [simp]:
  "files quiet_os = Map.empty" "faults quiet_os = []" "range_order quiet_os = id" "dirty quiet_os = {}"
  by (simp_all add: quiet_os_def)

end
