(* ===== verification/Wal.thy ===== *)
theory Wal
  imports Go_Std Go_Strings Go_Os
begin

text \<open>
  The write-ahead log, \<^verbatim>\<open>wal/wal.go\<close>: the record format (\<open>encode\<close>, \<open>decode\<close>, \<open>readOne\<close>), the operations
  on the log file (\<open>Open\<close>, \<open>Append\<close>, \<open>ReadAll\<close>, \<open>TruncateAfter\<close>, \<open>CompactWAL\<close>, \<open>Close\<close>) and what they do to
  the sequence of entries the file holds, whatever system call fails.
\<close>

subsection \<open>Entries and their encoding\<close>

record entry =
  Term :: u64
  Index :: u64
  Data :: bytes

definition encode :: "entry \<Rightarrow> bytes" where
  "encode entry =
     PutUint64 (Term entry) @ PutUint64 (Index entry) @
     PutUint32 (of_nat (length (Data entry))) @ Data entry"

text \<open>
  In \<^verbatim>\<open>buf[20:20+dataLen]\<close> the sum is computed in 32 bits; if it wraps around the slice expression
  panics.
\<close>

definition decode :: "bytes \<Rightarrow> failure + entry" where
  "decode buf =
     (if length buf < 20 then Inl (Error (Errorf (''buffer too small : '' @ decimal (length buf) @ '' bytes'')))
      else
        let dataLen = Uint32 (take 4 (drop 16 buf))
        in if length buf < 20 + unat dataLen then Inl (Error (Errorf (''buffer truncated : expected '' @ decimal (unat dataLen) @ '' data bytes'')))
           else if 20 + dataLen < 20 then Inl Panic
           else Inr \<lparr>Term = Uint64 (take 8 buf), Index = Uint64 (take 8 (drop 8 buf)),
                     Data = take (unat (20 + dataLen) - 20) (drop 20 buf)\<rparr>)"

definition EncodeEntry :: "entry \<Rightarrow> bytes" where
  "EncodeEntry entry = encode entry"

definition DecodeEntry :: "bytes \<Rightarrow> failure + entry" where
  "DecodeEntry buf = decode buf"

definition checksum :: "bytes \<Rightarrow> u32" where
  "checksum data = ChecksumIEEE data"

definition readOne :: "(entry \<times> nat) reader" where
  "readOne reader =
     sbind (ReadFull 4 reader) (\<lambda>(crcBuf, reader).
     sbind (ReadFull 8 reader) (\<lambda>(termBuf, reader).
     sbind (ReadFull 8 reader) (\<lambda>(indexBuf, reader).
     sbind (ReadFull 4 reader) (\<lambda>(dataLenBuf, reader).
     sbind (ReadFull (unat (Uint32 dataLenBuf)) reader) (\<lambda>(data, reader).
       let entry = \<lparr>Term = Uint64 termBuf, Index = Uint64 indexBuf, Data = data\<rparr>
       in if ChecksumIEEE (encode entry) \<noteq> Uint32 crcBuf
          then Inl (Errorf ''checksum mismatch'')
          else Inr ((entry, 4 + 8 + 8 + 4 + length data), reader))))))"

lemma readOne_consumes: "readOne bs = Inr ((e, n), rest) \<Longrightarrow> length rest < length bs"
  by (auto simp: readOne_def ReadFull_Inr_iff Let_def split: if_splits)

text \<open>The loop of \<^verbatim>\<open>ReadAll\<close>: entries up to the first error of any kind.\<close>

function read_entries :: "bytes \<Rightarrow> entry list" where
  "read_entries reader =
     (case readOne reader of
        Inl err \<Rightarrow> []
      | Inr ((entry, _), reader') \<Rightarrow> entry # read_entries reader')"
  by pat_completeness auto
termination
  by (relation "measure length") (auto dest: readOne_consumes)

text \<open>The loop of \<^verbatim>\<open>TruncateAfter\<close>: the file offset just behind the first entry with the index.\<close>

function cut_after :: "u64 \<Rightarrow> nat \<Rightarrow> bytes \<Rightarrow> nat option" where
  "cut_after index offset reader =
     (case readOne reader of
        Inl err \<Rightarrow> None
      | Inr ((entry, sz), reader') \<Rightarrow>
          if Index entry = index then Some (offset + sz)
          else cut_after index (offset + sz) reader')"
  by pat_completeness auto
termination
  by (relation "measure (\<lambda>(index, offset, reader). length reader)") (auto dest: readOne_consumes)

declare read_entries.simps [simp del] cut_after.simps [simp del]

subsection \<open>The log file\<close>

text \<open>
  \<open>wal_open\<close> is false once the file handle was closed and not replaced; every method of a closed
  \<^verbatim>\<open>os.File\<close> fails. While it is open the handle denotes the file at \<open>path\<close>.
\<close>

record WAL =
  path :: string
  wal_open :: bool

definition fop :: "WAL \<Rightarrow> 'a io \<Rightarrow> 'a io" where
  "fop w call s = (if wal_open w then call s else (Inl ErrClosed, s))"

definition Open :: "string \<Rightarrow> WAL io" where
  "Open p s = obind (os_open_append p s) (\<lambda>_ s. (Inr \<lparr>path = p, wal_open = True\<rparr>, s))"

definition Append :: "WAL \<Rightarrow> entry \<Rightarrow> unit io" where
  "Append w entry s =
     (let encoded = encode entry; crc = ChecksumIEEE encoded
      in obind (owrap ''failed to write checksum : '' (fop w (os_write (path w) (PutUint32 crc)) s)) (\<lambda>_ s.
         obind (owrap ''failed to write entry: '' (fop w (os_write (path w) encoded) s)) (\<lambda>_ s.
         owrap ''fsync failed: '' (fop w (os_sync (path w)) s))))"

definition ReadAll :: "WAL \<Rightarrow> entry list io" where
  "ReadAll w s =
     obind (owrap ''seek failed: '' (fop w os_plain s)) (\<lambda>_ s.
       let (c, s) = os_read (path w) s in (Inr (read_entries c), s))"

definition TruncateAfter :: "WAL \<Rightarrow> u64 \<Rightarrow> unit io" where
  "TruncateAfter w index s =
     obind (owrap ''seek failed : '' (fop w os_plain s)) (\<lambda>_ s.
       let (c, s) = os_read (path w) s
       in case cut_after index 0 c of
            None \<Rightarrow> (Inl (Errorf (''index '' @ decimal (unat index) @ '' not found'')), s)
          | Some offset \<Rightarrow>
              obind (owrap ''truncate failed : '' (os_truncate (path w) offset s)) (\<lambda>_ s.
              obind (owrap ''sync failed: '' (os_sync (path w) s)) (\<lambda>_ s.
              owrap ''seek to end failed: '' (os_plain s))))"

definition Close :: "WAL \<Rightarrow> unit io" where
  "Close w s = fop w os_plain s"

text \<open>The loop of \<^verbatim>\<open>CompactWAL\<close> over the survivors; at a failure the temporary file is closed.\<close>

fun append_survivors :: "WAL \<Rightarrow> entry list \<Rightarrow> unit io" where
  "append_survivors t [] s = (Inr (), s)"
| "append_survivors t (entry # es) s =
     (case Append t entry s of
        (Inl err, s) \<Rightarrow> (Inl (Wrap ''failed to write entry during compaction :'' err), snd (Close t s))
      | (Inr _, s) \<Rightarrow> append_survivors t es s)"

definition temp_path :: "string \<Rightarrow> string" where
  "temp_path p = p @ ''.tmp''"

text \<open>\<^verbatim>\<open>CompactWAL\<close> up to and including the rename.\<close>

definition replace_compacted :: "WAL \<Rightarrow> u64 \<Rightarrow> unit io" where
  "replace_compacted w compactIndex s =
     obind (owrap ''failed to read entries for compaction : '' (ReadAll w s)) (\<lambda>entries s.
     obind (owrap ''failed to create temp WAL : '' (Open (temp_path (path w)) s)) (\<lambda>tempWAL s.
     obind (append_survivors tempWAL (filter (\<lambda>e. Index e > compactIndex) entries) s) (\<lambda>_ s.
     obind (owrap ''failed to close temp WAL:'' (Close tempWAL s)) (\<lambda>_ s.
     owrap ''failed to rename compacted WAL into place: '' (os_rename (temp_path (path w)) (path w) s)))))"

definition CompactWAL :: "WAL \<Rightarrow> u64 \<Rightarrow> os \<Rightarrow> (go_error + unit) \<times> WAL \<times> os" where
  "CompactWAL w compactIndex s =
     (case replace_compacted w compactIndex s of
        (Inl err, s) \<Rightarrow> (Inl err, w, s)
      | (Inr _, s) \<Rightarrow>
          (case os_open_append (path w) (snd (Close w s)) of
             (Inl err, s) \<Rightarrow>
               (Inl (Wrap ''failed to reopen WAL after compaction : '' err), w\<lparr>wal_open := False\<rparr>, s)
           | (Inr _, s) \<Rightarrow> (Inr (), w\<lparr>wal_open := True\<rparr>, s)))"

subsection \<open>The record format\<close>

definition wal_record :: "entry \<Rightarrow> bytes" where
  "wal_record e = PutUint32 (ChecksumIEEE (encode e)) @ encode e"

definition entry_ok :: "entry \<Rightarrow> bool" where
  "entry_ok e \<longleftrightarrow> length (Data e) < 2 ^ 32"

definition read_record :: "entry reader" where
  "read_record bs = sbind (readOne bs) (\<lambda>((e, n), rest). Inr (e, rest))"

lemma length_encode [simp]: "length (encode e) = 20 + length (Data e)"
  by (simp add: encode_def)

lemma length_wal_record [simp]: "length (wal_record e) = 24 + length (Data e)"
  by (simp add: wal_record_def)

lemma readOne_record [codec_simps]:
  "entry_ok e \<Longrightarrow> readOne (wal_record e @ rest) = Inr ((e, length (wal_record e)), rest)"
  by (simp add: readOne_def wal_record_def encode_def entry_ok_def Let_def ReadFull_append)

lemma readOne_exact:
  assumes "readOne bs = Inr ((e, n), rest)"
  shows "entry_ok e \<and> bs = wal_record e @ rest \<and> n = length (wal_record e)"
proof -
  obtain c t i l d where bs: "bs = c @ t @ i @ l @ d @ rest"
    and len: "length c = 4" "length t = 8" "length i = 8" "length l = 4" "length d = unat (Uint32 l)"
    and e: "e = \<lparr>Term = Uint64 t, Index = Uint64 i, Data = d\<rparr>" "ChecksumIEEE (encode e) = Uint32 c"
    and n: "n = 24 + length d"
    using assms by (auto simp: readOne_def ReadFull_Inr_iff Let_def split: if_splits)
  have "PutUint32 (of_nat (length d)) = l"
    using len by (simp add: PutUint32_Uint32)
  then have "encode e = t @ i @ l @ d"
    using e len by (simp add: encode_def PutUint64_Uint64)
  moreover have "length d < 2 ^ 32"
    using len unsigned_less [of "Uint32 l"] by simp
  moreover have "PutUint32 (ChecksumIEEE (encode e)) = c"
    using e(2) len by (simp add: PutUint32_Uint32)
  ultimately show ?thesis
    using bs e(1) n len by (simp add: wal_record_def entry_ok_def)
qed

interpretation walrec: record_file wal_record read_record entry_ok read_entries
proof
  fix x rest assume "entry_ok x"
  then show "read_record (wal_record x @ rest) = Inr (x, rest)"
    by (simp add: read_record_def readOne_record)
next
  fix bs x rest assume "read_record bs = Inr (x, rest)"
  then show "entry_ok x \<and> bs = wal_record x @ rest"
    using readOne_exact by (auto simp: read_record_def)
next
  fix x show "wal_record x \<noteq> []"
    using length_wal_record [of x] by (metis add_is_0 list.size(3) zero_neq_numeral)
next
  fix bs
  show "read_entries bs = (case read_record bs of Inl e \<Rightarrow> [] | Inr (x, rest) \<Rightarrow> x # read_entries rest)"
    by (subst read_entries.simps) (auto simp: read_record_def split: sum.splits)
qed

subsection \<open>What a log file holds\<close>

definition wal_entries :: "WAL \<Rightarrow> os \<Rightarrow> entry list" where
  "wal_entries w s = read_entries (content s (path w))"

text \<open>No bytes behind the last complete record.\<close>

definition wal_clean :: "WAL \<Rightarrow> os \<Rightarrow> bool" where
  "wal_clean w s \<longleftrightarrow> content s (path w) = concat (map wal_record (wal_entries w s))"

lemma wal_entries_ok: "list_all entry_ok (wal_entries w s)"
  using walrec.scan_longest [of "content s (path w)"] by (auto simp: wal_entries_def)

lemma wal_cleanI:
  assumes "content s (path w) = concat (map wal_record es)" and "list_all entry_ok es"
  shows "wal_clean w s" and "wal_entries w s = es"
  using assms walrec.scan_exactly [of es] by (auto simp: wal_clean_def wal_entries_def)

lemma wal_entries_cong: "files s (path w) = files t (path w) \<Longrightarrow> wal_entries w s = wal_entries w t"
  by (simp add: wal_entries_def content_def)

lemma wal_clean_cong: "files s (path w) = files t (path w) \<Longrightarrow> wal_clean w s = wal_clean w t"
  by (simp add: wal_clean_def wal_entries_def content_def)

subsection \<open>Append\<close>

lemma Append_effect:
  assumes "Append w e s = (r, s')"
  shows "\<exists>ps qs. wal_record e = ps @ qs \<and> content s' (path w) = content s (path w) @ ps
           \<and> (r = Inr () \<longrightarrow> qs = [] \<and> path w \<notin> dirty s')"
proof (cases "wal_open w")
  case False
  with assms show ?thesis
    by (intro exI [of _ "[]"] exI [of _ "wal_record e"]) (auto simp: Append_def fop_def Let_def)
next
  case True
  let ?c = "PutUint32 (ChecksumIEEE (encode e))"
  obtain r1 s1 where w1: "os_write (path w) ?c s = (r1, s1)" by fastforce
  obtain p1 q1 where e1: "?c = p1 @ q1" "content s1 (path w) = content s (path w) @ p1"
    "r1 = Inr () \<longrightarrow> q1 = []" using os_write_effect [OF w1] by blast
  show ?thesis
  proof (cases r1)
    case (Inl x)
    with True w1 assms have "s' = s1" "r \<noteq> Inr ()" by (auto simp: Append_def fop_def Let_def)
    with e1 show ?thesis
      by (intro exI [of _ p1] exI [of _ "q1 @ encode e"]) (simp add: wal_record_def)
  next
    case (Inr u)
    obtain r2 s2 where w2: "os_write (path w) (encode e) s1 = (r2, s2)" by fastforce
    obtain p2 q2 where e2: "encode e = p2 @ q2" "content s2 (path w) = content s1 (path w) @ p2"
      "r2 = Inr () \<longrightarrow> q2 = []" using os_write_effect [OF w2] by blast
    obtain r3 s3 where w3: "os_sync (path w) s2 = (r3, s3)" by fastforce
    note sync = os_sync_effect [OF w3]
    have q1: "q1 = []" "p1 = ?c" using Inr e1 by auto
    have "content s' (path w) = content s2 (path w) \<and> (r = Inr () \<longrightarrow> r2 = Inr () \<and> path w \<notin> dirty s')"
      using True Inr w1 w2 w3 assms sync
      by (cases r2) (auto simp: Append_def fop_def Let_def content_def)
    with e1 e2 q1 show ?thesis
      by (intro exI [of _ "?c @ p2"] exI [of _ q2]) (auto simp: wal_record_def)
  qed
qed

lemma Append_frame [frame_simps]: "q \<noteq> path w \<Longrightarrow> files (snd (Append w e s)) q = files s q"
  by (auto simp: Append_def Let_def fop_def snd_obind frame_simps split: sum.splits)

lemma Append_range_order [frame_simps]: "range_order (snd (Append w e s)) = range_order s"
  by (auto simp: Append_def Let_def fop_def snd_obind frame_simps split: sum.splits)

lemma Append_free:
  assumes "faults s = []" and "wal_open w"
  shows "Append w e s = (Inr (), s\<lparr>files := (files s)(path w \<mapsto> content s (path w) @ wal_record e),
                                  dirty := dirty s - {path w}\<rparr>)"
  using assms by (simp add: Append_def fop_def os_simps wal_record_def Let_def insert_Diff_if)

text \<open>Interrupted or not, the entries before stay readable, and at most the new one is added.\<close>

lemma Append_entries:
  assumes "wal_clean w s" and "entry_ok e" and "Append w e s = (r, s')"
  shows "wal_entries w s' = wal_entries w s \<or> wal_entries w s' = wal_entries w s @ [e]"
    and "r = Inr () \<Longrightarrow> wal_entries w s' = wal_entries w s @ [e] \<and> wal_clean w s' \<and> path w \<notin> dirty s'"
proof -
  obtain ps qs where eff: "wal_record e = ps @ qs" "content s' (path w) = content s (path w) @ ps"
    "r = Inr () \<longrightarrow> qs = [] \<and> path w \<notin> dirty s'"
    using Append_effect [OF assms(3)] by blast
  have c: "content s' (path w) = concat (map wal_record (wal_entries w s)) @ ps"
    using eff assms(1) by (simp add: wal_clean_def)
  have es: "wal_entries w s' = (if qs = [] then wal_entries w s @ [e] else wal_entries w s)"
    using walrec.scan_records_torn [OF wal_entries_ok assms(2) eff(1)] c by (simp add: wal_entries_def)
  then show "wal_entries w s' = wal_entries w s \<or> wal_entries w s' = wal_entries w s @ [e]" by auto
  assume "r = Inr ()"
  with eff es c show "wal_entries w s' = wal_entries w s @ [e] \<and> wal_clean w s' \<and> path w \<notin> dirty s'"
    by (simp add: wal_clean_def)
qed

subsection \<open>ReadAll\<close>

lemma ReadAll_free: "faults s = [] \<Longrightarrow> wal_open w \<Longrightarrow> ReadAll w s = (Inr (wal_entries w s), s)"
  by (simp add: ReadAll_def fop_def os_simps wal_entries_def)

lemma ReadAll_frame [frame_simps]:
  "files (snd (ReadAll w s)) = files s"
  "range_order (snd (ReadAll w s)) = range_order s"
  by (auto simp: ReadAll_def fop_def snd_obind Let_def case_prod_beta frame_simps split: sum.splits)

text \<open>A failing read cuts off the entries at some point.\<close>

lemma read_entries_take: "\<exists>zs. read_entries bs = read_entries (take k bs) @ zs"
proof -
  obtain tail where t: "take k bs = concat (map wal_record (read_entries (take k bs))) @ tail"
    "list_all entry_ok (read_entries (take k bs))"
    using walrec.scan_longest [of "take k bs"] by blast
  have "bs = (concat (map wal_record (read_entries (take k bs))) @ tail) @ drop k bs"
    unfolding t(1) [symmetric] by simp
  then have "bs = concat (map wal_record (read_entries (take k bs))) @ (tail @ drop k bs)" by simp
  then show ?thesis using walrec.scan_records [OF t(2), of "tail @ drop k bs"] by metis
qed

lemma os_read_take: "\<exists>k. fst (os_read p s) = take k (content s p)"
proof (cases "faults s")
  case Nil
  then have "fst (os_read p s) = take (length (content s p)) (content s p)" by (simp add: os_read_def)
  then show ?thesis by blast
next
  case (Cons f fs)
  then have "fst (os_read p s) = (case f of Succeed \<Rightarrow> content s p | Fail k \<Rightarrow> take k (content s p))"
    by (simp add: os_read_def next_fault_def split: fault.split)
  then show ?thesis by (cases f) (auto intro: exI [of _ "length (content s p)"])
qed

subsection \<open>TruncateAfter\<close>

text \<open>The entries up to and including the first one with the index.\<close>

fun keep_upto :: "u64 \<Rightarrow> entry list \<Rightarrow> entry list" where
  "keep_upto index [] = []"
| "keep_upto index (e # es) = (if Index e = index then [e] else e # keep_upto index es)"

lemma keep_upto_prefix: "\<exists>zs. es = keep_upto index es @ zs"
  by (induction es) auto

lemma keep_upto_ok: "list_all entry_ok es \<Longrightarrow> list_all entry_ok (keep_upto index es)"
  by (induction es) auto

lemma cut_after_step:
  "entry_ok e \<Longrightarrow> cut_after index offset (wal_record e @ rest) =
     (if Index e = index then Some (offset + length (wal_record e))
      else cut_after index (offset + length (wal_record e)) rest)"
  by (subst cut_after.simps) (simp only: readOne_record sum.case prod.case)

lemma cut_after_Nil: "cut_after index offset [] = None"
  by (subst cut_after.simps) (simp add: readOne_def ReadFull_def)

lemma cut_after_records:
  "list_all entry_ok es \<Longrightarrow> cut_after index offset (concat (map wal_record es)) =
     (if index \<in> Index ` set es
      then Some (offset + length (concat (map wal_record (keep_upto index es)))) else None)"
proof (induction es arbitrary: offset)
  case Nil
  then show ?case by (simp add: cut_after_Nil)
next
  case (Cons e es)
  then show ?case by (auto simp: cut_after_step simp del: length_wal_record)
qed

lemma TruncateAfter_free:
  assumes "faults s = []" and "wal_open w" and "wal_clean w s"
  shows "index \<in> Index ` set (wal_entries w s) \<Longrightarrow>
      TruncateAfter w index s =
        (Inr (), s\<lparr>files := (files s)(path w \<mapsto> concat (map wal_record (keep_upto index (wal_entries w s)))),
                  dirty := dirty s - {path w}\<rparr>)"
    and "index \<notin> Index ` set (wal_entries w s) \<Longrightarrow>
      TruncateAfter w index s = (Inl (Errorf (''index '' @ decimal (unat index) @ '' not found'')), s)"
proof -
  let ?es = "wal_entries w s"
  have c: "content s (path w) = concat (map wal_record ?es)"
    using assms(3) by (simp add: wal_clean_def)
  obtain zs where zs: "?es = keep_upto index ?es @ zs" using keep_upto_prefix by blast
  have "concat (map wal_record ?es) = concat (map wal_record (keep_upto index ?es)) @ concat (map wal_record zs)"
    using zs by (rule concat_map_split)
  then have cut: "take (length (concat (map wal_record (keep_upto index ?es)))) (content s (path w))
      = concat (map wal_record (keep_upto index ?es))"
    "length (concat (map wal_record (keep_upto index ?es))) \<le> length (content s (path w))"
    using c by simp_all
  note ca = cut_after_records [OF wal_entries_ok [of w s], of index 0, folded c]
  show "TruncateAfter w index s =
        (Inr (), s\<lparr>files := (files s)(path w \<mapsto> concat (map wal_record (keep_upto index ?es))),
                  dirty := dirty s - {path w}\<rparr>)" if "index \<in> Index ` set ?es"
    using that assms(1,2) cut by (simp add: TruncateAfter_def fop_def os_simps ca insert_Diff_if)
  show "TruncateAfter w index s = (Inl (Errorf (''index '' @ decimal (unat index) @ '' not found'')), s)" if "index \<notin> Index ` set ?es"
    using that assms(1,2) by (simp add: TruncateAfter_def fop_def os_simps ca)
qed

lemma TruncateAfter_frame [frame_simps]:
  "q \<noteq> path w \<Longrightarrow> files (snd (TruncateAfter w index s)) q = files s q"
  "range_order (snd (TruncateAfter w index s)) = range_order s"
  by (auto simp: TruncateAfter_def fop_def snd_obind Let_def case_prod_beta frame_simps
      split: sum.splits option.splits)

subsection \<open>CompactWAL\<close>

lemma temp_path_neq [simp]: "temp_path p \<noteq> p" "p \<noteq> temp_path p"
  by (simp_all add: temp_path_def)

lemma append_survivors_frame [frame_simps]:
  "q \<noteq> path t \<Longrightarrow> files (snd (append_survivors t es s)) q = files s q"
  by (induction t es s rule: append_survivors.induct)
   (auto simp: Close_def fop_def frame_simps split: prod.splits sum.splits, (metis Append_frame snd_conv)+)

lemma append_survivors_content:
  "append_survivors t es s = (Inr (), s') \<Longrightarrow>
     content s' (path t) = content s (path t) @ concat (map wal_record es)"
proof (induction es arbitrary: s)
  case (Cons e es)
  then obtain s1 where a: "Append t e s = (Inr (), s1)" and r: "append_survivors t es s1 = (Inr (), s')"
    by (auto split: prod.splits sum.splits)
  from Append_effect [OF a] Cons.IH [OF r] show ?case by auto
qed simp

text \<open>The first read of the log does not hit a read error (the first call is the seek).\<close>

definition log_readable :: "os \<Rightarrow> bool" where
  "log_readable s \<longleftrightarrow> length (faults s) < 2 \<or> faults s ! 1 = Succeed"

lemma os_plain_Inr: "os_plain s = (Inr (), s') \<Longrightarrow> s' = s\<lparr>faults := tl (faults s)\<rparr>"
  by (cases "faults s") (auto simp: os_plain_def next_fault_def split: fault.splits)

lemma os_read_ok: "faults s = [] \<or> hd (faults s) = Succeed \<Longrightarrow> fst (os_read p s) = content s p"
  by (cases "faults s") (auto simp: os_read_def next_fault_def)

lemma ReadAll_readable:
  assumes "log_readable s" and "ReadAll w s = (Inr es, s')"
  shows "es = wal_entries w s"
proof -
  obtain s1 where s1: "os_plain s = (Inr (), s1)" and es: "es = read_entries (fst (os_read (path w) s1))"
    using assms(2) by (auto simp: ReadAll_def fop_def obind_Inr_iff owrap_Inr_iff case_prod_beta Let_def
        split: if_splits)
  have s1': "s1 = s\<lparr>faults := tl (faults s)\<rparr>" using s1 by (rule os_plain_Inr)
  have "faults s1 = [] \<or> hd (faults s1) = Succeed"
    using assms(1) s1' by (cases "faults s"; cases "tl (faults s)") (auto simp: log_readable_def)
  then have "fst (os_read (path w) s1) = content s1 (path w)" by (rule os_read_ok)
  with es s1' show ?thesis by (simp add: wal_entries_def)
qed

lemma ReadAll_prefix:
  assumes "ReadAll w s = (Inr es, s')"
  shows "\<exists>zs. wal_entries w s = es @ zs"
proof -
  obtain s1 where s1: "os_plain s = (Inr (), s1)" and es: "es = read_entries (fst (os_read (path w) s1))"
    using assms by (auto simp: ReadAll_def fop_def obind_Inr_iff owrap_Inr_iff case_prod_beta Let_def split: if_splits)
  obtain k where "fst (os_read (path w) s1) = take k (content s1 (path w))" using os_read_take by blast
  moreover have "content s1 (path w) = content s (path w)" using os_plain_Inr [OF s1] by simp
  ultimately show ?thesis using es read_entries_take [of "content s (path w)" k] by (simp add: wal_entries_def)
qed

lemma os_rename_effect:
  assumes "os_rename p q s = (r, s')"
  shows "r \<noteq> Inr () \<Longrightarrow> files s' = files s" and "r = Inr () \<Longrightarrow> content s' q = content s p"
  using assms by (auto simp: os_rename_def content_def split: prod.splits fault.splits option.splits)

lemma Open_effect:
  assumes "Open p s = (r, s')"
  shows "q \<noteq> p \<Longrightarrow> files s' q = files s q" and "content s' p = content s p"
    and "r = Inr t \<Longrightarrow> path t = p"
  using assms by (auto simp: Open_def os_open_append_def split: prod.splits fault.splits)

lemma Close_frame [frame_simps]: "files (snd (Close w s)) = files s"
  by (simp add: Close_def fop_def frame_simps)

text \<open>Up to the rename only the temporary file is written.\<close>

lemma replace_compacted_error:
  assumes "replace_compacted w ci s = (r, s')" and "r \<noteq> Inr ()"
  shows "files s' (path w) = files s (path w)"
proof -
  let ?t = "temp_path (path w)"
  obtain r1 s1 where a1: "ReadAll w s = (r1, s1)" by fastforce
  then have f1: "files s1 = files s" using ReadAll_frame(1) [of w s] by simp
  show ?thesis
  proof (cases r1)
    case Inl
    with a1 f1 assms(1) show ?thesis by (auto simp: replace_compacted_def)
  next
    case (Inr es)
    obtain r2 s2 where a2: "Open ?t s1 = (r2, s2)" by fastforce
    then have f2: "files s2 (path w) = files s (path w)"
      using f1 Open_effect(1) [OF a2, of "path w"] by simp
    show ?thesis
    proof (cases r2)
      case Inl
      with Inr a1 a2 f2 assms(1) show ?thesis by (auto simp: replace_compacted_def)
    next
      case r2: (Inr t)
      then have pt: "path t = ?t" using Open_effect(3) [OF a2] by simp
      obtain r3 s3 where a3: "append_survivors t (filter (\<lambda>e. Index e > ci) es) s2 = (r3, s3)" by fastforce
      obtain r4 s4 where a4: "Close t s3 = (r4, s4)" by fastforce
      obtain r5 s5 where a5: "os_rename ?t (path w) s4 = (r5, s5)" by fastforce
      have f3: "files s3 (path w) = files s (path w)"
        using f2 append_survivors_frame [of "path w" t _ s2] a3 pt by (metis snd_conv temp_path_neq(2))
      have f4: "files s4 (path w) = files s (path w)"
        using f3 Close_frame [of t s3] a4 by simp
      show ?thesis
        using Inr r2 a1 a2 a3 a4 a5 f3 f4 assms os_rename_effect(1) [OF a5]
        by (cases r3; cases r4; cases r5) (auto simp: replace_compacted_def)
    qed
  qed
qed

lemma replace_compacted_read:
  assumes "replace_compacted w ci s = (Inr (), s')"
  obtains es s1 where "ReadAll w s = (Inr es, s1)"
    "content s' (path w) = content s (temp_path (path w)) @ concat (map wal_record (filter (\<lambda>e. Index e > ci) es))"
proof -
  let ?t = "temp_path (path w)"
  obtain es s1 t s2 s3 s4 where a1: "ReadAll w s = (Inr es, s1)" and a2: "Open ?t s1 = (Inr t, s2)"
    and a3: "append_survivors t (filter (\<lambda>e. Index e > ci) es) s2 = (Inr (), s3)"
    and a4: "Close t s3 = (Inr (), s4)" and a5: "os_rename ?t (path w) s4 = (Inr (), s')"
    using assms(1) by (auto simp: replace_compacted_def obind_Inr_iff owrap_Inr_iff)
  have "content s1 ?t = content s ?t"
    using a1 ReadAll_frame(1) [of w s] by (intro content_cong) simp
  then have "content s2 ?t = content s ?t"
    using Open_effect(2) [OF a2] by simp
  then have "content s3 ?t = content s ?t @ concat (map wal_record (filter (\<lambda>e. Index e > ci) es))"
    using append_survivors_content [OF a3] Open_effect(3) [OF a2 refl] by simp
  moreover have "content s4 ?t = content s3 ?t"
    using a4 Close_frame [of t s3] by (intro content_cong) simp
  ultimately show thesis using that [OF a1] os_rename_effect(2) [OF a5] by simp
qed

lemma replace_compacted_done:
  assumes "replace_compacted w ci s = (Inr (), s')" and "log_readable s"
  shows "content s' (path w) =
     content s (temp_path (path w)) @ concat (map wal_record (filter (\<lambda>e. Index e > ci) (wal_entries w s)))"
  using replace_compacted_read [OF assms(1)] ReadAll_readable [OF assms(2)] by metis

lemma os_open_append_content: "content (snd (os_open_append p s)) q = content s q"
  by (auto simp: os_open_append_def content_def split: prod.splits fault.splits)

lemma CompactWAL_split:
  assumes "CompactWAL w ci s = (r, w', s')"
  obtains r1 s1 where "replace_compacted w ci s = (r1, s1)"
    and "content s' (path w) = content s1 (path w)" and "r = Inr () \<longrightarrow> r1 = Inr () \<and> wal_open w'"
    and "path w' = path w"
proof -
  obtain r1 s1 where r1: "replace_compacted w ci s = (r1, s1)" by fastforce
  moreover have "content s' (path w) = content s1 (path w) \<and> (r = Inr () \<longrightarrow> r1 = Inr () \<and> wal_open w') \<and> path w' = path w"
  proof (cases r1)
    case Inl
    with r1 assms show ?thesis by (auto simp: CompactWAL_def)
  next
    case (Inr u)
    obtain r2 s2 where o: "os_open_append (path w) (snd (Close w s1)) = (r2, s2)" by fastforce
    then have "content s2 (path w) = content s1 (path w)"
      using os_open_append_content [of "path w" "snd (Close w s1)" "path w"]
        content_cong [of "snd (Close w s1)" "path w" s1] Close_frame [of w s1] by simp
    with Inr o r1 assms show ?thesis by (cases r2) (auto simp: CompactWAL_def)
  qed
  ultimately show ?thesis using that by blast
qed

text \<open>Whatever call of a compaction fails, the log holds all its entries or the survivors of those that could be read.\<close>

lemma CompactWAL_reads:
  assumes eq: "CompactWAL w ci s = (res, w', s')" and temp: "content s (temp_path (path w)) = []"
  obtains es zs where "wal_entries w s = es @ zs" "log_readable s \<longrightarrow> zs = []"
    "wal_entries w s' = wal_entries w s \<or> wal_entries w s' = filter (\<lambda>e. Index e > ci) es"
    "res = Inr () \<longrightarrow> wal_entries w' s' = filter (\<lambda>e. Index e > ci) es \<and> wal_clean w' s' \<and> wal_open w'"
proof -
  obtain r1 s1 where r1: "replace_compacted w ci s = (r1, s1)"
    and c: "content s' (path w) = content s1 (path w)" and ok: "res = Inr () \<longrightarrow> r1 = Inr () \<and> wal_open w'"
    and pw: "path w' = path w"
    by (rule CompactWAL_split [OF eq])
  show thesis
  proof (cases "r1 = Inr ()")
    case False
    then have "files s1 (path w) = files s (path w)" using r1 replace_compacted_error by blast
    then have "wal_entries w s' = wal_entries w s" using c by (simp add: wal_entries_def content_def)
    then show thesis using that [of "wal_entries w s" "[]"] ok False by simp
  next
    case True
    then obtain es t where es: "ReadAll w s = (Inr es, t)"
      and c1: "content s1 (path w) = concat (map wal_record (filter (\<lambda>e. Index e > ci) es))"
      using r1 replace_compacted_read [of w ci s s1] temp by auto
    obtain zs where zs: "wal_entries w s = es @ zs" using ReadAll_prefix [OF es] by blast
    have "list_all entry_ok (filter (\<lambda>e. Index e > ci) es)"
      using wal_entries_ok [of w s] by (simp add: zs list_all_iff)
    from wal_cleanI [OF _ this, of s'] have d: "wal_clean w s'" "wal_entries w s' = filter (\<lambda>e. Index e > ci) es"
      using c c1 by simp_all
    have "zs = []" if "log_readable s" using ReadAll_readable [OF that es] zs by simp
    then show thesis using that [OF zs] d ok pw by (simp add: wal_entries_def wal_clean_def)
  qed
qed

lemma CompactWAL_done:
  assumes "CompactWAL w ci s = (Inr (), w', s')" and "log_readable s" and "content s (temp_path (path w)) = []"
  shows "wal_entries w' s' = filter (\<lambda>e. Index e > ci) (wal_entries w s) \<and> wal_clean w' s' \<and> wal_open w' \<and> path w' = path w"
proof -
  have "path w' = path w" by (rule CompactWAL_split [OF assms(1)])
  moreover obtain es zs where "wal_entries w s = es @ zs" "log_readable s \<longrightarrow> zs = []"
    "wal_entries w' s' = filter (\<lambda>e. Index e > ci) es \<and> wal_clean w' s' \<and> wal_open w'"
    using CompactWAL_reads [OF assms(1,3)] by metis
  ultimately show ?thesis using assms(2) by simp
qed

text \<open>Without faults a compaction succeeds.\<close>

lemma append_survivors_free:
  "faults s = [] \<Longrightarrow> wal_open t \<Longrightarrow> files s (path t) \<noteq> None \<Longrightarrow>
     \<exists>s'. append_survivors t es s = (Inr (), s') \<and> faults s' = [] \<and> files s' (path t) \<noteq> None"
  by (induction es arbitrary: s) (auto simp: Append_free)

lemma CompactWAL_free:
  assumes "faults s = []" and "wal_open w" and "CompactWAL w ci s = (r, w', s')"
  shows "r = Inr () \<and> w' = w \<and> faults s' = []"
proof -
  let ?t = "\<lparr>path = temp_path (path w), wal_open = True\<rparr>"
  let ?s1 = "s\<lparr>files := (files s)(temp_path (path w) \<mapsto> content s (temp_path (path w)))\<rparr>"
  have "\<exists>s2. append_survivors ?t (filter (\<lambda>e. Index e > ci) (wal_entries w s)) ?s1 = (Inr (), s2)
      \<and> faults s2 = [] \<and> files s2 (path ?t) \<noteq> None"
    using assms(1) by (intro append_survivors_free) auto
  then obtain s2 where s2: "append_survivors ?t (filter (\<lambda>e. Index e > ci) (wal_entries w s)) ?s1 = (Inr (), s2)"
    "faults s2 = []" "files s2 (temp_path (path w)) \<noteq> None" by auto
  have "Open (temp_path (path w)) s = (Inr ?t, ?s1)"
    using assms(1) by (simp add: Open_def os_simps)
  with s2 assms show ?thesis
    by (auto simp: CompactWAL_def replace_compacted_def ReadAll_free Close_def fop_def os_simps os_rename_def)
qed

text \<open>Every operation writes the log file only, a compaction its temporary file too.\<close>

lemma Append_changes: "changes_only {path w} s (snd (Append w e s))"
  by (auto simp: Append_def Let_def fop_def intro!: changes_only_obind)

lemma ReadAll_changes: "changes_only Q s (snd (ReadAll w s))"
  by (auto simp: ReadAll_def fop_def case_prod_beta Let_def intro!: changes_only_obind)

lemma TruncateAfter_changes: "changes_only {path w} s (snd (TruncateAfter w index s))"
  by (auto simp: changes_only_def frame_simps)

lemma Open_changes: "changes_only {p} s (snd (Open p s))"
  by (auto simp: Open_def intro!: changes_only_obind)

lemma Open_path: "Open p s = (Inr t, s') \<Longrightarrow> path t = p"
  by (auto simp: Open_def obind_Inr_iff)

lemma Close_changes: "changes_only Q s (snd (Close w s))"
  by (simp add: Close_def fop_def)

lemma append_survivors_changes: "changes_only {path t} s (snd (append_survivors t es s))"
proof (induction es arbitrary: s)
  case (Cons e es)
  obtain r s1 where a: "Append t e s = (r, s1)" by fastforce
  then have "changes_only {path t} s s1" using Append_changes [of t s e] by simp
  with a Cons [of s1] Close_changes [of _ s1 t] show ?case
    by (cases r) (auto intro: changes_only_trans)
qed simp

lemma CompactWAL_changes:
  "changes_only {path w, temp_path (path w)} s (snd (snd (CompactWAL w ci s)))"
proof -
  let ?Q = "{path w, temp_path (path w)}"
  note sub = changes_only_mono [where R = ?Q]
  have op: "changes_only ?Q s (snd (Open (temp_path (path w)) s))" for s
    by (rule sub [OF Open_changes]) simp
  have ap: "changes_only ?Q s (snd (append_survivors t es s))" if "path t = temp_path (path w)" for t es s
    by (rule sub [OF append_survivors_changes]) (simp add: that)
  have rn: "changes_only ?Q s (snd (os_rename (temp_path (path w)) (path w) s))" for s
    by (rule sub [OF changes_only_calls(5)]) simp
  have oa: "changes_only ?Q s (snd (os_open_append (path w) s))" for s
    by (rule sub [OF changes_only_calls(1)]) simp
  have rc: "changes_only ?Q s (snd (replace_compacted w ci s))"
    unfolding replace_compacted_def
    by (auto intro!: changes_only_obind op ap rn dest: Open_path
        simp: ReadAll_changes Close_changes owrap_Inr_iff)
  obtain r1 s1 where r1: "replace_compacted w ci s = (r1, s1)" by fastforce
  obtain r2 s2 where r2: "os_open_append (path w) (snd (Close w s1)) = (r2, s2)" by fastforce
  have "changes_only ?Q s s2"
    using rc r1 Close_changes [of ?Q s1 w] oa [of "snd (Close w s1)"] r2
    by (metis changes_only_trans snd_conv)
  with rc r1 r2 show ?thesis
    by (cases r1; cases r2) (auto simp: CompactWAL_def)
qed

subsection \<open>Corruption\<close>

lemma wal_record_fields:
  "take 4 (wal_record e) = PutUint32 (ChecksumIEEE (encode e))"
  "drop 4 (wal_record e) = encode e"
  "take 4 (drop 20 (wal_record e)) = PutUint32 (of_nat (length (Data e)))"
  by (simp_all add: wal_record_def encode_def)

text \<open>
  One byte of a record is altered, its length field apart: no record can be read there. If the byte
  belongs to the checksum the entry is the same and its checksum cannot be another one; otherwise the
  checksum is the same and tells the altered entry from the written one.
\<close>

lemma read_record_corrupt:
  assumes "entry_ok e" and "wal_record e = a @ b # c" and "b' \<noteq> b" and "length a \<notin> {20..<24}"
  shows "\<exists>err. read_record (a @ b' # c @ rest) = Inl err"
proof (cases "read_record (a @ b' # c @ rest)")
  case (Inr r)
  then obtain x rest' where x: "entry_ok x" "a @ b' # c @ rest = wal_record x @ rest'"
    using walrec.dec_exact by (cases r) blast
  have ac: "length a + length c + 1 = 24 + length (Data e)"
    using arg_cong [OF assms(2), of length] by simp
  have "take 4 (drop 20 (a @ b' # c @ rest)) = take 4 (drop 20 (a @ b # c))"
    using assms(4) ac by (auto simp: not_le drop_Cons')
  then have "PutUint32 (of_nat (length (Data x))) = PutUint32 (of_nat (length (Data e)) :: u32)"
    using x(2) wal_record_fields(3) [of x] wal_record_fields(3) [of e] assms(2) by simp
  then have "length (Data x) = length (Data e)"
    using x(1) assms(1) by (metis Uint32_PutUint32 entry_ok_def unat_of_nat_u32)
  then have xr: "wal_record x = a @ b' # c"
    using x(2) ac append_eq_append_conv [of "a @ b' # c" "wal_record x" rest rest'] by simp
  show ?thesis
  proof (cases "length a < 4")
    case True
    then have "encode x = encode e"
      using wal_record_fields(2) [of x] wal_record_fields(2) [of e] xr assms(2)
      by (cases "4 - length a") auto
    then have "wal_record x = wal_record e" by (simp add: wal_record_def)
    with xr assms(2,3) show ?thesis by simp
  next
    case False
    then have "encode x = drop 4 a @ b' # c" "encode e = drop 4 a @ b # c"
      using wal_record_fields(2) [of x] wal_record_fields(2) [of e] xr assms(2) by simp_all
    moreover have "ChecksumIEEE (encode x) = ChecksumIEEE (encode e)"
      using False wal_record_fields(1) [of x] wal_record_fields(1) [of e] xr assms(2)
      by (metis Uint32_PutUint32 not_le take_append take_all_iff append_take_drop_id diff_is_0_eq' take_0 less_imp_le_nat)
    ultimately show ?thesis
      using ChecksumIEEE_detects_byte [OF assms(3)] by simp
  qed
qed simp

subsection \<open>Truncating under any fault\<close>

lemma cut_after_tail:
  "list_all entry_ok es \<Longrightarrow> read_record tail = Inl err \<Longrightarrow> cut_after index offset (concat (map wal_record es) @ tail) =
     (if index \<in> Index ` set es
      then Some (offset + length (concat (map wal_record (keep_upto index es)))) else None)"
proof (induction es arbitrary: offset)
  case Nil
  then have "\<exists>e. readOne tail = Inl e" by (cases "readOne tail") (auto simp: read_record_def)
  then show ?case by (subst cut_after.simps) auto
next
  case (Cons e es)
  then show ?case by (auto simp: cut_after_step simp del: length_wal_record)
qed

lemma keep_upto_append: "index \<in> Index ` set es \<Longrightarrow> keep_upto index (es @ zs) = keep_upto index es"
  by (induction es) auto

text \<open>What the search finds in the part of the file that could be read.\<close>

lemma cut_after_read:
  assumes "wal_clean w s"
  shows "case cut_after index 0 (take k (content s (path w))) of None \<Rightarrow> True
     | Some n \<Rightarrow> index \<in> Index ` set (wal_entries w s) \<and> n = length (concat (map wal_record (keep_upto index (wal_entries w s))))"
proof -
  let ?c = "content s (path w)"
  let ?es = "read_entries (take k ?c)"
  obtain zs where zs: "wal_entries w s = ?es @ zs" using read_entries_take unfolding wal_entries_def by blast
  obtain tail err where "take k ?c = concat (map wal_record ?es) @ tail" "read_record tail = Inl err" "list_all entry_ok ?es"
    using walrec.scan_longest [of "take k ?c"] by blast
  then have "cut_after index 0 (take k ?c) =
      (if index \<in> Index ` set ?es then Some (length (concat (map wal_record (keep_upto index ?es)))) else None)"
    using cut_after_tail [of ?es tail err index 0] by simp
  then show ?thesis using zs keep_upto_append [of index ?es zs] by auto
qed

lemma os_truncate_cases:
  assumes "os_truncate p n s = (r, s')" and "n \<le> length (content s p)"
  shows "r \<noteq> Inr () \<and> files s' = files s \<or> r = Inr () \<and> content s' p = take n (content s p)"
  using assms by (auto simp: os_truncate_def content_def split: prod.splits fault.splits)

lemma TruncateAfter_entries:
  assumes clean: "wal_clean w s" and "TruncateAfter w j s = (res, s')"
  shows "content s' (path w) = content s (path w) \<and> res \<noteq> Inr ()
     \<or> j \<in> Index ` set (wal_entries w s) \<and> content s' (path w) = concat (map wal_record (keep_upto j (wal_entries w s)))
       \<and> (res = Inr () \<longrightarrow> path w \<notin> dirty s')"
proof (cases "wal_open w \<and> fst (os_plain s) = Inr ()")
  case False
  then show ?thesis
    using assms(2) os_frame(6) [of s]
    by (cases "os_plain s"; cases "fst (os_plain s)") (auto simp: TruncateAfter_def fop_def content_def split: if_splits)
next
  case True
  then obtain s1 where s1: "os_plain s = (Inr (), s1)" by (cases "os_plain s") auto
  obtain c s2 where s2: "os_read (path w) s1 = (c, s2)" by fastforce
  let ?es = "wal_entries w s"
  have f1: "content s1 p = content s p" for p using os_plain_Inr [OF s1] by simp
  have f2: "content s2 p = content s p" for p
    using f1 os_frame(7) [of "path w" s1] s2 by (simp add: content_def)
  obtain k where k: "c = take k (content s (path w))" using os_read_take [of "path w" s1] s2 f1 by auto
  have rest: "TruncateAfter w j s = (case cut_after j 0 c of
            None \<Rightarrow> (Inl (Errorf (''index '' @ decimal (unat j) @ '' not found'')), s2)
          | Some offset \<Rightarrow>
              obind (owrap ''truncate failed : '' (os_truncate (path w) offset s2)) (\<lambda>_ s.
              obind (owrap ''sync failed: '' (os_sync (path w) s)) (\<lambda>_ s.
              owrap ''seek to end failed: '' (os_plain s))))"
    using True s1 s2 by (simp add: TruncateAfter_def fop_def)
  show ?thesis
  proof (cases "cut_after j 0 c")
    case None
    then show ?thesis using assms(2) rest f2 by auto
  next
    case (Some n)
    then have j: "j \<in> Index ` set ?es" and n: "n = length (concat (map wal_record (keep_upto j ?es)))"
      using cut_after_read [OF clean, of j k] k by auto
    obtain zs where "?es = keep_upto j ?es @ zs" using keep_upto_prefix by blast
    then have "concat (map wal_record ?es) = concat (map wal_record (keep_upto j ?es)) @ concat (map wal_record zs)"
      by (rule concat_map_split)
    then have cut: "take n (content s (path w)) = concat (map wal_record (keep_upto j ?es))" "n \<le> length (content s (path w))"
      using clean by (simp_all add: wal_clean_def n)
    obtain r3 s3 where s3: "os_truncate (path w) n s2 = (r3, s3)" by fastforce
    obtain r4 s4 where s4: "os_sync (path w) s3 = (r4, s4)" by fastforce
    obtain r5 s5 where s5: "os_plain s4 = (r5, s5)" by fastforce
    have f4: "content s4 p = content s3 p" "r4 = Inr () \<longrightarrow> path w \<notin> dirty s4" for p
      using os_sync_effect [OF s4] by (auto simp: content_def)
    have f5: "content s5 p = content s4 p" "dirty s5 = dirty s4" for p
      using s5 by (auto simp: os_plain_def content_def split: prod.splits fault.splits)
    have t3: "r3 \<noteq> Inr () \<and> files s3 = files s2 \<or> r3 = Inr () \<and> content s3 (path w) = concat (map wal_record (keep_upto j ?es))"
      using os_truncate_cases [OF s3] cut f2 by simp
    then show ?thesis
      using assms(2) rest Some s3 s4 s5 f2 f4 f5 j
      by (cases r3; cases r4; cases r5) (auto simp: content_def)
  qed
qed

lemma read_record_swallows:
  assumes "wal_record x = torn @ lost" and "entry_ok x" and "24 \<le> length torn" and "length extra < length lost"
  shows "\<exists>err. read_record (torn @ extra) = Inl err"
proof (cases "read_record (torn @ extra)")
  case (Inr r)
  then obtain y rest where y: "entry_ok y" "torn @ extra = wal_record y @ rest"
    using walrec.dec_exact by (cases r) blast
  have "take 4 (drop 20 (torn @ extra)) = take 4 (drop 20 (torn @ lost))" using assms(3) by simp
  then have "PutUint32 (of_nat (length (Data y))) = PutUint32 (of_nat (length (Data x)) :: u32)"
    using y(2) wal_record_fields(3) [of x] wal_record_fields(3) [of y] assms(1) by simp
  then have "length (Data y) = length (Data x)"
    using y(1) assms(2) by (metis Uint32_PutUint32 entry_ok_def unat_of_nat_u32)
  then show ?thesis
    using arg_cong [OF y(2), of length] arg_cong [OF assms(1), of length] assms(4) by simp
qed simp

subsection \<open>Properties\<close>

definition sample_wal :: WAL where
  "sample_wal = \<lparr>path = ''wal'', wal_open = True\<rparr>"

definition sample_record :: "u64 \<Rightarrow> entry" where
  "sample_record i = \<lparr>Term = 1, Index = i, Data = []\<rparr>"

text \<open>
  C19: the write-ahead log survives a failed append. Whatever system call of \<^verbatim>\<open>Append\<close>
  fails, the entries that can be read back are those from before or those with the new entry at the end; when
  \<^verbatim>\<open>Append\<close> reports success the entry is there, synced to disk, and the log ends on a
  record boundary.
\<close>

theorem Append_crash_safe:
  assumes "wal_clean w s" and "entry_ok e" and "Append w e s = (res, s')"
  shows "(wal_entries w s' = wal_entries w s \<or> wal_entries w s' = wal_entries w s @ [e])
       \<and> (res = Inr () \<longrightarrow> wal_entries w s' = wal_entries w s @ [e] \<and> wal_clean w s' \<and> path w \<notin> dirty s')
       \<and> changes_only {path w} s s'"
  using Append_entries [OF assms] Append_changes [of w s e] assms(3) by auto

theorem Append_crash_safe_witness:
  "let s' = snd (Append sample_wal (sample_record 1) (quiet_os\<lparr>faults := [Succeed, Fail 7]\<rparr>))
   in wal_entries sample_wal s' = [] \<or> wal_entries sample_wal s' = [sample_record 1]"
proof -
  let ?s = "quiet_os\<lparr>faults := [Succeed, Fail 7]\<rparr>"
  have "content ?s (path sample_wal) = concat (map wal_record [])" by (simp add: content_def)
  then have c: "wal_clean sample_wal ?s" "wal_entries sample_wal ?s = []" using wal_cleanI [of ?s sample_wal "[]"] by simp_all
  have "entry_ok (sample_record 1)" by (simp add: entry_ok_def sample_record_def)
  then show ?thesis using Append_crash_safe [OF c(1) _ surjective_pairing] c(2) unfolding Let_def by auto
qed

text \<open>
  C23: one changed byte anywhere in a record, its length field apart, is detected by the checksum:
  \<^verbatim>\<open>ReadAll\<close> returns exactly the entries of the records before it.
\<close>

theorem ReadAll_stops_at_corruption:
  assumes "faults s = []" and "wal_open w" and "list_all entry_ok xs" and "entry_ok e"
    and "wal_record e = a @ b # c" and "b' \<noteq> b" and "length a \<notin> {20..<24}"
    and "content s (path w) = concat (map wal_record xs) @ a @ b' # c @ rest"
  shows "ReadAll w s = (Inr xs, s)"
proof -
  have "read_entries (a @ b' # c @ rest) = []"
    using read_record_corrupt [OF assms(4-7), of rest] walrec.scan_error by blast
  then have "wal_entries w s = xs"
    using walrec.scan_records [OF assms(3), of "a @ b' # c @ rest"] assms(8) by (simp add: wal_entries_def)
  then show ?thesis using ReadAll_free [OF assms(1,2)] by simp
qed

theorem ReadAll_stops_at_corruption_witness:
  "let r = wal_record (sample_record 2);
       s = quiet_os\<lparr>files := [''wal'' \<mapsto> wal_record (sample_record 1) @ (hd r + 1) # tl r]\<rparr>
   in ReadAll sample_wal s = (Inr [sample_record 1], s)"
proof -
  let ?r = "wal_record (sample_record 2)"
  let ?s = "quiet_os\<lparr>files := [''wal'' \<mapsto> wal_record (sample_record 1) @ (hd ?r + 1) # tl ?r]\<rparr>"
  have r: "?r = [] @ hd ?r # tl ?r" using length_wal_record [of "sample_record 2"] by (cases ?r) auto
  have "ReadAll sample_wal ?s = (Inr [sample_record 1], ?s)"
    by (rule ReadAll_stops_at_corruption [OF _ _ _ _ r, where b' = "hd ?r + 1" and rest = "[]"])
      (simp_all add: sample_wal_def sample_record_def entry_ok_def content_def)
  then show ?thesis by (simp add: Let_def)
qed

text \<open>
  C39: a temporary file left behind by a crash is not emptied: compaction appends to it, and its old contents
  come first in the new log.
\<close>

theorem CompactWAL_keeps_stale_temp:
  assumes "faults s = []" and "wal_open w" and "CompactWAL w ci s = (res, w', s')"
  shows "res = Inr () \<and> content s' (path w) =
     content s (temp_path (path w)) @ concat (map wal_record (filter (\<lambda>e. Index e > ci) (wal_entries w s)))"
proof -
  have r: "res = Inr ()" using CompactWAL_free [OF assms] by simp
  obtain r1 s1 where r1: "replace_compacted w ci s = (r1, s1)" and c: "content s' (path w) = content s1 (path w)"
      and ok: "res = Inr () \<longrightarrow> r1 = Inr () \<and> wal_open w'"
    by (rule CompactWAL_split [OF assms(3)])
  have "log_readable s" using assms(1) by (simp add: log_readable_def)
  then show ?thesis using r r1 ok c replace_compacted_done [of w ci s s1] by simp
qed

theorem CompactWAL_keeps_stale_temp_witness:
  "let s = quiet_os\<lparr>files := [''wal'' \<mapsto> wal_record (sample_record 7), ''wal.tmp'' \<mapsto> wal_record (sample_record 1)]\<rparr>;
       (res, w', s') = CompactWAL sample_wal 5 s
   in wal_entries sample_wal s' = [sample_record 1, sample_record 7]"
proof -
  let ?s = "quiet_os\<lparr>files := [''wal'' \<mapsto> wal_record (sample_record 7), ''wal.tmp'' \<mapsto> wal_record (sample_record 1)]\<rparr>"
  have "content ?s (path sample_wal) = concat (map wal_record [sample_record 7])" by (simp add: content_def sample_wal_def)
  then have c: "wal_entries sample_wal ?s = [sample_record 7]"
    by (rule wal_cleanI) (simp add: entry_ok_def sample_record_def)
  obtain res w' s' where h: "CompactWAL sample_wal 5 ?s = (res, w', s')" by (metis prod_cases3)
  have "content s' (path sample_wal) = concat (map wal_record [sample_record 1, sample_record 7])"
    using CompactWAL_keeps_stale_temp [OF _ _ h] unfolding c
    by (simp add: sample_wal_def temp_path_def content_def) (simp add: sample_record_def)
  then have "wal_entries sample_wal s' = [sample_record 1, sample_record 7]"
    by (rule wal_cleanI) (simp add: entry_ok_def sample_record_def)
  then show ?thesis unfolding Let_def h by simp
qed

text \<open>
  C31: \<^verbatim>\<open>ReadAll\<close> returns a sequence of entries the file starts with and changes no
  file; on a working disk it is the longest such sequence: what follows in the file does not start with a
  whole record with a matching checksum.
\<close>

theorem ReadAll_longest_prefix:
  assumes "ReadAll w s = (Inr es, s')"
  shows "(\<exists>zs. wal_entries w s = es @ zs) \<and> files s' = files s \<and> (faults s = [] \<longrightarrow>
     (\<exists>tail. content s (path w) = concat (map wal_record es) @ tail \<and> list_all entry_ok es
        \<and> (\<forall>e rest. entry_ok e \<longrightarrow> tail \<noteq> wal_record e @ rest)))"
proof (intro conjI impI)
  show "\<exists>zs. wal_entries w s = es @ zs" using assms by (rule ReadAll_prefix)
  show "files s' = files s" using ReadAll_frame(1) [of w s] assms by simp
  assume f: "faults s = []"
  have "wal_open w" using assms by (auto simp: ReadAll_def fop_def split: if_splits)
  then have es: "es = read_entries (content s (path w))" using ReadAll_free [OF f] assms unfolding wal_entries_def by (metis Inr_inject fst_conv)
  obtain tail err where t: "content s (path w) = concat (map wal_record es) @ tail" "read_record tail = Inl err" "list_all entry_ok es"
    using walrec.scan_longest [of "content s (path w)"] es by blast
  moreover have "tail \<noteq> wal_record e @ rest" if "entry_ok e" for e rest
    using t(2) walrec.dec_enc [OF that, of rest] by auto
  ultimately show "\<exists>tail. content s (path w) = concat (map wal_record es) @ tail \<and> list_all entry_ok es
        \<and> (\<forall>e rest. entry_ok e \<longrightarrow> tail \<noteq> wal_record e @ rest)" by blast
qed

theorem ReadAll_longest_prefix_witness:
  "let s = quiet_os\<lparr>files := [''wal'' \<mapsto> wal_record (sample_record 1) @ [0, 0]]\<rparr>
   in ReadAll sample_wal s = (Inr [sample_record 1], s)
      \<and> (\<exists>tail. wal_record (sample_record 1) @ [0, 0] = wal_record (sample_record 1) @ tail
           \<and> (\<forall>e rest. entry_ok e \<longrightarrow> tail \<noteq> wal_record e @ rest))"
proof -
  let ?s = "quiet_os\<lparr>files := [''wal'' \<mapsto> wal_record (sample_record 1) @ [0, 0]]\<rparr>"
  have "read_record [0, 0] = Inl ErrUnexpectedEOF" by (simp add: read_record_def readOne_def ReadFull_def)
  then have "read_entries [0, 0] = []" by (rule walrec.scan_error)
  moreover have "entry_ok (sample_record 1)" by (simp add: entry_ok_def sample_record_def)
  ultimately have "wal_entries sample_wal ?s = [sample_record 1]"
    using walrec.scan_records [of "[sample_record 1]" "[0, 0]"] by (simp add: wal_entries_def sample_wal_def content_def)
  then have r: "ReadAll sample_wal ?s = (Inr [sample_record 1], ?s)"
    using ReadAll_free [of ?s sample_wal] by (simp add: sample_wal_def)
  show ?thesis using r ReadAll_longest_prefix [OF r] by (simp add: Let_def sample_wal_def content_def)
qed

text \<open>
  C22: truncation under any fault. Whatever system call of \<^verbatim>\<open>TruncateAfter\<close> fails, the
  log afterwards is as before, and then an error is reported, or it is cut behind the first entry with the
  given index; when success is reported it is cut and synced. An error may be reported although the log was
  cut (a failing sync). On a working disk it succeeds exactly if there is such an entry, and changes nothing
  otherwise.
\<close>

theorem TruncateAfter_cuts:
  assumes clean: "wal_clean w s" and eq: "TruncateAfter w j s = (res, s')"
  shows "(wal_entries w s' = wal_entries w s \<and> res \<noteq> Inr ()
         \<or> j \<in> Index ` set (wal_entries w s) \<and> wal_entries w s' = keep_upto j (wal_entries w s)
           \<and> (res = Inr () \<longrightarrow> path w \<notin> dirty s'))
       \<and> wal_clean w s' \<and> changes_only {path w} s s'
       \<and> (faults s = [] \<and> wal_open w \<longrightarrow> (if j \<in> Index ` set (wal_entries w s) then res = Inr () else s' = s))"
proof (intro conjI impI)
  let ?es = "keep_upto j (wal_entries w s)"
  have ok: "list_all entry_ok ?es" by (rule keep_upto_ok [OF wal_entries_ok])
  note c = TruncateAfter_entries [OF assms]
  show "wal_entries w s' = wal_entries w s \<and> res \<noteq> Inr ()
         \<or> j \<in> Index ` set (wal_entries w s) \<and> wal_entries w s' = ?es \<and> (res = Inr () \<longrightarrow> path w \<notin> dirty s')"
    using c wal_cleanI(2) [OF _ ok, of s' w] by (auto simp: wal_entries_def)
  show "wal_clean w s'"
    using c wal_cleanI(1) [OF _ ok, of s' w] clean by (auto simp: wal_clean_def wal_entries_def)
  show "changes_only {path w} s s'" using TruncateAfter_changes [of w s j] eq by simp
  assume "faults s = [] \<and> wal_open w"
  then show "if j \<in> Index ` set (wal_entries w s) then res = Inr () else s' = s"
    using TruncateAfter_free [of s w j] clean eq by auto
qed

theorem TruncateAfter_cuts_witness:
  "let s = quiet_os\<lparr>files := [''wal'' \<mapsto> concat (map wal_record [sample_record 1, sample_record 2, sample_record 3])]\<rparr>
   in wal_entries sample_wal (snd (TruncateAfter sample_wal 2 s)) = [sample_record 1, sample_record 2]"
proof -
  let ?es = "[sample_record 1, sample_record 2, sample_record 3]"
  let ?s = "quiet_os\<lparr>files := [''wal'' \<mapsto> concat (map wal_record ?es)]\<rparr>"
  have "content ?s (path sample_wal) = concat (map wal_record ?es)" by (simp add: content_def sample_wal_def)
  moreover have "list_all entry_ok ?es" by (simp add: entry_ok_def sample_record_def)
  ultimately have c: "wal_clean sample_wal ?s" "wal_entries sample_wal ?s = ?es" by (rule wal_cleanI)+
  define s where "s = ?s"
  note c = c [folded s_def]
  have f: "faults s = []" "wal_open sample_wal" by (simp_all add: s_def sample_wal_def)
  have j: "2 \<in> Index ` set (wal_entries sample_wal s)" unfolding c(2) by (simp add: sample_record_def)
  have "wal_entries sample_wal (snd (TruncateAfter sample_wal 2 s)) = keep_upto 2 (wal_entries sample_wal s)"
    using TruncateAfter_cuts [OF c(1) surjective_pairing, of 2] f j by auto
  also have "\<dots> = [sample_record 1, sample_record 2]" unfolding c(2) by (simp add: sample_record_def)
  finally show ?thesis by (simp add: Let_def s_def)
qed

text \<open>
  C20: compaction under any fault, provided no temporary file was left behind. Whatever system call fails, the
  log afterwards is the old one or holds the entries above the compaction index among those that could be
  read; these are all entries if the read of the log did not fail. When \<^verbatim>\<open>CompactWAL\<close>
  reports success it is the latter and the reopened handle is usable.
\<close>

theorem CompactWAL_atomic:
  assumes "CompactWAL w ci s = (res, w', s')" and "content s (temp_path (path w)) = []"
  shows "\<exists>es zs. wal_entries w s = es @ zs \<and> (log_readable s \<longrightarrow> zs = [])
       \<and> (wal_entries w s' = wal_entries w s \<or> wal_entries w s' = filter (\<lambda>e. Index e > ci) es)
       \<and> (res = Inr () \<longrightarrow> wal_entries w' s' = filter (\<lambda>e. Index e > ci) es \<and> wal_clean w' s' \<and> wal_open w')
       \<and> changes_only {path w, temp_path (path w)} s s'"
proof -
  obtain es zs where "wal_entries w s = es @ zs" "log_readable s \<longrightarrow> zs = []"
    "wal_entries w s' = wal_entries w s \<or> wal_entries w s' = filter (\<lambda>e. Index e > ci) es"
    "res = Inr () \<longrightarrow> wal_entries w' s' = filter (\<lambda>e. Index e > ci) es \<and> wal_clean w' s' \<and> wal_open w'"
    by (rule CompactWAL_reads [OF assms])
  then show ?thesis using CompactWAL_changes [of w s ci] assms(1) by (intro exI [of _ es] exI [of _ zs]) auto
qed

theorem CompactWAL_atomic_witness:
  "let s = quiet_os\<lparr>files := [''wal'' \<mapsto> wal_record (sample_record 1)], faults := [Succeed, Succeed, Succeed, Fail 3]\<rparr>;
       (res, w', s') = CompactWAL sample_wal 0 s
   in wal_entries sample_wal s' = [sample_record 1]"
proof -
  let ?s = "quiet_os\<lparr>files := [''wal'' \<mapsto> wal_record (sample_record 1)], faults := [Succeed, Succeed, Succeed, Fail 3]\<rparr>"
  have "content ?s (path sample_wal) = concat (map wal_record [sample_record 1])" by (simp add: content_def sample_wal_def)
  then have c: "wal_entries sample_wal ?s = [sample_record 1]"
    by (rule wal_cleanI) (simp add: entry_ok_def sample_record_def)
  obtain res w' s' where h: "CompactWAL sample_wal 0 ?s = (res, w', s')" by (metis prod_cases3)
  have "log_readable ?s" "content ?s (temp_path (path sample_wal)) = []"
    by (simp_all add: log_readable_def content_def sample_wal_def temp_path_def)
  with CompactWAL_atomic [OF h] have "wal_entries sample_wal s' = [sample_record 1]"
    unfolding c by (auto simp: sample_record_def)
  then show ?thesis unfolding Let_def h by simp
qed

text \<open>
  C32: a read error during compaction is taken for the end of the log: if reading fails after
  \<^verbatim>\<open>k\<close> bytes and nothing else fails, \<^verbatim>\<open>CompactWAL\<close> reports
  success and every entry behind the first \<^verbatim>\<open>k\<close> bytes is gone from the log.
\<close>

theorem CompactWAL_loses_unread:
  assumes f: "faults s = [Succeed, Fail k]" and w: "wal_open w" and temp: "content s (temp_path (path w)) = []"
    and eq: "CompactWAL w ci s = (res, w', s')"
  shows "res = Inr () \<and> wal_entries w' s' = filter (\<lambda>e. Index e > ci) (read_entries (take k (content s (path w))))"
proof -
  let ?q = "s\<lparr>faults := []\<rparr>" and ?es = "read_entries (take k (content s (path w)))"
  have r: "ReadAll w s = (Inr ?es, ?q)" using f w by (simp add: ReadAll_def fop_def os_plain_def os_read_def next_fault_def)
  let ?t = "\<lparr>path = temp_path (path w), wal_open = True\<rparr>"
  let ?s1 = "?q\<lparr>files := (files s)(temp_path (path w) \<mapsto> [])\<rparr>"
  obtain s2 where s2: "append_survivors ?t (filter (\<lambda>e. Index e > ci) ?es) ?s1 = (Inr (), s2)"
    "faults s2 = []" "files s2 (temp_path (path w)) \<noteq> None"
    using append_survivors_free [of ?s1 ?t "filter (\<lambda>e. Index e > ci) ?es"] by auto
  have "Open (temp_path (path w)) ?q = (Inr ?t, ?s1)" using temp by (simp add: Open_def os_simps)
  with r s2 eq w have ok: "res = Inr ()"
    by (auto simp: CompactWAL_def replace_compacted_def Close_def fop_def os_simps os_rename_def)
  obtain r1 s1 where r1: "replace_compacted w ci s = (r1, s1)"
    and c: "content s' (path w) = content s1 (path w)" and d: "res = Inr () \<longrightarrow> r1 = Inr () \<and> wal_open w'" and pw: "path w' = path w"
    by (rule CompactWAL_split [OF eq])
  have "content s1 (path w) = concat (map wal_record (filter (\<lambda>e. Index e > ci) ?es))"
    using r1 d ok replace_compacted_read [of w ci s s1] r temp by auto
  moreover have "list_all entry_ok (filter (\<lambda>e. Index e > ci) ?es)"
    using walrec.scan_longest [of "take k (content s (path w))"] by (auto simp: list_all_iff)
  ultimately show ?thesis using ok c pw wal_cleanI(2) [of s' w'] by simp
qed

theorem CompactWAL_loses_unread_witness:
  "let s = quiet_os\<lparr>files := [''wal'' \<mapsto> wal_record (sample_record 7)], faults := [Succeed, Fail 0]\<rparr>;
       (res, w', s') = CompactWAL sample_wal 5 s
   in res = Inr () \<and> wal_entries sample_wal s = [sample_record 7] \<and> wal_entries w' s' = []"
proof -
  let ?s = "quiet_os\<lparr>files := [''wal'' \<mapsto> wal_record (sample_record 7)], faults := [Succeed, Fail 0]\<rparr>"
  have "content ?s (path sample_wal) = concat (map wal_record [sample_record 7])" by (simp add: content_def sample_wal_def)
  then have c: "wal_entries sample_wal ?s = [sample_record 7]"
    by (rule wal_cleanI) (simp add: entry_ok_def sample_record_def)
  obtain res w' s' where h: "CompactWAL sample_wal 5 ?s = (res, w', s')" by (metis prod_cases3)
  have "res = Inr () \<and> wal_entries w' s' = []"
    using CompactWAL_loses_unread [OF _ _ _ h, of 0] by (simp add: sample_wal_def content_def temp_path_def)
  then show ?thesis unfolding Let_def h using c by simp
qed

text \<open>
  C40: a torn record swallows what is appended after it. If a crash left a record of which the header and a
  part of the data were written, an append shorter than the missing part reports success and is synced, but
  reading the log back gives only the entries before the torn record.
\<close>

theorem torn_tail_hides_appends:
  assumes "faults s = []" and "wal_open w" and "list_all entry_ok xs"
    and "content s (path w) = concat (map wal_record xs) @ torn"
    and "entry_ok x" and "wal_record x = torn @ lost" and "24 \<le> length torn" and "length (wal_record e) < length lost"
    and "Append w e s = (res, s')"
  shows "res = Inr () \<and> path w \<notin> dirty s' \<and> ReadAll w s' = (Inr xs, s')"
proof -
  have s': "res = Inr ()" "faults s' = []" "path w \<notin> dirty s'" "content s' (path w) = content s (path w) @ wal_record e"
    using assms(9) Append_free [OF assms(1,2), of e] assms(1) by auto
  have "read_entries (torn @ wal_record e) = []"
    using read_record_swallows [OF assms(6,5,7,8)] walrec.scan_error by blast
  then have "wal_entries w s' = xs"
    using walrec.scan_records [OF assms(3), of "torn @ wal_record e"] s'(4) assms(4) by (simp add: wal_entries_def)
  then show ?thesis using s' ReadAll_free [OF s'(2) assms(2)] by simp
qed

theorem torn_tail_hides_appends_witness:
  "let x = \<lparr>Term = 1, Index = 1, Data = replicate 100 0\<rparr>;
       s = quiet_os\<lparr>files := [''wal'' \<mapsto> take 30 (wal_record x)]\<rparr>;
       (res, s') = Append sample_wal (sample_record 2) s
   in res = Inr () \<and> ReadAll sample_wal s' = (Inr [], s')"
proof -
  let ?x = "\<lparr>Term = 1, Index = 1, Data = replicate 100 0\<rparr> :: entry"
  let ?s = "quiet_os\<lparr>files := [''wal'' \<mapsto> take 30 (wal_record ?x)]\<rparr>"
  have d: "wal_record ?x = take 30 (wal_record ?x) @ drop 30 (wal_record ?x)" by simp
  have "fst (Append sample_wal (sample_record 2) ?s) = Inr () \<and> path sample_wal \<notin> dirty (snd (Append sample_wal (sample_record 2) ?s))
      \<and> ReadAll sample_wal (snd (Append sample_wal (sample_record 2) ?s)) = (Inr [], snd (Append sample_wal (sample_record 2) ?s))"
    by (rule torn_tail_hides_appends [OF _ _ _ _ _ d _ _ surjective_pairing])
      (simp_all add: sample_wal_def content_def entry_ok_def, simp_all add: sample_record_def)
  then show ?thesis unfolding Let_def case_prod_beta by blast
qed

end
