(* ===== verification/Kv.thy ===== *)
theory Kv
  imports Go_Strings Wal "HOL-Library.Multiset"
begin

text \<open>
  The key-value state machine of \<^verbatim>\<open>raft/raft.go\<close> and \<^verbatim>\<open>raft/snapshot.go\<close>: \<open>Apply\<close> parses a command
  \<^verbatim>\<open>set k=v\<close> and stores it, \<open>Get\<close> reads, \<open>Snapshot\<close> copies the contents out and \<open>Restore\<close> replaces them.
  The locale \<open>snapshot_machine\<close> is what log compaction relies on: a machine restored from a snapshot
  answers every later query like the machine the snapshot was taken of.
\<close>

record StateMachine =
  data :: "(gostring, gostring) gomap"

definition NewStateMachine :: StateMachine where
  "NewStateMachine = \<lparr>data = []\<rparr>"

definition Apply :: "StateMachine \<Rightarrow> entry \<Rightarrow> StateMachine" where
  "Apply s entry =
     (let parts = Fields (Data entry)
      in if length parts \<noteq> 2 \<or> parts ! 0 \<noteq> lit ''set'' then s
         else
           let kv = SplitN_2 (parts ! 1) 61
           in if length kv \<noteq> 2 then s
              else s\<lparr>data := AList.update (kv ! 0) (kv ! 1) (data s)\<rparr>)"

definition Get :: "StateMachine \<Rightarrow> gostring \<Rightarrow> gostring option" where
  "Get s key = map_of (data s) key"

text \<open>\<^verbatim>\<open>Snapshot()\<close>: \<^verbatim>\<open>range\<close> over the map in the order \<open>ord\<close>, storing into a new map.\<close>

definition copy_map :: "(gostring, gostring) gomap \<Rightarrow> (gostring, gostring) gomap" where
  "copy_map kvs = foldl (\<lambda>m (k, v). AList.update k v m) [] kvs"

definition SM_Snapshot ::
  "((gostring, gostring) gomap \<Rightarrow> (gostring, gostring) gomap) \<Rightarrow> StateMachine \<Rightarrow> (gostring, gostring) gomap" where
  "SM_Snapshot ord s = copy_map (ord (data s))"

definition Restore :: "StateMachine \<Rightarrow> (gostring, gostring) gomap \<Rightarrow> StateMachine" where
  "Restore s d = s\<lparr>data := d\<rparr>"

definition apply_all :: "StateMachine \<Rightarrow> entry list \<Rightarrow> StateMachine" where
  "apply_all s es = foldl Apply s es"

lemma apply_all_simps [simp]:
  "apply_all s [] = s"
  "apply_all s (e # es) = apply_all (Apply s e) es"
  "apply_all s (es @ fs) = apply_all (apply_all s es) fs"
  by (simp_all add: apply_all_def)

subsection \<open>Invariant: each key once\<close>

definition sm_wf :: "StateMachine \<Rightarrow> bool" where
  "sm_wf s \<longleftrightarrow> distinct (map fst (data s))"

lemma sm_wf_new [simp]: "sm_wf NewStateMachine"
  by (simp add: sm_wf_def NewStateMachine_def)

lemma sm_wf_Apply [simp]: "sm_wf s \<Longrightarrow> sm_wf (Apply s e)"
  by (simp add: sm_wf_def Apply_def Let_def distinct_update)

lemma sm_wf_apply_all: "sm_wf s \<Longrightarrow> sm_wf (apply_all s es)"
  by (induction es arbitrary: s) simp_all

subsection \<open>Range orders\<close>

text \<open>A \<^verbatim>\<open>range\<close> visits every entry once, in some order.\<close>

definition range_ok :: "((gostring, gostring) gomap \<Rightarrow> (gostring, gostring) gomap) \<Rightarrow> bool" where
  "range_ok ord \<longleftrightarrow> (\<forall>m. mset (ord m) = mset m)"

lemma range_distinct:
  assumes "range_ok ord" and "distinct (map fst m)"
  shows "distinct (map fst (ord m))" and "map_of (ord m) = map_of m"
    and "length (ord m) = length m" and "set (ord m) = set m"
proof -
  have ms: "mset (ord m) = mset m" using assms(1) by (simp add: range_ok_def)
  then have "mset (map fst (ord m)) = mset (map fst m)" by simp
  then show d: "distinct (map fst (ord m))" using assms(2) by (metis mset_eq_imp_distinct_iff)
  show st: "set (ord m) = set m" using ms by (rule mset_eq_setD)
  show "map_of (ord m) = map_of m" using d assms(2) st by (simp add: map_of_inject_set)
  show "length (ord m) = length m" using ms by (rule mset_eq_length)
qed

lemma update_new: "k \<notin> fst ` set m \<Longrightarrow> AList.update k v m = m @ [(k, v)]"
  by (induction m) auto

lemma copy_map_from:
  "distinct (map fst (m @ kvs)) \<Longrightarrow> foldl (\<lambda>m (k, v). AList.update k v m) m kvs = m @ kvs"
proof (induction kvs arbitrary: m)
  case (Cons kv kvs)
  obtain k v where kv: "kv = (k, v)" by fastforce
  with Cons.prems have "AList.update k v m = m @ [(k, v)]" by (intro update_new) auto
  with Cons.IH [of "m @ [(k, v)]"] Cons.prems kv show ?case by simp
qed simp

lemma copy_map_distinct: "distinct (map fst kvs) \<Longrightarrow> copy_map kvs = kvs"
  using copy_map_from [of "[]" kvs] by (simp add: copy_map_def)

lemma copy_map_wf: "distinct (map fst (copy_map kvs))"
proof -
  have "distinct (map fst m) \<Longrightarrow> distinct (map fst (foldl (\<lambda>m (k, v). AList.update k v m) m kvs))" for m
    by (induction kvs arbitrary: m) (auto simp: distinct_update split: prod.splits)
  then show ?thesis by (simp add: copy_map_def)
qed

subsection \<open>The abstract machine\<close>

text \<open>The command in an entry, if it holds one; the machine is a map updated by commands.\<close>

definition command :: "entry \<Rightarrow> (gostring \<times> gostring) option" where
  "command e =
     (case Fields (Data e) of
        [verb, arg] \<Rightarrow> if verb = lit ''set'' \<and> 61 \<in> set arg
                       then Some (takeWhile (\<lambda>b. b \<noteq> 61) arg, tl (dropWhile (\<lambda>b. b \<noteq> 61) arg)) else None
      | _ \<Rightarrow> None)"

lemma length_2_iff: "length xs = 2 \<longleftrightarrow> (\<exists>a b. xs = [a, b])"
  by (auto simp: length_Suc_conv eval_nat_numeral)

lemma Apply_command:
  "Apply s e = (case command e of None \<Rightarrow> s | Some (k, v) \<Rightarrow> s\<lparr>data := AList.update k v (data s)\<rparr>)"
proof (cases "length (Fields (Data e)) = 2")
  case True
  then show ?thesis by (auto simp: length_2_iff Apply_def command_def SplitN_2_def Let_def)
next
  case False
  then have "command e = None" by (auto simp: command_def split: list.splits)
  with False show ?thesis by (simp add: Apply_def Let_def)
qed

lemma Get_Apply:
  "Get (Apply s e) = (case command e of None \<Rightarrow> Get s | Some (k, v) \<Rightarrow> (Get s)(k \<mapsto> v))"
  by (auto simp: Apply_command Get_def fun_eq_iff split: option.splits)

locale snapshot_machine =
  fixes step :: "'s \<Rightarrow> 'e \<Rightarrow> 's"
    and query :: "'s \<Rightarrow> 'k \<Rightarrow> 'v option"
    and snap :: "'o \<Rightarrow> 's \<Rightarrow> 'd"
    and restore :: "'s \<Rightarrow> 'd \<Rightarrow> 's"
    and wf :: "'s \<Rightarrow> bool"
    and order_ok :: "'o \<Rightarrow> bool"
  assumes step_cong: "query a = query b \<Longrightarrow> query (step a e) = query (step b e)"
    and restore_snap: "wf a \<Longrightarrow> order_ok ord \<Longrightarrow> query (restore b (snap ord a)) = query a"
    and wf_step: "wf a \<Longrightarrow> wf (step a e)"
    and wf_restore: "wf a \<Longrightarrow> order_ok ord \<Longrightarrow> wf (restore b (snap ord a))"
begin

lemma run_cong: "query a = query b \<Longrightarrow> query (foldl step a es) = query (foldl step b es)"
proof (induction es arbitrary: a b)
  case (Cons e es)
  from Cons.IH [OF step_cong [OF Cons.prems]] show ?case by simp
qed simp

lemma wf_run: "wf a \<Longrightarrow> wf (foldl step a es)"
  by (induction es arbitrary: a) (auto dest: wf_step)

lemma snapshot_then_replay:
  assumes "wf a" and "order_ok ord"
  shows "query (foldl step (restore b (snap ord (foldl step a xs))) ys) = query (foldl step a (xs @ ys))"
proof -
  have "query (restore b (snap ord (foldl step a xs))) = query (foldl step a xs)"
    using assms by (intro restore_snap wf_run)
  from run_cong [OF this] show ?thesis by simp
qed

end

interpretation kvm: snapshot_machine Apply Get SM_Snapshot Restore sm_wf range_ok
proof
  fix a b :: StateMachine and e :: entry
  assume "Get a = Get b"
  then show "Get (Apply a e) = Get (Apply b e)" by (simp add: Get_Apply split: option.splits)
next
  fix a b :: StateMachine and ord
  assume "sm_wf a" and "range_ok ord"
  then show "Get (Restore b (SM_Snapshot ord a)) = Get a"
    by (simp add: Get_def Restore_def SM_Snapshot_def sm_wf_def range_distinct copy_map_distinct fun_eq_iff)
next
  fix a b :: StateMachine and ord
  show "sm_wf (Restore b (SM_Snapshot ord a))"
    by (simp add: sm_wf_def Restore_def SM_Snapshot_def copy_map_wf)
qed simp

subsection \<open>Commands\<close>

text \<open>The command line \<^verbatim>\<open>set k=v\<close> as \<^verbatim>\<open>HandleSet\<close> builds it.\<close>

definition set_command :: "gostring \<Rightarrow> gostring \<Rightarrow> bytes" where
  "set_command k v = lit ''set '' @ k @ lit ''='' @ v"

lemma lit_simps [simp]: "lit [] = []" "lit (c # cs) = of_char c # lit cs"
  by (simp_all add: lit_def)

lemma command_set:
  assumes "no_space k" and "no_space v" and "61 \<notin> set k"
  shows "command \<lparr>Term = t, Index = i, Data = set_command k v\<rparr> = Some (k, v)"
proof -
  have ns: "no_space (k @ 61 # v)"
    using assms(1,2) no_space_append_ascii [of 61 k v] no_space_append_ascii [of 61 "[]" v]
    by (cases v rule: space_width.cases; cases "[61::byte]" rule: space_width.cases)
      (auto simp: space1_def space2_def space3_def no_space_append_ascii)
  have set: "no_space (lit ''set'')"
    by (simp add: space1_def space2_def space3_def)
  have "Fields (lit ''set'' @ 32 # (k @ 61 # v)) = [lit ''set'', k @ 61 # v]"
    using ns set by (intro Fields_two) simp_all
  then show ?thesis
    using assms(3) by (simp add: command_def set_command_def takeWhile_append dropWhile_append)
qed

lemma command_noop: "command \<lparr>Term = t, Index = i, Data = lit ''no-op''\<rparr> = None"
  by (simp add: command_def Fields_def space1_def space2_def space3_def emit_def)

subsection \<open>Properties\<close>

text \<open>
  C25: taking a snapshot of a store, restoring it elsewhere and applying the later entries gives the same
  key-value contents as applying all entries, whatever the order in which the map is iterated.
\<close>

theorem snapshot_then_replay_same:
  assumes "sm_wf a" and "range_ok ord"
  shows "Get (apply_all (Restore b (SM_Snapshot ord (apply_all a xs))) ys) = Get (apply_all a (xs @ ys))"
  using kvm.snapshot_then_replay [OF assms] by (simp add: apply_all_def)

theorem snapshot_then_replay_same_witness:
  "let x = \<lparr>Term = 1, Index = 1, Data = lit ''set x=1''\<rparr>; y = \<lparr>Term = 1, Index = 2, Data = lit ''set y=2''\<rparr>
   in Get (apply_all (Restore NewStateMachine (SM_Snapshot rev (apply_all NewStateMachine [x]))) [y]) =
      Get (apply_all NewStateMachine ([x] @ [y]))"
  unfolding Let_def
  by (rule snapshot_then_replay_same) (simp_all add: range_ok_def)

text \<open>The specification of the store: a map updated by the commands of the entries.\<close>

definition map_command :: "(gostring \<rightharpoonup> gostring) \<Rightarrow> entry \<Rightarrow> (gostring \<rightharpoonup> gostring)" where
  "map_command m e = (case command e of None \<Rightarrow> m | Some (k, v) \<Rightarrow> m(k \<mapsto> v))"

text \<open>
  C24: the store refines a map. Reading after applying entries is looking up in the map updated by their
  commands, one after the other, and the command \<^verbatim>\<open>set k=v\<close> updates
  \<^verbatim>\<open>k\<close>, for keys and values without spaces and keys without
  \<^verbatim>\<open>=\<close>.
\<close>

theorem store_refines_map:
  assumes "no_space k" and "no_space v" and "61 \<notin> set k"
  shows "Get (apply_all sm es) = foldl map_command (Get sm) es
       \<and> map_command m \<lparr>Term = t, Index = i, Data = set_command k v\<rparr> = m(k \<mapsto> v)"
proof -
  have "Get (apply_all sm es) = foldl map_command (Get sm) es"
    by (induction es arbitrary: sm) (simp_all add: apply_all_def Get_Apply map_command_def)
  then show ?thesis using command_set [OF assms] by (simp add: map_command_def)
qed

theorem store_refines_map_witness:
  "Get (apply_all NewStateMachine [\<lparr>Term = 1, Index = 1, Data = set_command (lit ''x'') (lit ''1'')\<rparr>]) (lit ''x'') = Some (lit ''1'')"
proof -
  have "no_space (lit ''x'')" "no_space (lit ''1'')" "61 \<notin> set (lit ''x'')"
    by (simp_all add: space1_def space2_def space3_def)
  note r = store_refines_map [OF this]
  show ?thesis unfolding conjunct1 [OF r] using conjunct2 [OF r] by simp
qed

end
