(* ===== verification/Snapshots.thy ===== *)
theory Snapshots
  imports Kv
begin

text \<open>
  Snapshots, \<^verbatim>\<open>raft/snapshot.go\<close>: the binary format (\<open>Encode\<close>, \<open>DecodeSnapshot\<close>) and the snapshot file
  (\<open>SaveSnapshot\<close>, \<open>LoadSnapshot\<close>).
\<close>

record Snapshot =
  LastIncludedIndex :: u64
  LastIncludedTerm :: u64
  snap_Data :: "(gostring, gostring) gomap"

subsection \<open>Format\<close>

definition put_kv :: "gostring \<times> gostring \<Rightarrow> bytes" where
  "put_kv kv =
     PutUint32 (of_nat (length (fst kv))) @ fst kv @ PutUint32 (of_nat (length (snd kv))) @ snd kv"

text \<open>\<^verbatim>\<open>Encode\<close>; writing to a \<^verbatim>\<open>bytes.Buffer\<close> never fails. \<open>ord\<close> is the order of the \<^verbatim>\<open>range\<close> over the map.\<close>

definition Encode ::
  "((gostring, gostring) gomap \<Rightarrow> (gostring, gostring) gomap) \<Rightarrow> Snapshot \<Rightarrow> go_error + bytes" where
  "Encode ord s =
     Inr (PutUint64 (LastIncludedIndex s) @ PutUint64 (LastIncludedTerm s) @
          PutUint32 (of_nat (length (snap_Data s))) @ concat (map put_kv (ord (snap_Data s))))"

definition read_kv :: "(gostring \<times> gostring) reader" where
  "read_kv reader =
     sbind (wrap_err ''failed to read key length: '' (read_u32 reader)) (\<lambda>(keyLen, reader).
     sbind (wrap_err ''failed to read key: '' (ReadFull (unat keyLen) reader)) (\<lambda>(key, reader).
     sbind (wrap_err ''failed to read value length: '' (read_u32 reader)) (\<lambda>(valLen, reader).
     sbind (wrap_err ''failed to read value: '' (ReadFull (unat valLen) reader)) (\<lambda>(val, reader).
       Inr ((key, val), reader)))))"

definition DecodeSnapshot :: "bytes \<Rightarrow> go_error + Snapshot" where
  "DecodeSnapshot bs =
     sbind (read_u64 bs) (\<lambda>(index, reader).
     sbind (read_u64 reader) (\<lambda>(trm, reader).
     sbind (read_u32 reader) (\<lambda>(count, reader).
     sbind (read_n read_kv (unat count) reader) (\<lambda>(kvs, reader).
       Inr \<lparr>LastIncludedIndex = index, LastIncludedTerm = trm, snap_Data = copy_map kvs\<rparr>))))"

subsection \<open>The snapshot file\<close>

text \<open>\<^verbatim>\<open>defer f.Close()\<close>: the file is closed on every way out, the error of the close is dropped.\<close>

definition defer_close :: "(go_error + 'a) \<times> os \<Rightarrow> (go_error + 'a) \<times> os" where
  "defer_close m = (fst m, snd (os_plain (snd m)))"

definition SaveSnapshot :: "string \<Rightarrow> Snapshot \<Rightarrow> unit io" where
  "SaveSnapshot p snap s =
     (case Encode (range_order s) snap of
        Inl err \<Rightarrow> (Inl (Wrap ''failed to encode : '' err), s)
      | Inr encoded \<Rightarrow>
          obind (owrap ''failed to open snapshot file :'' (os_open_trunc p s)) (\<lambda>_ s.
            defer_close (
              obind (owrap ''failed to write snapshot : '' (os_write p encoded s)) (\<lambda>_ s.
              owrap ''failed to fsync snapshot : '' (os_sync p s)))))"

text \<open>\<^verbatim>\<open>LoadSnapshot\<close>: no file is no error and no snapshot.\<close>

definition LoadSnapshot :: "string \<Rightarrow> Snapshot option io" where
  "LoadSnapshot p s =
     (case os_ReadFile p s of
        (Inl err, s) \<Rightarrow>
          if err = ErrNotExist then (Inr None, s)
          else (Inl (Wrap ''failed to read snapshot file :'' err), s)
      | (Inr bs, s) \<Rightarrow>
          (case DecodeSnapshot bs of
             Inl err \<Rightarrow> (Inl (Wrap ''failed to decode snapshot : '' err), s)
           | Inr snap \<Rightarrow> (Inr (Some snap), s)))"

subsection \<open>Round trip\<close>

definition kv_ok :: "gostring \<times> gostring \<Rightarrow> bool" where
  "kv_ok kv \<longleftrightarrow> length (fst kv) < 2 ^ 32 \<and> length (snd kv) < 2 ^ 32"

definition snap_ok :: "Snapshot \<Rightarrow> bool" where
  "snap_ok s \<longleftrightarrow> distinct (map fst (snap_Data s)) \<and> list_all kv_ok (snap_Data s) \<and> length (snap_Data s) < 2 ^ 32"

interpretation kvc: exact_codec put_kv read_kv kv_ok
proof
  fix x rest assume "kv_ok x"
  then show "read_kv (put_kv x @ rest) = Inr (x, rest)"
    by (simp add: kv_ok_def read_kv_def put_kv_def codec_simps)
next
  fix bs x rest assume "read_kv bs = Inr (x, rest)"
  then obtain kl vl where "bs = PutUint32 kl @ fst x @ PutUint32 vl @ snd x @ rest"
    and "length (fst x) = unat kl" and "length (snd x) = unat vl"
    by (auto simp: read_kv_def read_u32_Inr_iff ReadFull_Inr_iff)
  then show "kv_ok x \<and> bs = put_kv x @ rest"
    using unsigned_less [of kl] unsigned_less [of vl] by (simp add: kv_ok_def put_kv_def)
qed

text \<open>The bytes of a snapshot for a given order of its entries, and the reader of the same format.\<close>

type_synonym snap_parts = "u64 \<times> u64 \<times> (gostring \<times> gostring) list"

definition parts_ok :: "snap_parts \<Rightarrow> bool" where
  "parts_ok = (\<lambda>(i, t, kvs). list_all kv_ok kvs \<and> length kvs < 2 ^ 32)"

definition put_snapshot :: "snap_parts \<Rightarrow> bytes" where
  "put_snapshot = (\<lambda>(i, t, kvs). PutUint64 i @ PutUint64 t @ PutUint32 (of_nat (length kvs)) @ concat (map put_kv kvs))"

definition read_snapshot :: "snap_parts reader" where
  "read_snapshot bs =
     sbind (read_u64 bs) (\<lambda>(i, bs). sbind (read_u64 bs) (\<lambda>(t, bs). sbind (read_u32 bs) (\<lambda>(n, bs).
     sbind (read_n read_kv (unat n) bs) (\<lambda>(kvs, bs). Inr ((i, t, kvs), bs)))))"

lemma read_n_kv_exact:
  "read_n read_kv n bs = Inr (kvs, rest) \<Longrightarrow>
     length kvs = n \<and> list_all kv_ok kvs \<and> bs = concat (map put_kv kvs) @ rest"
  by (induction n arbitrary: bs kvs) (auto dest!: kvc.dec_exact)

interpretation snapc: exact_codec put_snapshot read_snapshot parts_ok
proof
  fix x rest assume "parts_ok x"
  then show "read_snapshot (put_snapshot x @ rest) = Inr (x, rest)"
    by (auto simp: parts_ok_def read_snapshot_def put_snapshot_def codec_simps kvc.read_n_concat)
next
  fix bs x rest assume "read_snapshot bs = Inr (x, rest)"
  then obtain n where "unat n = length (snd (snd x))" "list_all kv_ok (snd (snd x))"
    "bs = PutUint64 (fst x) @ PutUint64 (fst (snd x)) @ PutUint32 n @ concat (map put_kv (snd (snd x))) @ rest"
    by (auto simp: read_snapshot_def read_u64_Inr_iff read_u32_Inr_iff dest!: read_n_kv_exact)
  then show "parts_ok x \<and> bs = put_snapshot x @ rest"
    using unsigned_less [of n] by (auto simp: parts_ok_def put_snapshot_def case_prod_beta simp flip: \<open>unat n = _\<close>)
qed

lemma DecodeSnapshot_read:
  "DecodeSnapshot bs = sbind (read_snapshot bs) (\<lambda>((i, t, kvs), rest).
     Inr \<lparr>LastIncludedIndex = i, LastIncludedTerm = t, snap_Data = copy_map kvs\<rparr>)"
  by (simp add: DecodeSnapshot_def read_snapshot_def sbind_assoc split_def)

lemma Encode_put:
  "length (ord (snap_Data s)) = length (snap_Data s) \<Longrightarrow>
     Encode ord s = Inr (put_snapshot (LastIncludedIndex s, LastIncludedTerm s, ord (snap_Data s)))"
  by (simp add: Encode_def put_snapshot_def)

lemma DecodeSnapshot_Encode:
  assumes "snap_ok s" and "range_ok ord" and "Encode ord s = Inr bs"
  shows "DecodeSnapshot bs = Inr (s\<lparr>snap_Data := ord (snap_Data s)\<rparr>)"
proof -
  let ?kvs = "ord (snap_Data s)"
  have d: "distinct (map fst ?kvs)" "length ?kvs = length (snap_Data s)" "set ?kvs = set (snap_Data s)"
    using assms(1,2) range_distinct [of ord "snap_Data s"] by (auto simp: snap_ok_def)
  let ?x = "(LastIncludedIndex s, LastIncludedTerm s, ?kvs)"
  have "parts_ok ?x"
    using assms(1) d by (simp add: parts_ok_def snap_ok_def list_all_iff)
  then have "read_snapshot (put_snapshot ?x @ []) = Inr (?x, [])" by (rule snapc.dec_enc)
  moreover have "bs = put_snapshot ?x" using assms(3) d Encode_put [of ord s] by simp
  ultimately show ?thesis
    using d by (simp add: DecodeSnapshot_read copy_map_distinct)
qed

text \<open>A snapshot that was only partly written is not decodable.\<close>

lemma DecodeSnapshot_torn:
  assumes "snap_ok s" and "range_ok ord" and "Encode ord s = Inr (p @ q)" and "q \<noteq> []"
  shows "\<exists>e. DecodeSnapshot p = Inl e"
proof -
  let ?x = "(LastIncludedIndex s, LastIncludedTerm s, ord (snap_Data s))"
  have d: "length (ord (snap_Data s)) = length (snap_Data s)" "set (ord (snap_Data s)) = set (snap_Data s)"
    using assms(1,2) range_distinct [of ord "snap_Data s"] by (auto simp: snap_ok_def)
  then have "parts_ok ?x"
    using assms(1) by (simp add: parts_ok_def snap_ok_def list_all_iff)
  moreover have "put_snapshot ?x = p @ q" using assms(3) d Encode_put [of ord s] by simp
  ultimately obtain e where "read_snapshot p = Inl e"
    using assms(4) snapc.dec_torn by blast
  then show ?thesis by (simp add: DecodeSnapshot_read)
qed

subsection \<open>Saving and loading\<close>

lemma changes_only_defer_close:
  "changes_only Q s (snd m) \<Longrightarrow> changes_only Q s (snd (defer_close m))"
  by (auto simp: defer_close_def intro: changes_only_trans)

lemma SaveSnapshot_changes: "changes_only {p} s (snd (SaveSnapshot p snap s))"
  by (auto simp: SaveSnapshot_def Encode_def intro!: changes_only_obind changes_only_defer_close)

lemma SaveSnapshot_free:
  assumes "faults s = []"
  shows "SaveSnapshot p snap s = (Inr (), s\<lparr>files := (files s)(p \<mapsto> projr (Encode (range_order s) snap)),
                                         dirty := dirty s - {p}\<rparr>)"
  using assms by (simp add: SaveSnapshot_def Encode_def defer_close_def os_simps insert_Diff_if)

lemma LoadSnapshot_free:
  assumes "faults s = []"
  shows "files s p = None \<Longrightarrow> LoadSnapshot p s = (Inr None, s)"
    and "files s p = Some bs \<Longrightarrow> DecodeSnapshot bs = Inr snap \<Longrightarrow> LoadSnapshot p s = (Inr (Some snap), s)"
  using assms by (simp_all add: LoadSnapshot_def os_simps)

lemma LoadSnapshot_changes: "changes_only Q s (snd (LoadSnapshot p s))"
  using changes_only_calls(9) [of Q s p]
  by (cases "os_ReadFile p s") (auto simp: LoadSnapshot_def split: sum.splits)

subsection \<open>Properties\<close>

definition sample_snapshot :: Snapshot where
  "sample_snapshot = \<lparr>LastIncludedIndex = 3, LastIncludedTerm = 1, snap_Data = [(lit ''x'', lit ''1'')]\<rparr>"

text \<open>
  C26: a snapshot written by \<^verbatim>\<open>SaveSnapshot\<close> on a working disk is synced and read back
  by \<^verbatim>\<open>LoadSnapshot\<close> with the same index, term and key-value contents, and no other
  file is touched.
\<close>

theorem snapshot_file_roundtrip:
  assumes "faults s = []" and "snap_ok snap" and "range_ok (range_order s)"
  shows "\<exists>s' kvs. SaveSnapshot p snap s = (Inr (), s') \<and> p \<notin> dirty s' \<and> changes_only {p} s s'
       \<and> LoadSnapshot p s' = (Inr (Some (snap\<lparr>snap_Data := kvs\<rparr>)), s') \<and> map_of kvs = map_of (snap_Data snap)"
proof -
  let ?bs = "projr (Encode (range_order s) snap)" and ?kvs = "range_order s (snap_Data snap)"
  let ?s' = "s\<lparr>files := (files s)(p \<mapsto> ?bs), dirty := dirty s - {p}\<rparr>"
  have enc: "Encode (range_order s) snap = Inr ?bs" by (simp add: Encode_def)
  have "LoadSnapshot p ?s' = (Inr (Some (snap\<lparr>snap_Data := ?kvs\<rparr>)), ?s')"
    using assms(1) DecodeSnapshot_Encode [OF assms(2,3) enc] by (intro LoadSnapshot_free(2)) simp_all
  moreover have "map_of ?kvs = map_of (snap_Data snap)"
    using assms(2,3) range_distinct(2) by (simp add: snap_ok_def)
  moreover have "changes_only {p} s ?s'" by (simp add: changes_only_def)
  ultimately show ?thesis using SaveSnapshot_free [OF assms(1), of p snap] by fastforce
qed

theorem snapshot_file_roundtrip_witness:
  "\<exists>s' kvs. SaveSnapshot ''f'' sample_snapshot quiet_os = (Inr (), s')
     \<and> LoadSnapshot ''f'' s' = (Inr (Some (sample_snapshot\<lparr>snap_Data := kvs\<rparr>)), s')"
proof -
  have "snap_ok sample_snapshot" "range_ok (range_order quiet_os)" "faults quiet_os = []"
    by (simp_all add: snap_ok_def sample_snapshot_def kv_ok_def range_ok_def)
  then show ?thesis using snapshot_file_roundtrip [of quiet_os sample_snapshot "''f''"] by blast
qed

end
