(* ===== verification/Rpc.thy ===== *)
theory Rpc
  imports Wal
begin

text \<open>
  The remote procedure calls of \<^verbatim>\<open>rpc/rpc.go\<close>: argument and reply structures and their wire format.
  Writing to a \<^verbatim>\<open>bytes.Buffer\<close> cannot fail, so the encoders always return \<open>Inr\<close>; the decoders return the
  error of the first read that fails and ignore bytes behind the value.
\<close>

subsection \<open>RequestVote\<close>

record RequestVoteArgs =
  rva_Term :: u64
  rva_CandidateID :: u64
  rva_LastLogIndex :: u64
  rva_LastLogTerm :: u64

definition EncodeRequestVoteArgs :: "RequestVoteArgs \<Rightarrow> go_error + bytes" where
  "EncodeRequestVoteArgs args =
     Inr (PutUint64 (rva_Term args) @ PutUint64 (rva_CandidateID args) @
          PutUint64 (rva_LastLogIndex args) @ PutUint64 (rva_LastLogTerm args))"

text \<open>\<^verbatim>\<open>binary.Read\<close> of a structure reads all its bytes with one \<^verbatim>\<open>io.ReadFull\<close>.\<close>

definition DecodeRequestVoteArgs :: "bytes \<Rightarrow> go_error + RequestVoteArgs" where
  "DecodeRequestVoteArgs bs =
     sbind (ReadFull 32 bs) (\<lambda>(b, _).
       Inr \<lparr>rva_Term = Uint64 b, rva_CandidateID = Uint64 (drop 8 b),
            rva_LastLogIndex = Uint64 (drop 16 b), rva_LastLogTerm = Uint64 (drop 24 b)\<rparr>)"

record RequestVoteReply =
  rvr_Term :: u64
  rvr_VoteGranted :: bool

definition EncodeRequestVoteReply :: "RequestVoteReply \<Rightarrow> go_error + bytes" where
  "EncodeRequestVoteReply reply = Inr (PutUint64 (rvr_Term reply) @ put_bool (rvr_VoteGranted reply))"

definition DecodeRequestVoteReply :: "bytes \<Rightarrow> go_error + RequestVoteReply" where
  "DecodeRequestVoteReply bs =
     sbind (ReadFull 9 bs) (\<lambda>(b, _). Inr \<lparr>rvr_Term = Uint64 b, rvr_VoteGranted = (b ! 8 \<noteq> 0)\<rparr>)"

subsection \<open>AppendEntries\<close>

record AppendEntriesArgs =
  aea_Term :: u64
  aea_LeaderID :: u64
  aea_PrevLogIndex :: u64
  aea_PrevLogTerm :: u64
  aea_Entries :: "entry list"
  aea_LeaderCommit :: u64

record AppendEntriesReply =
  aer_Term :: u64
  aer_Success :: bool
  aer_ConflictTerm :: u64
  aer_ConflictIndex :: u64

definition put_entry :: "entry \<Rightarrow> bytes" where
  "put_entry e = (let encoded = EncodeEntry e in PutUint32 (of_nat (length encoded)) @ encoded)"

definition EncodeAppendEntriesArgs :: "AppendEntriesArgs \<Rightarrow> go_error + bytes" where
  "EncodeAppendEntriesArgs args =
     Inr (PutUint64 (aea_Term args) @ PutUint64 (aea_LeaderID args) @
          PutUint64 (aea_PrevLogIndex args) @ PutUint64 (aea_PrevLogTerm args) @
          PutUint64 (aea_LeaderCommit args) @
          PutUint32 (of_nat (length (aea_Entries args))) @ concat (map put_entry (aea_Entries args)))"

text \<open>One turn of the loop over the entries; \<^verbatim>\<open>reader.Read\<close> may fill the buffer only partly.\<close>

definition read_entry :: "bytes \<Rightarrow> failure + entry \<times> bytes" where
  "read_entry reader =
     sbind (may_panic (read_u32 reader)) (\<lambda>(entryLen, reader).
     sbind (may_panic (Reader_Read (unat entryLen) reader)) (\<lambda>(entryBuf, reader).
     sbind (DecodeEntry entryBuf) (\<lambda>entry. Inr (entry, reader))))"

definition DecodeAppendEntriesArgs :: "bytes \<Rightarrow> failure + AppendEntriesArgs" where
  "DecodeAppendEntriesArgs bs =
     sbind (may_panic (read_u64 bs)) (\<lambda>(trm, reader).
     sbind (may_panic (read_u64 reader)) (\<lambda>(leader, reader).
     sbind (may_panic (read_u64 reader)) (\<lambda>(prevIndex, reader).
     sbind (may_panic (read_u64 reader)) (\<lambda>(prevTerm, reader).
     sbind (may_panic (read_u64 reader)) (\<lambda>(commit, reader).
     sbind (may_panic (read_u32 reader)) (\<lambda>(entryCount, reader).
     sbind (read_n read_entry (unat entryCount) reader) (\<lambda>(entries, reader).
       Inr \<lparr>aea_Term = trm, aea_LeaderID = leader, aea_PrevLogIndex = prevIndex,
            aea_PrevLogTerm = prevTerm, aea_Entries = entries, aea_LeaderCommit = commit\<rparr>)))))))"

definition EncodeAppendEntriesReply :: "AppendEntriesReply \<Rightarrow> go_error + bytes" where
  "EncodeAppendEntriesReply reply =
     Inr (PutUint64 (aer_Term reply) @ put_bool (aer_Success reply) @
          PutUint64 (aer_ConflictTerm reply) @ PutUint64 (aer_ConflictIndex reply))"

definition DecodeAppendEntriesReply :: "bytes \<Rightarrow> go_error + AppendEntriesReply" where
  "DecodeAppendEntriesReply bs =
     sbind (ReadFull 25 bs) (\<lambda>(b, _).
       Inr \<lparr>aer_Term = Uint64 b, aer_Success = (b ! 8 \<noteq> 0),
            aer_ConflictTerm = Uint64 (drop 9 b), aer_ConflictIndex = Uint64 (drop 17 b)\<rparr>)"

subsection \<open>InstallSnapshot\<close>

record InstallSnapshotArgs =
  isa_Term :: u64
  isa_LeaderID :: u64
  isa_LastIncludedIndex :: u64
  isa_LastIncludedTerm :: u64
  isa_Data :: bytes

record InstallSnapshotReply =
  isr_Term :: u64

definition EncodeInstallSnapshotArgs :: "InstallSnapshotArgs \<Rightarrow> go_error + bytes" where
  "EncodeInstallSnapshotArgs args =
     Inr (PutUint64 (isa_Term args) @ PutUint64 (isa_LeaderID args) @
          PutUint64 (isa_LastIncludedIndex args) @ PutUint64 (isa_LastIncludedTerm args) @
          PutUint32 (of_nat (length (isa_Data args))) @ isa_Data args)"

definition DecodeInstallSnapshotArgs :: "bytes \<Rightarrow> go_error + InstallSnapshotArgs" where
  "DecodeInstallSnapshotArgs bs =
     sbind (read_u64 bs) (\<lambda>(trm, reader).
     sbind (read_u64 reader) (\<lambda>(leader, reader).
     sbind (read_u64 reader) (\<lambda>(index, reader).
     sbind (read_u64 reader) (\<lambda>(lastTerm, reader).
     sbind (read_u32 reader) (\<lambda>(dataLen, reader).
     sbind (ReadFull (unat dataLen) reader) (\<lambda>(dataBytes, reader).
       Inr \<lparr>isa_Term = trm, isa_LeaderID = leader, isa_LastIncludedIndex = index,
            isa_LastIncludedTerm = lastTerm, isa_Data = dataBytes\<rparr>))))))"

definition EncodeInstallSnapshotReply :: "InstallSnapshotReply \<Rightarrow> go_error + bytes" where
  "EncodeInstallSnapshotReply reply = Inr (PutUint64 (isr_Term reply))"

definition DecodeInstallSnapshotReply :: "bytes \<Rightarrow> go_error + InstallSnapshotReply" where
  "DecodeInstallSnapshotReply bs = sbind (ReadFull 8 bs) (\<lambda>(b, _). Inr \<lparr>isr_Term = Uint64 b\<rparr>)"

subsection \<open>Round trips\<close>

lemma Uint64_append: "length b = 8 \<Longrightarrow> Uint64 (b @ rest) = Uint64 b"
  by (simp add: Uint64_def)

lemma DecodeRequestVoteArgs_Encode:
  "EncodeRequestVoteArgs args = Inr bs \<Longrightarrow> DecodeRequestVoteArgs bs = Inr args"
  by (auto simp: EncodeRequestVoteArgs_def DecodeRequestVoteArgs_def ReadFull_def Uint64_append)

lemma DecodeRequestVoteReply_Encode:
  "EncodeRequestVoteReply reply = Inr bs \<Longrightarrow> DecodeRequestVoteReply bs = Inr reply"
  by (auto simp: EncodeRequestVoteReply_def DecodeRequestVoteReply_def ReadFull_def Uint64_append
      put_bool_def nth_append)

lemma DecodeAppendEntriesReply_Encode:
  "EncodeAppendEntriesReply reply = Inr bs \<Longrightarrow> DecodeAppendEntriesReply bs = Inr reply"
  by (auto simp: EncodeAppendEntriesReply_def DecodeAppendEntriesReply_def ReadFull_def Uint64_append
      put_bool_def nth_append)

lemma DecodeInstallSnapshotReply_Encode:
  "EncodeInstallSnapshotReply reply = Inr bs \<Longrightarrow> DecodeInstallSnapshotReply bs = Inr reply"
  by (auto simp: EncodeInstallSnapshotReply_def DecodeInstallSnapshotReply_def ReadFull_def)

lemma DecodeInstallSnapshotArgs_Encode:
  "length (isa_Data args) < 2 ^ 32 \<Longrightarrow> EncodeInstallSnapshotArgs args = Inr bs \<Longrightarrow>
     DecodeInstallSnapshotArgs bs = Inr args"
  by (auto simp: EncodeInstallSnapshotArgs_def DecodeInstallSnapshotArgs_def codec_simps)

text \<open>An entry whose encoding has a 32-bit length.\<close>

definition entry_fits :: "entry \<Rightarrow> bool" where
  "entry_fits e \<longleftrightarrow> length (Data e) < 2 ^ 32 - 20"

lemma unat_add_20: "unat (d :: u32) < 2 ^ 32 - 20 \<Longrightarrow> unat (20 + d) = 20 + unat d"
  by (simp add: unat_word_ariths)

lemma decode_encode: "entry_fits e \<Longrightarrow> decode (encode e) = Inr e"
proof -
  assume fits: "entry_fits e"
  then have u: "unat (of_nat (length (Data e)) :: u32) = length (Data e)"
    by (intro unat_of_nat_u32) (simp add: entry_fits_def)
  then have s: "unat (20 + of_nat (length (Data e)) :: u32) = 20 + length (Data e)"
    using fits by (subst unat_add_20) (simp_all add: entry_fits_def)
  then have "\<not> (20 + of_nat (length (Data e)) :: u32) < 20"
    by (simp add: word_less_nat_alt)
  with u s show ?thesis
    by (simp add: decode_def encode_def Let_def)
qed

interpretation entc: codec put_entry read_entry entry_fits
proof
  fix x rest assume fits: "entry_fits x"
  have ne: "encode x \<noteq> []"
    using length_encode [of x] by (metis add_is_0 list.size(3) zero_neq_numeral)
  have len: "20 + length (Data x) < 2 ^ 32" using fits by (simp add: entry_fits_def)
  have u: "unat (of_nat (20 + length (Data x)) :: u32) = length (encode x)"
    using unat_of_nat_u32 [OF len] by (simp only: length_encode)
  have "read_entry (put_entry x @ rest) =
      sbind (may_panic (Reader_Read (unat (of_nat (20 + length (Data x)) :: u32)) (encode x @ rest)))
        (\<lambda>(buf, r). sbind (decode buf) (\<lambda>e. Inr (e, r)))"
    by (simp add: read_entry_def put_entry_def EncodeEntry_def DecodeEntry_def codec_simps)
  with fits ne show "read_entry (put_entry x @ rest) = Inr (x, rest)"
    by (simp only: u) (simp add: codec_simps decode_encode)
qed

lemma DecodeAppendEntriesArgs_Encode:
  "list_all entry_fits (aea_Entries args) \<Longrightarrow> length (aea_Entries args) < 2 ^ 32 \<Longrightarrow>
     EncodeAppendEntriesArgs args = Inr bs \<Longrightarrow> DecodeAppendEntriesArgs bs = Inr args"
  using entc.read_n_concat [of "aea_Entries args" "[]"]
  by (auto simp: EncodeAppendEntriesArgs_def DecodeAppendEntriesArgs_def codec_simps)

text \<open>Nothing that arrives in a buffer shorter than 4 GiB makes the decoder panic.\<close>

lemma decode_no_panic: "length buf < 2 ^ 32 \<Longrightarrow> decode buf \<noteq> Inl Panic"
proof -
  assume len: "length buf < 2 ^ 32"
  let ?n = "Uint32 (take 4 (drop 16 buf))"
  have "\<not> 20 + ?n < 20" if "20 + unat ?n \<le> length buf"
    using that len unat_add_20 [of ?n] by (simp add: word_less_nat_alt)
  then show ?thesis by (auto simp: decode_def Let_def not_less)
qed

lemma read_entry_no_panic: "read_entry bs \<noteq> Inl Panic"
proof
  assume "read_entry bs = Inl Panic"
  then obtain n :: u32 and r buf r' where "Reader_Read (unat n) r = Inr (buf, r')" and "decode buf = Inl Panic"
    by (auto simp: read_entry_def DecodeEntry_def sbind_Inl_iff)
  moreover from this(1) have "length buf < 2 ^ 32"
    using unat_u32_less [of n] by (auto simp: Reader_Read_def split: if_splits)
  ultimately show False using decode_no_panic by blast
qed

lemma DecodeAppendEntriesArgs_no_panic: "DecodeAppendEntriesArgs bs \<noteq> Inl Panic"
proof -
  have "read_n read_entry n r \<noteq> Inl Panic" for n r
    using read_entry_no_panic by (induction n arbitrary: r) (auto simp: sbind_Inl_iff)
  then show ?thesis by (auto simp: DecodeAppendEntriesArgs_def sbind_Inl_iff)
qed

subsection \<open>Properties\<close>

text \<open>
  C27: decoding an encoded message gives it back, for requests and replies of all three calls, provided the
  entries and the snapshot data fit their length fields.
\<close>

theorem rpc_messages_roundtrip:
  assumes "list_all entry_fits (aea_Entries a)" and "length (aea_Entries a) < 2 ^ 32" and "length (isa_Data i) < 2 ^ 32"
  shows "sbind (EncodeRequestVoteArgs v) DecodeRequestVoteArgs = Inr v
     \<and> sbind (EncodeRequestVoteReply vr) DecodeRequestVoteReply = Inr vr
     \<and> sbind (may_panic (EncodeAppendEntriesArgs a)) DecodeAppendEntriesArgs = Inr a
     \<and> sbind (EncodeAppendEntriesReply ar) DecodeAppendEntriesReply = Inr ar
     \<and> sbind (EncodeInstallSnapshotArgs i) DecodeInstallSnapshotArgs = Inr i
     \<and> sbind (EncodeInstallSnapshotReply ir) DecodeInstallSnapshotReply = Inr ir"
proof -
  have "\<exists>bs. EncodeRequestVoteArgs v = Inr bs" "\<exists>bs. EncodeRequestVoteReply vr = Inr bs"
    "\<exists>bs. EncodeAppendEntriesArgs a = Inr bs" "\<exists>bs. EncodeAppendEntriesReply ar = Inr bs"
    "\<exists>bs. EncodeInstallSnapshotArgs i = Inr bs" "\<exists>bs. EncodeInstallSnapshotReply ir = Inr bs"
    by (simp_all add: EncodeRequestVoteArgs_def EncodeRequestVoteReply_def EncodeAppendEntriesArgs_def
        EncodeAppendEntriesReply_def EncodeInstallSnapshotArgs_def EncodeInstallSnapshotReply_def)
  then show ?thesis
    using DecodeRequestVoteArgs_Encode DecodeRequestVoteReply_Encode DecodeAppendEntriesArgs_Encode [OF assms(1,2)]
      DecodeAppendEntriesReply_Encode DecodeInstallSnapshotArgs_Encode [OF assms(3)] DecodeInstallSnapshotReply_Encode
    by auto
qed

theorem rpc_messages_roundtrip_witness:
  "let e = \<lparr>Term = 2, Index = 2, Data = [7, 8]\<rparr>;
       args = \<lparr>aea_Term = 2, aea_LeaderID = 1, aea_PrevLogIndex = 1, aea_PrevLogTerm = 1, aea_Entries = [e, e], aea_LeaderCommit = 2\<rparr>
   in sbind (may_panic (EncodeAppendEntriesArgs args)) DecodeAppendEntriesArgs = Inr args"
proof -
  let ?e = "\<lparr>Term = 2, Index = 2, Data = [7, 8]\<rparr> :: entry"
  let ?args = "\<lparr>aea_Term = 2, aea_LeaderID = 1, aea_PrevLogIndex = 1, aea_PrevLogTerm = 1, aea_Entries = [?e, ?e], aea_LeaderCommit = 2\<rparr>"
  let ?i = "\<lparr>isa_Term = 2, isa_LeaderID = 1, isa_LastIncludedIndex = 9, isa_LastIncludedTerm = 2, isa_Data = [1, 2, 3]\<rparr>"
  have "list_all entry_fits (aea_Entries ?args)" "length (aea_Entries ?args) < 2 ^ 32" "length (isa_Data ?i) < 2 ^ 32"
    by (simp_all add: entry_fits_def)
  from rpc_messages_roundtrip [OF this] show ?thesis unfolding Let_def by blast
qed

end
