(* ===== verification/Raft_Node.thy ===== *)
theory Raft_Node
  imports Snapshots Rpc
begin

text \<open>
  A Raft node, \<^verbatim>\<open>raft/raft.go\<close> and \<^verbatim>\<open>raft/snapshot.go\<close>: its state, the log with its offset, the election
  timer, applying committed entries and taking snapshots. Every method that holds \<^verbatim>\<open>r.mu\<close> is a
  function on this state, one atomic step. The invariant \<open>log_wf\<close> ties slice positions to
  log indices.
\<close>

subsection \<open>State\<close>

datatype State = Follower | Candidate | Leader

text \<open>
  The fields of \<^verbatim>\<open>Raft\<close>. \<open>electionTimer\<close> is the time in milliseconds the timer was last set to. Two
  fields stand for the process around the node: \<open>env\<close> is its operating system and \<open>rands\<close> the numbers
  \<^verbatim>\<open>math/rand\<close> is going to draw. Log messages are not modelled.
\<close>

record raft =
  currentTerm :: u64
  votedFor :: "u64 option"
  rlog :: "entry list"
  logOffset :: u64
  commitIndex :: u64
  lastApplied :: u64
  nextIndex :: "(u64, u64) gomap"
  matchIndex :: "(u64, u64) gomap"
  node_id :: u64
  rstate :: State
  peers :: "(u64, gostring) gomap"
  rwal :: WAL
  electionTimer :: "nat option"
  stateMachine :: StateMachine
  lastSnapshotIndex :: u64
  leaderID :: u64
  leaderGeneration :: u64
  env :: os
  rands :: "nat list"

text \<open>Reading a missing key of a Go map gives the zero value.\<close>

definition go_index :: "('k, u64) gomap \<Rightarrow> 'k \<Rightarrow> u64" where
  "go_index m k = (case map_of m k of None \<Rightarrow> 0 | Some v \<Rightarrow> v)"

subsection \<open>Log positions\<close>

text \<open>The subtraction wraps around at 64 bits; the result is read as a signed \<^verbatim>\<open>int\<close>.\<close>

definition toSlicePos :: "raft \<Rightarrow> u64 \<Rightarrow> int" where
  "toSlicePos r index = sint (index - logOffset r - 1)"

definition entryAt :: "raft \<Rightarrow> u64 \<Rightarrow> entry option" where
  "entryAt r index =
     (let pos = toSlicePos r index
      in if pos < 0 \<or> pos \<ge> int (length (rlog r)) then None else Some (rlog r ! nat pos))"

definition lastLogIndexAndTerm :: "raft \<Rightarrow> u64 \<times> u64" where
  "lastLogIndexAndTerm r =
     (if rlog r = [] then (logOffset r, 0)
      else let entry = last (rlog r) in (Index entry, Term entry))"

definition compactLog :: "raft \<Rightarrow> u64 \<Rightarrow> raft" where
  "compactLog r lastIncludedIndex =
     (if lastIncludedIndex \<le> logOffset r then r
      else if lastIncludedIndex > lastApplied r then r
      else
        let keepFrom = toSlicePos r lastIncludedIndex + 1
        in if keepFrom < 0 \<or> keepFrom > int (length (rlog r)) then r
           else r\<lparr>rlog := drop (nat keepFrom) (rlog r), logOffset := lastIncludedIndex\<rparr>)"

subsection \<open>Timer and accessors\<close>

definition electionTimeoutMin :: nat where
  "electionTimeoutMin = 150"

definition electionTimeoutMax :: nat where
  "electionTimeoutMax = 300"

text \<open>
  \<^verbatim>\<open>rand.Intn(n)\<close> gives any number below \<open>n\<close>. It is the next number of the list \<open>rands\<close> modulo \<open>n\<close>: every
  sequence of results the generator may give is obtained from some list.
\<close>

definition resetElectionTimer :: "raft \<Rightarrow> raft" where
  "resetElectionTimer r =
     (let n = (case rands r of [] \<Rightarrow> 0 | x # _ \<Rightarrow> x);
          randomMs = electionTimeoutMin + n mod (electionTimeoutMax - electionTimeoutMin)
      in r\<lparr>electionTimer := Some randomMs, rands := tl (rands r)\<rparr>)"

definition Raft_Get :: "raft \<Rightarrow> gostring \<Rightarrow> gostring option" where
  "Raft_Get r key = Get (stateMachine r) key"

definition LeaderID :: "raft \<Rightarrow> u64" where
  "LeaderID r = leaderID r"

definition IsLeader :: "raft \<Rightarrow> bool" where
  "IsLeader r \<longleftrightarrow> rstate r = Leader"

subsection \<open>Applying committed entries\<close>

text \<open>The loop \<^verbatim>\<open>for r.lastApplied < r.commitIndex\<close> of \<^verbatim>\<open>HandleAppendEntries\<close> and \<^verbatim>\<open>tryAdvanceCommitIndex\<close>.\<close>

function applyCommitted :: "raft \<Rightarrow> raft" where
  "applyCommitted r =
     (if lastApplied r < commitIndex r then
        let r = r\<lparr>lastApplied := lastApplied r + 1\<rparr>
        in applyCommitted
             (case entryAt r (lastApplied r) of
                Some entry \<Rightarrow> r\<lparr>stateMachine := Apply (stateMachine r) entry\<rparr>
              | None \<Rightarrow> r)
      else r)"
  by pat_completeness auto
termination
proof (relation "measure (\<lambda>r. unat (commitIndex r) - unat (lastApplied r))", simp, goal_cases)
  case (1 r r')
  then show ?case
    using unat_succ_of_less [of "lastApplied r" "commitIndex r"]
    by (auto simp: word_less_nat_alt split: option.splits)
qed

declare applyCommitted.simps [simp del]

subsection \<open>Snapshots\<close>

definition snapshotPath :: "u64 \<Rightarrow> string" where
  "snapshotPath n = ''node'' @ decimal (unat n) @ ''.snapshot''"

definition snapshotThreshold :: u64 where
  "snapshotThreshold = 3"

definition maybeSnapshot :: "raft \<Rightarrow> raft" where
  "maybeSnapshot r =
     (if lastApplied r - lastSnapshotIndex r \<ge> snapshotThreshold then
        let contents = SM_Snapshot (range_order (env r)) (stateMachine r)
        in (case entryAt r (lastApplied r) of
             None \<Rightarrow> r
           | Some entry \<Rightarrow>
               let snapshot = \<lparr>LastIncludedIndex = lastApplied r, LastIncludedTerm = Term entry,
                               snap_Data = contents\<rparr>
               in (case SaveSnapshot (snapshotPath (node_id r)) snapshot (env r) of
                    (Inl err, s) \<Rightarrow> r\<lparr>env := s\<rparr>
                  | (Inr _, s) \<Rightarrow>
                      let r = compactLog (r\<lparr>env := s\<rparr>) (lastApplied r)
                      in (case CompactWAL (rwal r) (lastApplied r) (env r) of
                           (Inl err, w, s) \<Rightarrow> r\<lparr>rwal := w, env := s\<rparr>
                         | (Inr _, w, s) \<Rightarrow>
                             r\<lparr>rwal := w, env := s, lastSnapshotIndex := lastApplied r\<rparr>)))
      else r)"

subsection \<open>Contiguous entries\<close>

text \<open>The entries have the indices \<open>n + 1\<close>, \<open>n + 2\<close>, and so on.\<close>

fun contiguous :: "nat \<Rightarrow> entry list \<Rightarrow> bool" where
  "contiguous n [] = True"
| "contiguous n (e # es) = (unat (Index e) = n + 1 \<and> contiguous (n + 1) es)"

lemma contiguous_append [simp]:
  "contiguous n (xs @ ys) \<longleftrightarrow> contiguous n xs \<and> contiguous (n + length xs) ys"
  by (induction xs arbitrary: n) auto

lemma contiguous_nth: "contiguous n es \<Longrightarrow> i < length es \<Longrightarrow> unat (Index (es ! i)) = n + 1 + i"
  by (induction es arbitrary: n i) (auto simp: nth_Cons split: nat.splits)

lemma contiguous_drop: "contiguous n es \<Longrightarrow> k \<le> length es \<Longrightarrow> contiguous (n + k) (drop k es)"
  using contiguous_append [of n "take k es" "drop k es"] by simp

lemma contiguous_take: "contiguous n es \<Longrightarrow> contiguous n (take k es)"
  using contiguous_append [of n "take k es" "drop k es"] by simp

lemma contiguous_bounds: "contiguous n es \<Longrightarrow> e \<in> set es \<Longrightarrow> n < unat (Index e) \<and> unat (Index e) \<le> n + length es"
  by (induction es arbitrary: n) fastforce+

lemma contiguous_inj:
  "contiguous n es \<Longrightarrow> d \<in> set es \<Longrightarrow> e \<in> set es \<Longrightarrow> Index d = Index e \<Longrightarrow> d = e"
proof (induction es arbitrary: n)
  case (Cons x es)
  then have "\<forall>y\<in>set es. Index y \<noteq> Index x"
    using contiguous_bounds [of "n + 1" es] by fastforce
  with Cons show ?case by auto
qed simp

subsection \<open>The log invariant\<close>

text \<open>
  \<^verbatim>\<open>r.log[0]\<close> has index \<open>logOffset + 1\<close> and the indices go up by one. The bound is where \<^verbatim>\<open>int\<close> positions
  and \<^verbatim>\<open>uint64\<close> indices agree; a log reaches it after \<open>2 ^ 63\<close> entries.
\<close>

definition log_wf :: "raft \<Rightarrow> bool" where
  "log_wf r \<longleftrightarrow> contiguous (unat (logOffset r)) (rlog r) \<and> unat (logOffset r) + length (rlog r) < 2 ^ 63"

definition lastIndex :: "raft \<Rightarrow> nat" where
  "lastIndex r = unat (logOffset r) + length (rlog r)"

lemma toSlicePos_eq:
  assumes "unat (logOffset r) < 2 ^ 63"
  shows "unat (logOffset r) < unat i \<Longrightarrow> unat i - unat (logOffset r) - 1 < 2 ^ 63 \<Longrightarrow>
      toSlicePos r i = int (unat i - unat (logOffset r) - 1)"
    and "unat i \<le> unat (logOffset r) \<Longrightarrow> toSlicePos r i < 0"
    and "unat (logOffset r) < unat i \<Longrightarrow> \<not> unat i - unat (logOffset r) - 1 < 2 ^ 63 \<Longrightarrow> toSlicePos r i < - 1"
proof -
  let ?o = "unat (logOffset r)" and ?i = "unat i"
  have one: "unat (1 :: u64) = 1" by simp
  have u: "unat (i - logOffset r - 1) = (if ?o < ?i then ?i - ?o - 1 else 2 ^ 64 + ?i - ?o - 1)"
    using assms unat_u64_less [of i] by (auto simp: unat_sub_u64 one not_le not_less)
  show "?o < ?i \<Longrightarrow> ?i - ?o - 1 < 2 ^ 63 \<Longrightarrow> toSlicePos r i = int (?i - ?o - 1)"
    unfolding toSlicePos_def by (subst sint_u64) (simp only: u if_True)
  show "?i \<le> ?o \<Longrightarrow> toSlicePos r i < 0"
    unfolding toSlicePos_def using assms sint_u64_neg [of "i - logOffset r - 1" 0] by (auto simp: u)
  show "?o < ?i \<Longrightarrow> \<not> ?i - ?o - 1 < 2 ^ 63 \<Longrightarrow> toSlicePos r i < - 1"
    unfolding toSlicePos_def using unat_u64_less [of i] sint_u64_neg [of "i - logOffset r - 1" 1]
    by (auto simp: u)
qed

lemma entryAt_eq:
  assumes "log_wf r"
  shows "entryAt r i = (if unat (logOffset r) < unat i \<and> unat i \<le> lastIndex r
                        then Some (rlog r ! (unat i - unat (logOffset r) - 1)) else None)"
proof -
  have b: "unat (logOffset r) < 2 ^ 63" "length (rlog r) < 2 ^ 63"
    using assms by (auto simp: log_wf_def)
  consider "unat i \<le> unat (logOffset r)"
    | "unat (logOffset r) < unat i" "unat i - unat (logOffset r) - 1 < 2 ^ 63"
    | "unat (logOffset r) < unat i" "\<not> unat i - unat (logOffset r) - 1 < 2 ^ 63" by linarith
  then show ?thesis
  proof cases
    case 1
    then show ?thesis using toSlicePos_eq(2) [OF b(1)] by (simp add: entryAt_def)
  next
    case 2
    then obtain p where p: "toSlicePos r i = int p" and pe: "p = unat i - unat (logOffset r) - 1"
      using toSlicePos_eq(1) [OF b(1)] by blast
    from p have "entryAt r i = (if p < length (rlog r) then Some (rlog r ! p) else None)"
      by (simp add: entryAt_def)
    with 2 pe show ?thesis by (auto simp: lastIndex_def)
  next
    case 3
    then have "\<not> unat i \<le> lastIndex r" using b by (auto simp: lastIndex_def)
    with 3 show ?thesis using toSlicePos_eq(3) [OF b(1), of i] by (simp add: entryAt_def)
  qed
qed

lemma entryAt_Index: "log_wf r \<Longrightarrow> entryAt r i = Some e \<Longrightarrow> Index e = i"
  using contiguous_nth [of "unat (logOffset r)" "rlog r" "unat i - unat (logOffset r) - 1"]
  by (auto simp: entryAt_eq log_wf_def lastIndex_def word_unat_eq_iff split: if_splits)

lemma entryAt_in_log: "entryAt r i = Some e \<Longrightarrow> e \<in> set (rlog r)"
  by (auto simp: entryAt_def Let_def split: if_splits)

lemma entryAt_iff: "log_wf r \<Longrightarrow> entryAt r i = Some e \<longleftrightarrow> e \<in> set (rlog r) \<and> Index e = i"
proof
  assume wf: "log_wf r" and e: "e \<in> set (rlog r) \<and> Index e = i"
  then obtain k where k: "k < length (rlog r)" "rlog r ! k = e" by (auto simp: in_set_conv_nth)
  then have "unat i = unat (logOffset r) + 1 + k"
    using wf e contiguous_nth by (fastforce simp: log_wf_def)
  with wf k show "entryAt r i = Some e" by (simp add: entryAt_eq lastIndex_def)
qed (auto simp: entryAt_Index dest: entryAt_in_log)

lemma lastLogIndex_eq: "log_wf r \<Longrightarrow> unat (fst (lastLogIndexAndTerm r)) = lastIndex r"
  using contiguous_nth [of "unat (logOffset r)" "rlog r" "length (rlog r) - 1"]
  by (cases "rlog r = []") (auto simp: lastLogIndexAndTerm_def lastIndex_def log_wf_def last_conv_nth Let_def)

subsection \<open>Compaction of the log\<close>

lemma compactLog_eq:
  assumes "log_wf r"
  shows "compactLog r i =
     (if unat (logOffset r) < unat i \<and> i \<le> lastApplied r \<and> unat i \<le> lastIndex r
      then r\<lparr>rlog := drop (unat i - unat (logOffset r)) (rlog r), logOffset := i\<rparr> else r)"
proof (cases "unat (logOffset r) < unat i \<and> i \<le> lastApplied r")
  case False
  then show ?thesis by (auto simp: compactLog_def word_le_nat_alt word_less_nat_alt not_le not_less)
next
  case True
  let ?o = "unat (logOffset r)"
  have g: "\<not> i \<le> logOffset r" "\<not> i > lastApplied r"
    using True by (auto simp: word_le_nat_alt word_less_nat_alt)
  have b: "?o < 2 ^ 63" "length (rlog r) < 2 ^ 63" using assms by (auto simp: log_wf_def)
  show ?thesis
  proof (cases "unat i - ?o - 1 < 2 ^ 63")
    case small: True
    then obtain p where p: "toSlicePos r i = int p" and pe: "p = unat i - ?o - 1"
      using True toSlicePos_eq(1) [OF b(1)] by blast
    have k: "(int p + 1 < 0 \<or> int p + 1 > int (length (rlog r))) = (\<not> p + 1 \<le> length (rlog r))"
      "nat (int p + 1) = p + 1" by linarith+
    have "compactLog r i = (if p + 1 \<le> length (rlog r)
        then r\<lparr>rlog := drop (p + 1) (rlog r), logOffset := i\<rparr> else r)"
      unfolding compactLog_def Let_def p k using g
      by (cases "p + 1 \<le> length (rlog r)")
        (simp_all only: if_True if_False not_True_eq_False not_False_eq_True)
    moreover have "p + 1 = unat i - ?o" "p + 1 \<le> length (rlog r) \<longleftrightarrow> unat i \<le> lastIndex r"
      using True pe by (auto simp: lastIndex_def)
    ultimately show ?thesis using True by simp
  next
    case False
    then have "\<not> unat i \<le> lastIndex r" using b by (auto simp: lastIndex_def)
    moreover have "toSlicePos r i + 1 < 0" using True False toSlicePos_eq(3) [OF b(1), of i] by simp
    ultimately show ?thesis using g by (simp add: compactLog_def)
  qed
qed

lemma compactLog_wf: "log_wf r \<Longrightarrow> log_wf (compactLog r i)"
  using contiguous_drop [of "unat (logOffset r)" "rlog r" "unat i - unat (logOffset r)"]
  by (auto simp: compactLog_eq log_wf_def lastIndex_def)

lemma compactLog_lastIndex: "log_wf r \<Longrightarrow> lastIndex (compactLog r i) = lastIndex r"
  by (auto simp: compactLog_eq lastIndex_def)

text \<open>Compaction hides the entries up to its index and leaves the others where they were.\<close>

lemma compactLog_entryAt:
  assumes "log_wf r"
  shows "entryAt (compactLog r i) j = (if logOffset (compactLog r i) < j then entryAt r j else None)"
proof -
  have "log_wf (compactLog r i)" using assms by (rule compactLog_wf)
  then show ?thesis
    using assms by (auto simp: entryAt_eq compactLog_lastIndex word_less_nat_alt)
      (auto simp: compactLog_eq lastIndex_def split: if_splits)
qed

subsection \<open>Applying\<close>

lemma entryAt_cong: "rlog r = rlog q \<Longrightarrow> logOffset r = logOffset q \<Longrightarrow> entryAt r i = entryAt q i"
  by (simp add: entryAt_def toSlicePos_def Let_def)

lemma entryAt_upd [simp]:
  "entryAt (r\<lparr>lastApplied := x1\<rparr>) i = entryAt r i"
  "entryAt (r\<lparr>commitIndex := x2\<rparr>) i = entryAt r i"
  "entryAt (r\<lparr>stateMachine := x3\<rparr>) i = entryAt r i"
  "entryAt (r\<lparr>env := x4\<rparr>) i = entryAt r i"
  "entryAt (r\<lparr>nextIndex := x5\<rparr>) i = entryAt r i"
  "entryAt (r\<lparr>matchIndex := x6\<rparr>) i = entryAt r i"
  "entryAt (r\<lparr>currentTerm := x7\<rparr>) i = entryAt r i"
  "entryAt (r\<lparr>votedFor := x8\<rparr>) i = entryAt r i"
  "entryAt (r\<lparr>rstate := x9\<rparr>) i = entryAt r i"
  "entryAt (r\<lparr>rwal := x10\<rparr>) i = entryAt r i"
  "entryAt (r\<lparr>leaderID := x11\<rparr>) i = entryAt r i"
  "entryAt (r\<lparr>leaderGeneration := x12\<rparr>) i = entryAt r i"
  "entryAt (r\<lparr>lastSnapshotIndex := x13\<rparr>) i = entryAt r i"
  "entryAt (r\<lparr>electionTimer := x14\<rparr>) i = entryAt r i"
  "entryAt (r\<lparr>rands := x15\<rparr>) i = entryAt r i"
  by (auto intro: entryAt_cong)

lemma log_wf_upd [simp]:
  "log_wf (r\<lparr>lastApplied := x1\<rparr>) = log_wf r"
  "log_wf (r\<lparr>commitIndex := x2\<rparr>) = log_wf r"
  "log_wf (r\<lparr>stateMachine := x3\<rparr>) = log_wf r"
  "log_wf (r\<lparr>env := x4\<rparr>) = log_wf r"
  "log_wf (r\<lparr>nextIndex := x5\<rparr>) = log_wf r"
  "log_wf (r\<lparr>matchIndex := x6\<rparr>) = log_wf r"
  "log_wf (r\<lparr>currentTerm := x7\<rparr>) = log_wf r"
  "log_wf (r\<lparr>votedFor := x8\<rparr>) = log_wf r"
  "log_wf (r\<lparr>rstate := x9\<rparr>) = log_wf r"
  "log_wf (r\<lparr>rwal := x10\<rparr>) = log_wf r"
  "log_wf (r\<lparr>leaderID := x11\<rparr>) = log_wf r"
  "log_wf (r\<lparr>leaderGeneration := x12\<rparr>) = log_wf r"
  "log_wf (r\<lparr>lastSnapshotIndex := x13\<rparr>) = log_wf r"
  "log_wf (r\<lparr>electionTimer := x14\<rparr>) = log_wf r"
  "log_wf (r\<lparr>rands := x15\<rparr>) = log_wf r"
  by (simp_all add: log_wf_def)

lemma lastIndex_upd [simp]:
  "lastIndex (r\<lparr>lastApplied := x1\<rparr>) = lastIndex r"
  "lastIndex (r\<lparr>commitIndex := x2\<rparr>) = lastIndex r"
  "lastIndex (r\<lparr>stateMachine := x3\<rparr>) = lastIndex r"
  "lastIndex (r\<lparr>env := x4\<rparr>) = lastIndex r"
  "lastIndex (r\<lparr>nextIndex := x5\<rparr>) = lastIndex r"
  "lastIndex (r\<lparr>matchIndex := x6\<rparr>) = lastIndex r"
  "lastIndex (r\<lparr>currentTerm := x7\<rparr>) = lastIndex r"
  "lastIndex (r\<lparr>votedFor := x8\<rparr>) = lastIndex r"
  "lastIndex (r\<lparr>rstate := x9\<rparr>) = lastIndex r"
  "lastIndex (r\<lparr>rwal := x10\<rparr>) = lastIndex r"
  "lastIndex (r\<lparr>leaderID := x11\<rparr>) = lastIndex r"
  "lastIndex (r\<lparr>leaderGeneration := x12\<rparr>) = lastIndex r"
  "lastIndex (r\<lparr>lastSnapshotIndex := x13\<rparr>) = lastIndex r"
  "lastIndex (r\<lparr>electionTimer := x14\<rparr>) = lastIndex r"
  "lastIndex (r\<lparr>rands := x15\<rparr>) = lastIndex r"
  by (simp_all add: lastIndex_def)

text \<open>The entries with indices above \<open>a\<close> and up to \<open>b\<close> that are in the log.\<close>

definition log_between :: "raft \<Rightarrow> nat \<Rightarrow> nat \<Rightarrow> entry list" where
  "log_between r a b = List.map_filter (\<lambda>j. entryAt r (of_nat j)) [a + 1..<b + 1]"

lemma log_between_empty [simp]: "b \<le> a \<Longrightarrow> log_between r a b = []"
  by (simp add: log_between_def)

lemma log_between_step:
  "a < b \<Longrightarrow> log_between r a b =
     (case entryAt r (of_nat (a + 1)) of None \<Rightarrow> log_between r (a + 1) b
      | Some e \<Rightarrow> e # log_between r (a + 1) b)"
  by (simp add: log_between_def upt_conv_Cons del: upt_Suc of_nat_Suc of_nat_add split: option.splits)

lemma log_between_cong [simp]:
  "log_between (r\<lparr>lastApplied := c\<rparr>) a b = log_between r a b"
  "log_between (r\<lparr>stateMachine := m\<rparr>) a b = log_between r a b"
  by (simp_all add: log_between_def)

lemma applyCommitted_eq:
  "applyCommitted r =
     r\<lparr>lastApplied := max (lastApplied r) (commitIndex r),
       stateMachine := apply_all (stateMachine r) (log_between r (unat (lastApplied r)) (unat (commitIndex r)))\<rparr>"
proof (induction r rule: applyCommitted.induct)
  case (1 r)
  show ?case
  proof (cases "lastApplied r < commitIndex r")
    case False
    then have "max (lastApplied r) (commitIndex r) = lastApplied r" "unat (commitIndex r) \<le> unat (lastApplied r)"
      by (simp_all add: max_absorb1 not_less word_le_nat_alt)
    with False show ?thesis by (subst applyCommitted.simps) simp
  next
    case True
    let ?a = "lastApplied r + 1"
    have u: "unat ?a = unat (lastApplied r) + 1" using True by (rule unat_succ_of_less)
    have w: "of_nat (unat (lastApplied r) + 1) = ?a" by simp
    have m: "max ?a (commitIndex r) = max (lastApplied r) (commitIndex r)"
      using True u by (auto simp: max_def word_less_nat_alt word_le_nat_alt)
    have st: "log_between r (unat (lastApplied r)) (unat (commitIndex r)) =
        (case entryAt r ?a of None \<Rightarrow> log_between r (unat ?a) (unat (commitIndex r))
         | Some e \<Rightarrow> e # log_between r (unat ?a) (unat (commitIndex r)))"
      using True log_between_step [of "unat (lastApplied r)" "unat (commitIndex r)" r]
      by (simp only: w u word_less_nat_alt)
    show ?thesis
      using "1.IH" [OF True refl] True
      by (subst applyCommitted.simps) (simp add: Let_def st m split: option.splits)
  qed
qed

text \<open>Where the log covers the range, these are consecutive entries of the slice.\<close>

lemma log_between_slice:
  assumes "log_wf r" and "unat (logOffset r) \<le> a" and "b \<le> lastIndex r"
  shows "log_between r a b = take (b - a) (drop (a - unat (logOffset r)) (rlog r))"
  using assms(2,3)
proof (induction "b - a" arbitrary: a)
  case 0
  then show ?case by simp
next
  case (Suc n)
  let ?o = "unat (logOffset r)"
  have ab: "a < b" using Suc.hyps(2) by simp
  have u: "unat (of_nat (a + 1) :: u64) = a + 1"
    using ab Suc.prems assms(1) by (intro unat_of_nat_u64) (simp add: log_wf_def lastIndex_def)
  have e: "entryAt r (of_nat (a + 1)) = Some (rlog r ! (a - ?o))"
    using ab Suc.prems by (simp only: entryAt_eq [OF assms(1)] u) simp
  have d: "drop (a - ?o) (rlog r) = rlog r ! (a - ?o) # drop (a + 1 - ?o) (rlog r)"
    using ab Suc.prems drop_eq_hd_Cons [of "a - ?o" "rlog r"] by (simp add: lastIndex_def Suc_diff_le)
  have "log_between r (a + 1) b = take (b - (a + 1)) (drop (a + 1 - ?o) (rlog r))"
    using Suc.hyps(2) Suc.prems by (intro Suc.hyps(1)) auto
  with ab d e show ?case
    by (simp add: log_between_step [OF ab] take_Cons' del: of_nat_Suc of_nat_add)
qed

subsection \<open>Taking a snapshot\<close>

lemma compactLog_env [simp]:
  "compactLog (r\<lparr>env := s\<rparr>) i = (compactLog r i)\<lparr>env := s\<rparr>"
  by (simp add: compactLog_def toSlicePos_def Let_def)

lemma compactLog_frame [frame_simps]:
  "lastApplied (compactLog r i) = lastApplied r"
  "commitIndex (compactLog r i) = commitIndex r"
  "currentTerm (compactLog r i) = currentTerm r"
  "votedFor (compactLog r i) = votedFor r"
  "rstate (compactLog r i) = rstate r"
  "stateMachine (compactLog r i) = stateMachine r"
  "node_id (compactLog r i) = node_id r"
  "peers (compactLog r i) = peers r"
  "nextIndex (compactLog r i) = nextIndex r"
  "matchIndex (compactLog r i) = matchIndex r"
  "rwal (compactLog r i) = rwal r"
  "env (compactLog r i) = env r"
  "lastSnapshotIndex (compactLog r i) = lastSnapshotIndex r"
  by (simp_all add: compactLog_def Let_def)

text \<open>Whatever fails on the way, a snapshot leaves the log as it is or compacts it up to \<open>lastApplied\<close>.\<close>

lemma maybeSnapshot_cases:
  obtains (same) w s l where "maybeSnapshot r = r\<lparr>rwal := w, env := s, lastSnapshotIndex := l\<rparr>"
  | (compacted) w s l where
      "maybeSnapshot r = (compactLog r (lastApplied r))\<lparr>rwal := w, env := s, lastSnapshotIndex := l\<rparr>"
proof (cases "lastApplied r - lastSnapshotIndex r \<ge> snapshotThreshold \<and> entryAt r (lastApplied r) \<noteq> None")
  case False
  then have "maybeSnapshot r = r" by (auto simp: maybeSnapshot_def split: option.splits)
  then show thesis using same [where w = "rwal r" and s = "env r" and l = "lastSnapshotIndex r"] by simp
next
  case True
  then obtain e where e: "entryAt r (lastApplied r) = Some e" by auto
  let ?snap = "\<lparr>LastIncludedIndex = lastApplied r, LastIncludedTerm = Term e,
                snap_Data = SM_Snapshot (range_order (env r)) (stateMachine r)\<rparr>"
  obtain x s where sv: "SaveSnapshot (snapshotPath (node_id r)) ?snap (env r) = (x, s)" by fastforce
  obtain y w t where cw: "CompactWAL (rwal r) (lastApplied r) s = (y, w, t)" by (metis prod_cases3)
  let ?c = "compactLog r (lastApplied r)"
  show thesis
  proof (cases x)
    case (Inl err)
    then have "maybeSnapshot r = r\<lparr>env := s\<rparr>"
      using True e sv by (simp add: maybeSnapshot_def)
    then show thesis using same [where w = "rwal r" and s = s and l = "lastSnapshotIndex r"] by simp
  next
    case x: (Inr u)
    show thesis
    proof (cases y)
      case (Inl err)
      then have "maybeSnapshot r = ?c\<lparr>rwal := w, env := t\<rparr>"
        using True e sv cw x by (simp add: maybeSnapshot_def Let_def frame_simps)
      then show thesis
        using compacted [where w = w and s = t and l = "lastSnapshotIndex r"] by (simp add: frame_simps)
    next
      case (Inr v)
      then have "maybeSnapshot r = ?c\<lparr>rwal := w, env := t, lastSnapshotIndex := lastApplied r\<rparr>"
        using True e sv cw x by (simp add: maybeSnapshot_def Let_def frame_simps)
      then show thesis by (rule compacted)
    qed
  qed
qed

text \<open>What follows for the fields.\<close>

lemma maybeSnapshot_frame [frame_simps]:
  "lastApplied (maybeSnapshot r) = lastApplied r"
  "commitIndex (maybeSnapshot r) = commitIndex r"
  "currentTerm (maybeSnapshot r) = currentTerm r"
  "votedFor (maybeSnapshot r) = votedFor r"
  "rstate (maybeSnapshot r) = rstate r"
  "stateMachine (maybeSnapshot r) = stateMachine r"
  "node_id (maybeSnapshot r) = node_id r"
  "peers (maybeSnapshot r) = peers r"
  "nextIndex (maybeSnapshot r) = nextIndex r"
  "matchIndex (maybeSnapshot r) = matchIndex r"
  by (cases r rule: maybeSnapshot_cases; simp add: frame_simps)+

lemma log_wf_cong: "rlog r = rlog q \<Longrightarrow> logOffset r = logOffset q \<Longrightarrow> log_wf r = log_wf q"
  by (simp add: log_wf_def)

lemma lastIndex_cong: "rlog r = rlog q \<Longrightarrow> logOffset r = logOffset q \<Longrightarrow> lastIndex r = lastIndex q"
  by (simp add: lastIndex_def)

lemma maybeSnapshot_log:
  assumes "log_wf r"
  shows "log_wf (maybeSnapshot r)" and "lastIndex (maybeSnapshot r) = lastIndex r"
    and "entryAt (maybeSnapshot r) j = (if logOffset (maybeSnapshot r) < j then entryAt r j else None)"
    and "logOffset (maybeSnapshot r) = logOffset r \<or> logOffset (maybeSnapshot r) = lastApplied r"
proof -
  have "log_wf (maybeSnapshot r) \<and> lastIndex (maybeSnapshot r) = lastIndex r
      \<and> entryAt (maybeSnapshot r) j = (if logOffset (maybeSnapshot r) < j then entryAt r j else None)
      \<and> (logOffset (maybeSnapshot r) = logOffset r \<or> logOffset (maybeSnapshot r) = lastApplied r)"
  proof (cases r rule: maybeSnapshot_cases)
    case (same w s l)
    then show ?thesis
      using assms entryAt_cong [of "maybeSnapshot r" r j]
      by (auto simp: log_wf_def lastIndex_def entryAt_eq word_less_nat_alt)
  next
    case (compacted w s l)
    let ?c = "compactLog r (lastApplied r)"
    have eqs: "rlog (maybeSnapshot r) = rlog ?c" "logOffset (maybeSnapshot r) = logOffset ?c"
      using compacted by simp_all
    have "logOffset ?c = logOffset r \<or> logOffset ?c = lastApplied r"
      by (simp add: compactLog_eq [OF assms])
    then show ?thesis
      using log_wf_cong [OF eqs] lastIndex_cong [OF eqs] entryAt_cong [OF eqs, of j] eqs(2)
        compactLog_wf [OF assms] compactLog_lastIndex [OF assms] compactLog_entryAt [OF assms]
      by simp
  qed
  then show "log_wf (maybeSnapshot r)" and "lastIndex (maybeSnapshot r) = lastIndex r"
    and "entryAt (maybeSnapshot r) j = (if logOffset (maybeSnapshot r) < j then entryAt r j else None)"
    and "logOffset (maybeSnapshot r) = logOffset r \<or> logOffset (maybeSnapshot r) = lastApplied r"
    by simp_all
qed

subsection \<open>Timer\<close>

lemma resetElectionTimer_range:
  "\<exists>ms. electionTimer (resetElectionTimer r) = Some ms \<and> electionTimeoutMin \<le> ms \<and> ms < electionTimeoutMax"
  by (simp add: resetElectionTimer_def electionTimeoutMin_def electionTimeoutMax_def Let_def)

lemma resetElectionTimer_frame [simp]:
  "lastApplied (resetElectionTimer r) = lastApplied r"
  "commitIndex (resetElectionTimer r) = commitIndex r"
  "currentTerm (resetElectionTimer r) = currentTerm r"
  "votedFor (resetElectionTimer r) = votedFor r"
  "rstate (resetElectionTimer r) = rstate r"
  "stateMachine (resetElectionTimer r) = stateMachine r"
  "node_id (resetElectionTimer r) = node_id r"
  "peers (resetElectionTimer r) = peers r"
  "nextIndex (resetElectionTimer r) = nextIndex r"
  "matchIndex (resetElectionTimer r) = matchIndex r"
  "rlog (resetElectionTimer r) = rlog r"
  "logOffset (resetElectionTimer r) = logOffset r"
  "rwal (resetElectionTimer r) = rwal r"
  "env (resetElectionTimer r) = env r"
  "lastSnapshotIndex (resetElectionTimer r) = lastSnapshotIndex r"
  "leaderID (resetElectionTimer r) = leaderID r"
  "leaderGeneration (resetElectionTimer r) = leaderGeneration r"
  by (simp_all add: resetElectionTimer_def Let_def)

subsection \<open>An example\<close>

text \<open>A node of a cluster of three in term 1, with the given log and nothing committed.\<close>

definition sample_peers :: "(u64, gostring) gomap" where
  "sample_peers = [(1, lit ''localhost:9001''), (2, lit ''localhost:9002''), (3, lit ''localhost:9003'')]"

definition sample_node :: "u64 \<Rightarrow> State \<Rightarrow> entry list \<Rightarrow> raft" where
  "sample_node n st es =
     \<lparr>currentTerm = 1, votedFor = None, rlog = es, logOffset = 0, commitIndex = 0, lastApplied = 0,
      nextIndex = [(1, 1), (2, 1), (3, 1)], matchIndex = [(1, 0), (2, 0), (3, 0)], node_id = n, rstate = st,
      peers = sample_peers, rwal = \<lparr>path = ''wal'', wal_open = True\<rparr>, electionTimer = None,
      stateMachine = NewStateMachine, lastSnapshotIndex = 0, leaderID = 0, leaderGeneration = 1,
      env = quiet_os, rands = []\<rparr>"

definition sample_entry :: "u64 \<Rightarrow> u64 \<Rightarrow> entry" where
  "sample_entry t i = \<lparr>Term = t, Index = i, Data = lit ''set x=1''\<rparr>"

subsection \<open>Properties\<close>

text \<open>
  C28: the loop that applies committed entries ends with \<^verbatim>\<open>lastApplied\<close> at
  \<^verbatim>\<open>commitIndex\<close> and has applied, in order and once each, exactly the slice of the log
  between the two, also when the log was compacted.
\<close>

theorem applyCommitted_in_order:
  assumes "log_wf r" and "logOffset r \<le> lastApplied r" and "lastApplied r \<le> commitIndex r" and "unat (commitIndex r) \<le> lastIndex r"
  shows "applyCommitted r = r\<lparr>lastApplied := commitIndex r, stateMachine :=
     foldl Apply (stateMachine r) (take (unat (commitIndex r) - unat (lastApplied r))
       (drop (unat (lastApplied r) - unat (logOffset r)) (rlog r)))\<rparr>"
  using assms log_between_slice [OF assms(1), of "unat (lastApplied r)" "unat (commitIndex r)"]
  by (simp add: applyCommitted_eq apply_all_def word_le_nat_alt max_def)

theorem applyCommitted_in_order_witness:
  "let r = (sample_node 1 Leader [sample_entry 1 1, sample_entry 1 2, sample_entry 1 3])\<lparr>commitIndex := 2\<rparr>
   in stateMachine (applyCommitted r) = foldl Apply NewStateMachine [sample_entry 1 1, sample_entry 1 2]"
proof -
  let ?r = "(sample_node 1 Leader [sample_entry 1 1, sample_entry 1 2, sample_entry 1 3])\<lparr>commitIndex := 2\<rparr>"
  have "log_wf ?r" "logOffset ?r \<le> lastApplied ?r" "lastApplied ?r \<le> commitIndex ?r" "unat (commitIndex ?r) \<le> lastIndex ?r"
    by (simp_all add: sample_node_def sample_entry_def log_wf_def lastIndex_def)
  note a = applyCommitted_in_order [OF this]
  show ?thesis unfolding Let_def a by (simp add: sample_node_def)
qed

end
