(* ===== verification/Raft_Election.thy ===== *)
theory Raft_Election
  imports Raft_Node
begin

text \<open>
  Leader election, \<^verbatim>\<open>raft/raft.go\<close>: becoming a candidate, asking for votes and counting them, granting
  votes, becoming leader. The goroutines that \<^verbatim>\<open>requestVotes\<close> starts are split at the network call: the
  calls to make are part of the result of \<open>becomeCandidate\<close>, and \<open>voteReply\<close> is what each goroutine does
  with its answer. Where \<^verbatim>\<open>becomeLeader\<close> starts the heartbeat loop the generation it starts it with is
  returned.
\<close>

subsection \<open>Operations\<close>

fun initPeers :: "u64 \<Rightarrow> u64 list \<Rightarrow> raft \<Rightarrow> raft" where
  "initPeers lastIdx [] r = r"
| "initPeers lastIdx (p # ps) r =
     initPeers lastIdx ps
       (r\<lparr>nextIndex := AList.update p (lastIdx + 1) (nextIndex r), matchIndex := AList.update p 0 (matchIndex r)\<rparr>)"

definition becomeLeader :: "raft \<Rightarrow> raft \<times> u64 option" where
  "becomeLeader r =
     (let r = r\<lparr>rstate := Leader, leaderGeneration := leaderGeneration r + 1\<rparr>;
          myGeneration = leaderGeneration r;
          r = resetElectionTimer r;
          lastIdx = fst (lastLogIndexAndTerm r);
          r = initPeers lastIdx (map fst (peers r)) r;
          newEntry = \<lparr>Term = currentTerm r, Index = lastIdx + 1, Data = lit ''no-op''\<rparr>;
          r = r\<lparr>rlog := rlog r @ [newEntry]\<rparr>
      in case Append (rwal r) newEntry (env r) of
           (Inl err, s) \<Rightarrow> (r\<lparr>env := s\<rparr>, None)
         | (Inr _, s) \<Rightarrow> (r\<lparr>env := s\<rparr>, Some myGeneration))"

definition majority :: "raft \<Rightarrow> nat" where
  "majority r = length (peers r) div 2 + 1"

text \<open>The calls \<^verbatim>\<open>requestVotes\<close> makes, one goroutine per peer: its id, its address and the arguments.\<close>

definition requestVotes :: "raft \<Rightarrow> (u64 \<times> gostring \<times> RequestVoteArgs) list" where
  "requestVotes r =
     (let (lastLogIndex, lastLogTerm) =
            (if rlog r \<noteq> [] then (Index (last (rlog r)), Term (last (rlog r))) else (0, 0));
          args = \<lparr>rva_Term = currentTerm r, rva_CandidateID = node_id r,
                  rva_LastLogIndex = lastLogIndex, rva_LastLogTerm = lastLogTerm\<rparr>
      in map (\<lambda>(p, a). (p, a, args)) (filter (\<lambda>(p, a). p \<noteq> node_id r) (peers r)))"

text \<open>
  A goroutine of \<^verbatim>\<open>requestVotes\<close> after its call returned without an error: \<open>votes\<close> is the counter its
  election shares, \<open>maj\<close> the majority computed when the election started. The goroutine reads \<^verbatim>\<open>r.currentTerm\<close> and
  \<^verbatim>\<open>r.state\<close> without holding \<^verbatim>\<open>r.mu\<close> and takes the lock only to act on what it read, so the readings
  \<open>seenTerm\<close> and \<open>seenState\<close> may be out of date when it does: they are arguments, next to the state \<open>r\<close> under
  the lock.
\<close>

definition voteReply :: "u64 \<Rightarrow> State \<Rightarrow> raft \<Rightarrow> nat \<Rightarrow> nat \<Rightarrow> RequestVoteReply \<Rightarrow> raft \<times> nat \<times> u64 option" where
  "voteReply seenTerm seenState r votes maj reply =
     (if rvr_Term reply > seenTerm then
        (r\<lparr>currentTerm := rvr_Term reply, rstate := Follower, votedFor := None\<rparr>, votes, None)
      else if rvr_VoteGranted reply then
        (let votes = votes + 1
         in if votes \<ge> maj \<and> seenState = Candidate
            then (let (r, started) = becomeLeader r in (r, votes, started))
            else (r, votes, None))
      else (r, votes, None))"

definition isCandidateLogUpToDate :: "raft \<Rightarrow> u64 \<Rightarrow> u64 \<Rightarrow> bool" where
  "isCandidateLogUpToDate r candidateLastLogTerm candidateLastLogIndex =
     (let (userIndex, userTerm) = lastLogIndexAndTerm r
      in if candidateLastLogTerm > userTerm then True
         else if candidateLastLogTerm = userTerm then candidateLastLogIndex \<ge> userIndex
         else False)"

definition HandleRequestVote :: "raft \<Rightarrow> RequestVoteArgs \<Rightarrow> RequestVoteReply \<times> raft" where
  "HandleRequestVote r args =
     (if rva_Term args < currentTerm r
      then (\<lparr>rvr_Term = currentTerm r, rvr_VoteGranted = False\<rparr>, r)
      else
        let r = (if rva_Term args > currentTerm r
                 then r\<lparr>currentTerm := rva_Term args, votedFor := None, rstate := Follower\<rparr> else r);
            voteOK = (votedFor r = None \<or> votedFor r = Some (rva_CandidateID args));
            logOk = isCandidateLogUpToDate r (rva_LastLogTerm args) (rva_LastLogIndex args)
        in if voteOK \<and> logOk
           then let r = resetElectionTimer (r\<lparr>votedFor := Some (rva_CandidateID args)\<rparr>)
                in (\<lparr>rvr_Term = currentTerm r, rvr_VoteGranted = True\<rparr>, r)
           else (\<lparr>rvr_Term = currentTerm r, rvr_VoteGranted = False\<rparr>, r))"

text \<open>The new state and the calls of its election.\<close>

definition becomeCandidate :: "raft \<Rightarrow> raft \<times> (u64 \<times> gostring \<times> RequestVoteArgs) list" where
  "becomeCandidate r =
     (let r = resetElectionTimer (r\<lparr>currentTerm := currentTerm r + 1, rstate := Candidate,
                                    votedFor := Some (node_id r)\<rparr>)
      in (r, requestVotes r))"

text \<open>
  One turn of \<^verbatim>\<open>electionLoop\<close>, the timer having fired. The state is read in one locked section and
  \<^verbatim>\<open>becomeCandidate\<close> runs in another; \<open>seenState\<close> is what was read.
\<close>

definition electionTimeout :: "State \<Rightarrow> raft \<Rightarrow> raft \<times> (u64 \<times> gostring \<times> RequestVoteArgs) list" where
  "electionTimeout seenState r = (if seenState \<noteq> Leader then becomeCandidate r else (r, []))"

definition Start :: "raft \<Rightarrow> raft" where
  "Start r = resetElectionTimer r"

end
