(* ===== verification/Raft_Replication.thy ===== *)
theory Raft_Replication
  imports Raft_Election
begin

text \<open>
  Log replication, \<^verbatim>\<open>raft/raft.go\<close>: what a follower does with \<^verbatim>\<open>AppendEntries\<close>, what a leader sends on a
  heartbeat and does with the answers, committing by majority, and proposing a new command.
\<close>

subsection \<open>Follower\<close>

text \<open>
  The loop of \<^verbatim>\<open>HandleAppendEntries\<close> that compares the new entries with the log: \<open>i\<close> is the loop
  variable and \<open>appendFrom\<close> the result so far. At a conflict the log and the write-ahead log are cut.
\<close>

fun scanEntries :: "nat \<Rightarrow> nat \<Rightarrow> entry list \<Rightarrow> raft \<Rightarrow> (go_error + nat) \<times> raft" where
  "scanEntries i appendFrom [] r = (Inr appendFrom, r)"
| "scanEntries i appendFrom (newEntry # es) r =
     (case entryAt r (Index newEntry) of
        Some entry \<Rightarrow>
          if Term entry \<noteq> Term newEntry then
            let r = r\<lparr>rlog := take (nat (toSlicePos r (Index newEntry))) (rlog r)\<rparr>
            in (case TruncateAfter (rwal r) (Index newEntry - 1) (env r) of
                  (Inl err, s) \<Rightarrow> (Inl err, r\<lparr>env := s\<rparr>)
                | (Inr _, s) \<Rightarrow> (Inr i, r\<lparr>env := s\<rparr>))
          else scanEntries (i + 1) (i + 1) es r
      | None \<Rightarrow> (Inr i, r))"

text \<open>The loop that writes the appended entries to the write-ahead log.\<close>

fun persistEntries :: "entry list \<Rightarrow> raft \<Rightarrow> (go_error + unit) \<times> raft" where
  "persistEntries [] r = (Inr (), r)"
| "persistEntries (entry # es) r =
     (case Append (rwal r) entry (env r) of
        (Inl err, s) \<Rightarrow> (Inl err, r\<lparr>env := s\<rparr>)
      | (Inr _, s) \<Rightarrow> persistEntries es (r\<lparr>env := s\<rparr>))"

definition rejectAppend :: "raft \<Rightarrow> AppendEntriesReply" where
  "rejectAppend r = \<lparr>aer_Term = currentTerm r, aer_Success = False, aer_ConflictTerm = 0, aer_ConflictIndex = 0\<rparr>"

definition updateCommit :: "u64 \<Rightarrow> raft \<Rightarrow> raft" where
  "updateCommit leaderCommit r =
     (if leaderCommit > commitIndex r then
        let lastNewIndex = fst (lastLogIndexAndTerm r)
        in r\<lparr>commitIndex := (if leaderCommit < lastNewIndex then leaderCommit else lastNewIndex)\<rparr>
      else r)"

text \<open>The end of \<^verbatim>\<open>HandleAppendEntries\<close>: committing, applying, taking a snapshot.\<close>

definition finishAppend :: "u64 \<Rightarrow> raft \<Rightarrow> raft" where
  "finishAppend leaderCommit r = maybeSnapshot (applyCommitted (updateCommit leaderCommit r))"

text \<open>What \<^verbatim>\<open>HandleAppendEntries\<close> does before it looks at the log.\<close>

definition acceptLeader :: "u64 \<Rightarrow> u64 \<Rightarrow> raft \<Rightarrow> raft" where
  "acceptLeader trm leader r =
     (let r = (if trm \<ge> currentTerm r \<and> rstate r \<noteq> Follower then r\<lparr>rstate := Follower\<rparr> else r);
          r = (if trm > currentTerm r then r\<lparr>currentTerm := trm, votedFor := None\<rparr> else r)
      in resetElectionTimer (r\<lparr>leaderID := leader\<rparr>))"

definition prevMismatch :: "raft \<Rightarrow> AppendEntriesArgs \<Rightarrow> bool" where
  "prevMismatch r args \<longleftrightarrow>
     aea_PrevLogIndex args > 0 \<and>
     (case entryAt r (aea_PrevLogIndex args) of
        Some entry \<Rightarrow> Term entry \<noteq> aea_PrevLogTerm args | None \<Rightarrow> False)"

definition HandleAppendEntries :: "raft \<Rightarrow> AppendEntriesArgs \<Rightarrow> AppendEntriesReply \<times> raft" where
  "HandleAppendEntries r args =
     (if aea_Term args < currentTerm r then (rejectAppend r, r)
      else
        let r = acceptLeader (aea_Term args) (aea_LeaderID args) r
        in if prevMismatch r args then (rejectAppend r, r)
           else
             (case scanEntries 0 0 (aea_Entries args) r of
                (Inl err, r) \<Rightarrow> (rejectAppend r, r)
              | (Inr appendFrom, r) \<Rightarrow>
                  let entriesToAppend = drop appendFrom (aea_Entries args);
                      expectedNextIndex = logOffset r + of_nat (length (rlog r)) + 1
                  in if entriesToAppend \<noteq> [] \<and> Index (hd entriesToAppend) \<noteq> expectedNextIndex
                     then ((rejectAppend r)\<lparr>aer_ConflictIndex := expectedNextIndex\<rparr>, r)
                     else
                       (case persistEntries entriesToAppend (r\<lparr>rlog := rlog r @ entriesToAppend\<rparr>) of
                          (Inl err, r) \<Rightarrow> (rejectAppend r, r)
                        | (Inr _, r) \<Rightarrow>
                            let r = finishAppend (aea_LeaderCommit args) r
                            in ((rejectAppend r)\<lparr>aer_Success := True\<rparr>, r))))"

subsection \<open>Leader\<close>

text \<open>The commit candidate: the middle of all match indices and the leader's own last index.\<close>

definition majorityIndex :: "raft \<Rightarrow> u64" where
  "majorityIndex r =
     (let everyMatchIndex = map snd (matchIndex r) @ [fst (lastLogIndexAndTerm r)]
      in rev (sort everyMatchIndex) ! (length everyMatchIndex div 2))"

definition tryAdvanceCommitIndex :: "raft \<Rightarrow> raft" where
  "tryAdvanceCommitIndex r =
     (let m = majorityIndex r
      in if m = 0 then r
         else (case entryAt r m of
                 None \<Rightarrow> r
               | Some entryAtMajority \<Rightarrow>
                   if Term entryAtMajority \<noteq> currentTerm r then r
                   else maybeSnapshot (applyCommitted (r\<lparr>commitIndex := m\<rparr>))))"

record peerData =
  pd_entries :: "entry list"
  pd_prevIndex :: u64
  pd_prevTerm :: u64

definition emptyPeerData :: peerData where
  "emptyPeerData = \<lparr>pd_entries = [], pd_prevIndex = 0, pd_prevTerm = 0\<rparr>"

text \<open>
  The loop of a heartbeat over the peers, under the lock: the data for each peer and the peers that
  need a snapshot. Slicing the log beyond its end panics.
\<close>

fun collectPeers :: "raft \<Rightarrow> u64 list \<Rightarrow> failure + (u64, peerData) gomap \<times> u64 list" where
  "collectPeers r [] = Inr ([], [])"
| "collectPeers r (p # ps) =
     (let next = go_index (nextIndex r) p; prevIndexPos = toSlicePos r next
      in if prevIndexPos < 0 then
           sbind (collectPeers r ps) (\<lambda>(snaps, needs). Inr (snaps, p # needs))
         else if prevIndexPos > int (length (rlog r)) then Inl Panic
         else
           let prevIndex = next - 1;
               prevTerm = (if prevIndex > 0
                           then (case entryAt r prevIndex of Some entry \<Rightarrow> Term entry | None \<Rightarrow> 0) else 0)
           in sbind (collectPeers r ps) (\<lambda>(snaps, needs).
                Inr ((p, \<lparr>pd_entries = drop (nat prevIndexPos) (rlog r),
                         pd_prevIndex = prevIndex, pd_prevTerm = prevTerm\<rparr>) # snaps, needs)))"

text \<open>
  What one tick of \<^verbatim>\<open>heartBeatLoop\<close> takes along when it releases the lock: its term, its id, the peers
  to send a snapshot to and for every other peer the data to send.
\<close>

record heartbeat =
  hb_term :: u64
  hb_leader :: u64
  hb_needs :: "u64 list"
  hb_sends :: "(u64 \<times> gostring \<times> peerData) list"

definition heartBeatTick :: "raft \<Rightarrow> u64 \<Rightarrow> failure + heartbeat option" where
  "heartBeatTick r myGeneration =
     (if rstate r \<noteq> Leader \<or> leaderGeneration r \<noteq> myGeneration then Inr None
      else sbind (collectPeers r (map fst (peers r))) (\<lambda>(peerSnapshots, needsSnapshot).
        Inr (Some \<lparr>hb_term = currentTerm r, hb_leader = node_id r, hb_needs = needsSnapshot,
                  hb_sends = map (\<lambda>(p, a). (p, a, case map_of peerSnapshots p of
                                                  Some d \<Rightarrow> d | None \<Rightarrow> emptyPeerData))
                               (filter (\<lambda>(p, a). p \<noteq> node_id r) (peers r))\<rparr>)))"

text \<open>The arguments a goroutine of the heartbeat builds; the commit index is read when it runs.\<close>

definition heartBeatArgs :: "raft \<Rightarrow> u64 \<Rightarrow> u64 \<Rightarrow> peerData \<Rightarrow> AppendEntriesArgs" where
  "heartBeatArgs r trm leader snap =
     \<lparr>aea_Term = trm, aea_LeaderID = leader, aea_PrevLogIndex = pd_prevIndex snap,
      aea_PrevLogTerm = pd_prevTerm snap, aea_Entries = pd_entries snap, aea_LeaderCommit = commitIndex r\<rparr>"

text \<open>
  The rest of the goroutine, after the call returned without an error. It takes the lock twice: to step
  down when the answer has a newer term than the heartbeat, and for everything else.
\<close>

definition heartBeatSuperseded :: "raft \<Rightarrow> u64 \<Rightarrow> AppendEntriesReply \<Rightarrow> raft" where
  "heartBeatSuperseded r trm reply =
     (if aer_Term reply > trm
      then r\<lparr>currentTerm := aer_Term reply, rstate := Follower, votedFor := None\<rparr> else r)"

definition heartBeatOutcome :: "raft \<Rightarrow> u64 \<Rightarrow> peerData \<Rightarrow> AppendEntriesReply \<Rightarrow> raft" where
  "heartBeatOutcome r peerID snap reply =
     (if aer_Success reply then
        (if pd_entries snap \<noteq> [] then
           let lastSent = last (pd_entries snap)
           in tryAdvanceCommitIndex
                (r\<lparr>nextIndex := AList.update peerID (Index lastSent + 1) (nextIndex r),
                   matchIndex := AList.update peerID (Index lastSent) (matchIndex r)\<rparr>)
         else r)
      else if aer_ConflictIndex reply > 0 then
        r\<lparr>nextIndex := AList.update peerID (aer_ConflictIndex reply) (nextIndex r)\<rparr>
      else if go_index (nextIndex r) peerID > 1 then
        r\<lparr>nextIndex := AList.update peerID (go_index (nextIndex r) peerID - 1) (nextIndex r)\<rparr>
      else r)"

definition heartBeatReply :: "raft \<Rightarrow> u64 \<Rightarrow> u64 \<Rightarrow> peerData \<Rightarrow> AppendEntriesReply \<Rightarrow> raft" where
  "heartBeatReply r peerID trm snap reply =
     heartBeatOutcome (heartBeatSuperseded r trm reply) peerID snap reply"

definition Propose :: "raft \<Rightarrow> bytes \<Rightarrow> (go_error + u64) \<times> raft" where
  "Propose r d =
     (if rstate r \<noteq> Leader then (Inl (Errorf ''not the leader''), r)
      else
        let newIndex = fst (lastLogIndexAndTerm r) + 1;
            newEntry = \<lparr>Term = currentTerm r, Index = newIndex, Data = d\<rparr>;
            r = r\<lparr>rlog := rlog r @ [newEntry]\<rparr>
        in (case Append (rwal r) newEntry (env r) of
              (Inl err, s) \<Rightarrow> (Inl (Wrap ''failed to persist entry: '' err), r\<lparr>env := s\<rparr>)
            | (Inr _, s) \<Rightarrow> (Inr newIndex, r\<lparr>env := s\<rparr>)))"

subsection \<open>Handling AppendEntries\<close>

text \<open>The scan splits the new entries into those the log already has and the rest.\<close>

lemma scanEntries_cases:
  assumes "scanEntries i i es r = (res, r')"
  obtains (agree) pre post where "es = pre @ post"
      "\<forall>e\<in>set pre. \<exists>x. entryAt r (Index e) = Some x \<and> Term x = Term e"
      "res = Inr (i + length pre)" "r' = r" "post = [] \<or> entryAt r (Index (hd post)) = None"
  | (conflict) pre e post x s where "es = pre @ e # post"
      "\<forall>e\<in>set pre. \<exists>x. entryAt r (Index e) = Some x \<and> Term x = Term e"
      "entryAt r (Index e) = Some x" "Term x \<noteq> Term e"
      "r' = r\<lparr>rlog := take (nat (toSlicePos r (Index e))) (rlog r), env := s\<rparr>"
      "res = Inr (i + length pre) \<or> (\<exists>err. res = Inl err)"
      "\<exists>y. TruncateAfter (rwal r) (Index e - 1) (env r) = (y, s) \<and> (isl y = isl res)"
  using assms
proof (induction es arbitrary: i thesis)
  case Nil
  then show ?case by (auto intro: Nil.prems(1) [of "[]" "[]"])
next
  case (Cons e es)
  note agree = Cons.prems(1) and conflict = Cons.prems(2) and eq = Cons.prems(3)
  show ?case
  proof (cases "entryAt r (Index e)")
    case None
    with eq show ?thesis by (intro agree [of "[]" "e # es"]) auto
  next
    case (Some x)
    show ?thesis
    proof (cases "Term x = Term e")
      case False
      obtain y s where tr: "TruncateAfter (rwal r) (Index e - 1) (env r) = (y, s)" by fastforce
      show ?thesis
        using eq Some False tr
        by (intro conflict [of "[]" e es x s]) (auto simp: Let_def split: sum.splits)
    next
      case True
      with eq Some have rec: "scanEntries (i + 1) (i + 1) es r = (res, r')" by simp
      show ?thesis
      proof (rule Cons.IH [OF _ _ rec])
        fix pre post
        assume "es = pre @ post" "\<forall>e\<in>set pre. \<exists>x. entryAt r (Index e) = Some x \<and> Term x = Term e"
          "res = Inr (i + 1 + length pre)" "r' = r" "post = [] \<or> entryAt r (Index (hd post)) = None"
        then show thesis using Some True by (intro agree [of "e # pre" post]) auto
      next
        fix pre e' post x' s
        assume "es = pre @ e' # post" "\<forall>e\<in>set pre. \<exists>x. entryAt r (Index e) = Some x \<and> Term x = Term e"
          "entryAt r (Index e') = Some x'" "Term x' \<noteq> Term e'"
          "r' = r\<lparr>rlog := take (nat (toSlicePos r (Index e'))) (rlog r), env := s\<rparr>"
          "res = Inr (i + 1 + length pre) \<or> (\<exists>err. res = Inl err)"
          "\<exists>y. TruncateAfter (rwal r) (Index e' - 1) (env r) = (y, s) \<and> isl y = isl res"
        then show thesis using Some True by (intro conflict [of "e # pre" e' post x' s]) auto
      qed
    qed
  qed
qed

lemma toSlicePos_entryAt:
  "log_wf r \<Longrightarrow> entryAt r i = Some x \<Longrightarrow> nat (toSlicePos r i) = unat i - unat (logOffset r) - 1"
proof -
  assume wf: "log_wf r" and e: "entryAt r i = Some x"
  then have "unat (logOffset r) < unat i" "unat i \<le> lastIndex r"
    by (auto simp: entryAt_eq split: if_splits)
  moreover have "unat (logOffset r) < 2 ^ 63" "lastIndex r < 2 ^ 63"
    using wf by (auto simp: log_wf_def lastIndex_def)
  ultimately have "toSlicePos r i = int (unat i - unat (logOffset r) - 1)"
    by (intro toSlicePos_eq(1)) auto
  then show ?thesis by simp
qed

lemma log_wf_take: "log_wf r \<Longrightarrow> rlog q = take k (rlog r) \<Longrightarrow> logOffset q = logOffset r \<Longrightarrow> log_wf q"
  by (auto simp: log_wf_def contiguous_take)

lemma entryAt_take:
  assumes "log_wf r" and "rlog q = take k (rlog r)" and "logOffset q = logOffset r"
  shows "entryAt q j = (if unat j \<le> unat (logOffset r) + k then entryAt r j else None)"
  using assms log_wf_take [OF assms]
  by (auto simp: entryAt_eq lastIndex_def)

lemma entryAt_append:
  assumes "log_wf q" and "rlog q = rlog r @ es" and "logOffset q = logOffset r"
    and "unat j \<le> lastIndex r"
  shows "entryAt q j = entryAt r j"
proof -
  have "log_wf r" using assms by (simp add: log_wf_def)
  then show ?thesis
    using assms by (auto simp: entryAt_eq lastIndex_def nth_append)
qed

lemma unat_expected:
  "log_wf r \<Longrightarrow> unat (logOffset r + of_nat (length (rlog r)) + 1) = lastIndex r + 1"
  by (simp add: log_wf_def lastIndex_def unat_word_ariths unat_of_nat take_bit_nat_eq_self)

lemma scanEntries_effect:
  assumes wf: "log_wf r" and con: "contiguous n es" and sc: "scanEntries 0 0 es r = (Inr f, r1)"
  shows "logOffset r1 = logOffset r \<and> log_wf r1 \<and> f \<le> length es
      \<and> (\<forall>j. unat j \<le> n + f \<longrightarrow> entryAt r1 j = entryAt r j)
      \<and> (\<forall>e\<in>set (take f es). \<exists>x. entryAt r (Index e) = Some x \<and> Term x = Term e)
      \<and> ((\<forall>e\<in>set es. \<forall>x. entryAt r (Index e) = Some x \<longrightarrow> Term x = Term e) \<longrightarrow> rlog r1 = rlog r)"
proof (cases rule: scanEntries_cases [OF sc, case_names agree conflict])
  case (agree pre post)
  then show ?thesis using wf by simp
next
  case (conflict pre e post x s)
  have fe: "f = length pre" using conflict by simp
  have ie: "unat (Index e) = n + f + 1" using con conflict fe by simp
  have t: "rlog r1 = take (n + f - unat (logOffset r)) (rlog r)" "logOffset r1 = logOffset r"
    using conflict toSlicePos_entryAt [OF wf conflict(3)] ie by simp_all
  have "unat (logOffset r) \<le> n + f"
    using conflict(3) ie by (auto simp: entryAt_eq [OF wf] split: if_splits)
  then have "\<forall>j. unat j \<le> n + f \<longrightarrow> entryAt r1 j = entryAt r j"
    using entryAt_take [OF wf t] by simp
  moreover have "log_wf r1" using wf t by (rule log_wf_take)
  ultimately show ?thesis using conflict fe t by auto
qed

text \<open>
  Scanning, the guard and appending together. \<open>n\<close> is the index before the new entries. Behind it
  the new log has the new entries; up to it nothing changes; and where no term differs
  nothing of the old log is lost.
\<close>

lemma append_core:
  assumes wf: "log_wf r" and con: "contiguous n es" and bound: "n + length es < 2 ^ 63"
    and sc: "scanEntries 0 0 es r = (Inr f, r1)"
    and guard: "drop f es = [] \<or> Index (hd (drop f es)) = logOffset r1 + of_nat (length (rlog r1)) + 1"
    and r2: "rlog r2 = rlog r1 @ drop f es" "logOffset r2 = logOffset r1"
  shows "log_wf r2"
    and "\<forall>e\<in>set es. \<exists>x. entryAt r2 (Index e) = Some x \<and> Term x = Term e
           \<and> (x = e \<or> entryAt r (Index e) = Some x)"
    and "unat j \<le> n \<Longrightarrow> entryAt r2 j = entryAt r j"
    and "(\<And>e x. e \<in> set es \<Longrightarrow> entryAt r (Index e) = Some x \<Longrightarrow> Term x = Term e) \<Longrightarrow>
           \<exists>new. rlog r2 = rlog r @ new"
proof -
  note eff = scanEntries_effect [OF wf con sc]
  have wf1: "log_wf r1" and fle: "f \<le> length es"
    and keep: "\<And>j. unat j \<le> n + f \<Longrightarrow> entryAt r1 j = entryAt r j"
    and pre: "\<forall>e\<in>set (take f es). \<exists>x. entryAt r (Index e) = Some x \<and> Term x = Term e"
    using eff by blast+
  have new: "contiguous (n + f) (drop f es)" using con fle by (rule contiguous_drop)
  have pos: "drop f es = [] \<or> n + f = lastIndex r1"
    using guard new unat_expected [OF wf1] by (cases "drop f es") (auto simp: word_unat_eq_iff)
  show wf2: "log_wf r2"
  proof (cases "drop f es = []")
    case True
    then show ?thesis using wf1 r2 by (simp add: log_wf_def)
  next
    case False
    then show ?thesis
      using wf1 r2 pos new bound fle by (auto simp: log_wf_def lastIndex_def)
  qed
  have low: "entryAt r2 j = entryAt r1 j" if "unat j \<le> lastIndex r1" for j
    using that by (rule entryAt_append [OF wf2 r2])
  have all: "entryAt r2 j = entryAt r j" if "unat j \<le> n + f" for j
  proof (cases "drop f es = []")
    case True
    then have "entryAt r2 j = entryAt r1 j" using r2 by (intro entryAt_cong) auto
    with that keep show ?thesis by simp
  next
    case False
    with that pos low keep show ?thesis by simp
  qed
  then show "unat j \<le> n \<Longrightarrow> entryAt r2 j = entryAt r j" by simp
  show "\<forall>e\<in>set es. \<exists>x. entryAt r2 (Index e) = Some x \<and> Term x = Term e
      \<and> (x = e \<or> entryAt r (Index e) = Some x)"
  proof
    fix e assume "e \<in> set es"
    then consider "e \<in> set (take f es)" | "e \<in> set (drop f es)"
      by (metis append_take_drop_id set_append UnE)
    then show "\<exists>x. entryAt r2 (Index e) = Some x \<and> Term x = Term e
        \<and> (x = e \<or> entryAt r (Index e) = Some x)"
    proof cases
      case 1
      then have "unat (Index e) \<le> n + f"
        using contiguous_bounds [OF contiguous_take [OF con]] fle by fastforce
      with 1 pre all show ?thesis by fastforce
    next
      case 2
      then have "entryAt r2 (Index e) = Some e" using r2 by (simp add: entryAt_iff [OF wf2])
      then show ?thesis by simp
    qed
  qed
  show "\<exists>new. rlog r2 = rlog r @ new"
    if "\<And>e x. e \<in> set es \<Longrightarrow> entryAt r (Index e) = Some x \<Longrightarrow> Term x = Term e"
  proof -
    have "rlog r1 = rlog r" using that eff by blast
    with r2 show ?thesis by (intro exI [of _ "drop f es"]) simp
  qed
qed

lemma acceptLeader_frame [simp]:
  "rlog (acceptLeader t l r) = rlog r"
  "logOffset (acceptLeader t l r) = logOffset r"
  "commitIndex (acceptLeader t l r) = commitIndex r"
  "lastApplied (acceptLeader t l r) = lastApplied r"
  "stateMachine (acceptLeader t l r) = stateMachine r"
  "env (acceptLeader t l r) = env r"
  "rwal (acceptLeader t l r) = rwal r"
  "node_id (acceptLeader t l r) = node_id r"
  "peers (acceptLeader t l r) = peers r"
  "lastSnapshotIndex (acceptLeader t l r) = lastSnapshotIndex r"
  "leaderID (acceptLeader t l r) = l"
  by (simp_all add: acceptLeader_def Let_def)

lemma acceptLeader_term:
  "currentTerm r \<le> t \<Longrightarrow> currentTerm (acceptLeader t l r) = t"
  "currentTerm r \<le> t \<Longrightarrow> rstate (acceptLeader t l r) = Follower"
  "currentTerm r \<le> t \<Longrightarrow> votedFor (acceptLeader t l r) = (if t = currentTerm r then votedFor r else None)"
  by (auto simp: acceptLeader_def Let_def)

lemma acceptLeader_log [simp]:
  "log_wf (acceptLeader t l r) = log_wf r"
  "entryAt (acceptLeader t l r) i = entryAt r i"
  "lastIndex (acceptLeader t l r) = lastIndex r"
  by (simp_all add: log_wf_def lastIndex_def entryAt_cong [of "acceptLeader t l r" r])

lemma persistEntries_env: "persistEntries es r = (res, r') \<Longrightarrow> \<exists>s. r' = r\<lparr>env := s\<rparr>"
proof (induction es arbitrary: r)
  case Nil
  then show ?case by (intro exI [of _ "env r"]) simp
next
  case (Cons e es)
  obtain x s where a: "Append (rwal r) e (env r) = (x, s)" by fastforce
  show ?case
  proof (cases x)
    case Inl
    with Cons.prems a show ?thesis by auto
  next
    case (Inr u)
    with Cons.prems a have "persistEntries es (r\<lparr>env := s\<rparr>) = (res, r')" by simp
    from Cons.IH [OF this] show ?thesis by auto
  qed
qed

lemma updateCommit_frame [simp]:
  "rlog (updateCommit c r) = rlog r"
  "logOffset (updateCommit c r) = logOffset r"
  "lastApplied (updateCommit c r) = lastApplied r"
  "stateMachine (updateCommit c r) = stateMachine r"
  "currentTerm (updateCommit c r) = currentTerm r"
  "votedFor (updateCommit c r) = votedFor r"
  "rstate (updateCommit c r) = rstate r"
  "env (updateCommit c r) = env r"
  "rwal (updateCommit c r) = rwal r"
  "node_id (updateCommit c r) = node_id r"
  "lastSnapshotIndex (updateCommit c r) = lastSnapshotIndex r"
  by (simp_all add: updateCommit_def Let_def)

lemma applyCommitted_frame [simp]:
  "rlog (applyCommitted r) = rlog r"
  "logOffset (applyCommitted r) = logOffset r"
  "commitIndex (applyCommitted r) = commitIndex r"
  "currentTerm (applyCommitted r) = currentTerm r"
  "votedFor (applyCommitted r) = votedFor r"
  "rstate (applyCommitted r) = rstate r"
  "env (applyCommitted r) = env r"
  "rwal (applyCommitted r) = rwal r"
  "node_id (applyCommitted r) = node_id r"
  "lastSnapshotIndex (applyCommitted r) = lastSnapshotIndex r"
  by (simp_all add: applyCommitted_eq)

text \<open>What the end of the handler, committing and applying, does to the log.\<close>

lemma finishAppend_log:
  assumes "log_wf r"
  shows "log_wf (finishAppend c r)" and "lastIndex (finishAppend c r) = lastIndex r"
    and "entryAt (finishAppend c r) j = (if logOffset (finishAppend c r) < j then entryAt r j else None)"
proof -
  let ?q = "applyCommitted (updateCommit c r)"
  have q: "log_wf ?q = log_wf r" "lastIndex ?q = lastIndex r" "entryAt ?q j = entryAt r j"
    by (simp_all add: log_wf_def lastIndex_def entryAt_cong [of ?q r])
  show "log_wf (finishAppend c r)" "lastIndex (finishAppend c r) = lastIndex r"
    "entryAt (finishAppend c r) j = (if logOffset (finishAppend c r) < j then entryAt r j else None)"
    using maybeSnapshot_log [where r = ?q] q assms by (simp_all add: finishAppend_def)
qed

text \<open>The ways through the handler.\<close>

lemma HandleAppendEntries_cases:
  assumes "HandleAppendEntries r args = (reply, r')"
  obtains (stale) "aea_Term args < currentTerm r" "reply = rejectAppend r" "r' = r"
  | (mismatch) ra where "currentTerm r \<le> aea_Term args"
      "ra = acceptLeader (aea_Term args) (aea_LeaderID args) r" "prevMismatch ra args"
      "reply = rejectAppend ra" "r' = ra"
  | (truncate_error) ra err where "currentTerm r \<le> aea_Term args"
      "ra = acceptLeader (aea_Term args) (aea_LeaderID args) r" "\<not> prevMismatch ra args"
      "scanEntries 0 0 (aea_Entries args) ra = (Inl err, r')" "reply = rejectAppend r'"
  | (gap) ra f where "currentTerm r \<le> aea_Term args"
      "ra = acceptLeader (aea_Term args) (aea_LeaderID args) r" "\<not> prevMismatch ra args"
      "scanEntries 0 0 (aea_Entries args) ra = (Inr f, r')" "drop f (aea_Entries args) \<noteq> []"
      "Index (hd (drop f (aea_Entries args))) \<noteq> logOffset r' + of_nat (length (rlog r')) + 1"
      "reply = (rejectAppend r')\<lparr>aer_ConflictIndex := logOffset r' + of_nat (length (rlog r')) + 1\<rparr>"
  | (append) ra f r1 res s where "currentTerm r \<le> aea_Term args"
      "ra = acceptLeader (aea_Term args) (aea_LeaderID args) r" "\<not> prevMismatch ra args"
      "scanEntries 0 0 (aea_Entries args) ra = (Inr f, r1)"
      "drop f (aea_Entries args) = [] \<or>
         Index (hd (drop f (aea_Entries args))) = logOffset r1 + of_nat (length (rlog r1)) + 1"
      "persistEntries (drop f (aea_Entries args)) (r1\<lparr>rlog := rlog r1 @ drop f (aea_Entries args)\<rparr>) =
         (res, r1\<lparr>rlog := rlog r1 @ drop f (aea_Entries args), env := s\<rparr>)"
      "isl res \<longrightarrow> r' = r1\<lparr>rlog := rlog r1 @ drop f (aea_Entries args), env := s\<rparr> \<and> reply = rejectAppend r'"
      "\<not> isl res \<longrightarrow>
         r' = finishAppend (aea_LeaderCommit args) (r1\<lparr>rlog := rlog r1 @ drop f (aea_Entries args), env := s\<rparr>)
         \<and> reply = (rejectAppend r')\<lparr>aer_Success := True\<rparr>"
proof (cases "aea_Term args < currentTerm r")
  case True
  with assms show thesis by (intro stale) (auto simp: HandleAppendEntries_def)
next
  case False
  define ra where "ra = acceptLeader (aea_Term args) (aea_LeaderID args) r"
  have le: "currentTerm r \<le> aea_Term args" using False by simp
  show thesis
  proof (cases "prevMismatch ra args")
    case True
    with assms False show thesis
      by (intro mismatch [OF le ra_def]) (auto simp: HandleAppendEntries_def Let_def ra_def)
  next
    case prev: False
    obtain x r1 where sc: "scanEntries 0 0 (aea_Entries args) ra = (x, r1)" by fastforce
    show thesis
    proof (cases x)
      case (Inl err)
      with assms False prev sc show thesis
        by (intro truncate_error [OF le ra_def, of err]) (auto simp: HandleAppendEntries_def Let_def ra_def)
    next
      case (Inr f)
      let ?new = "drop f (aea_Entries args)"
      let ?r2 = "r1\<lparr>rlog := rlog r1 @ ?new\<rparr>"
      show thesis
      proof (cases "?new \<noteq> [] \<and> Index (hd ?new) \<noteq> logOffset r1 + of_nat (length (rlog r1)) + 1")
        case True
        with assms False prev sc Inr show thesis
          by (intro gap [OF le ra_def, of f]) (auto simp: HandleAppendEntries_def Let_def ra_def)
      next
        case guard: False
        obtain res r3 where pe: "persistEntries ?new ?r2 = (res, r3)" by fastforce
        then obtain s where s: "r3 = ?r2\<lparr>env := s\<rparr>" using persistEntries_env by blast
        have "HandleAppendEntries r args =
            (case res of Inl _ \<Rightarrow> (rejectAppend r3, r3)
             | Inr _ \<Rightarrow> ((rejectAppend (finishAppend (aea_LeaderCommit args) r3))\<lparr>aer_Success := True\<rparr>,
                        finishAppend (aea_LeaderCommit args) r3))"
          using False prev sc Inr pe
          by (simp only: HandleAppendEntries_def Let_def ra_def [symmetric] finishAppend_def if_False
                if_not_P [OF guard] prod.case sum.case split_beta fst_conv snd_conv split: sum.splits)
        with assms s pe sc Inr guard prev show thesis
          by (intro append [OF le ra_def, of f r1 res s]) (auto split: sum.splits)
      qed
    qed
  qed
qed
end
