(* ===== verification/Raft_Recovery.thy ===== *)
theory Raft_Recovery
  imports Raft_Replication
begin

text \<open>
  Snapshot transfer and crash recovery, \<^verbatim>\<open>raft/raft.go\<close>: sending the snapshot file to a peer, installing a
  received snapshot, and rebuilding a node from its snapshot file and write-ahead log.
\<close>

subsection \<open>InstallSnapshot\<close>

text \<open>
  \<^verbatim>\<open>sendSnapshotToPeer\<close> up to the network call: the arguments to send and the index of the snapshot
  sent, or nothing if there is no snapshot or it cannot be read.
\<close>

definition sendSnapshotArgs :: "raft \<Rightarrow> u64 \<Rightarrow> u64 \<Rightarrow> (u64 \<times> InstallSnapshotArgs) option \<times> raft" where
  "sendSnapshotArgs r trm leader =
     (case LoadSnapshot (snapshotPath (node_id r)) (env r) of
        (Inl err, s) \<Rightarrow> (None, r\<lparr>env := s\<rparr>)
      | (Inr None, s) \<Rightarrow> (None, r\<lparr>env := s\<rparr>)
      | (Inr (Some snapshot), s) \<Rightarrow>
          (case Encode (range_order s) snapshot of
             Inl err \<Rightarrow> (None, r\<lparr>env := s\<rparr>)
           | Inr encoded \<Rightarrow>
               (Some (LastIncludedIndex snapshot,
                      \<lparr>isa_Term = trm, isa_LeaderID = leader,
                       isa_LastIncludedIndex = LastIncludedIndex snapshot,
                       isa_LastIncludedTerm = LastIncludedTerm snapshot, isa_Data = encoded\<rparr>),
                r\<lparr>env := s\<rparr>)))"

text \<open>The rest of it, after the call returned without an error.\<close>

definition sendSnapshotReply :: "raft \<Rightarrow> u64 \<Rightarrow> u64 \<Rightarrow> InstallSnapshotReply \<Rightarrow> raft" where
  "sendSnapshotReply r peerID snapIndex reply =
     (if isr_Term reply > currentTerm r
      then r\<lparr>currentTerm := isr_Term reply, rstate := Follower, votedFor := None\<rparr>
      else r\<lparr>nextIndex := AList.update peerID (snapIndex + 1) (nextIndex r),
             matchIndex := AList.update peerID snapIndex (matchIndex r)\<rparr>)"

definition HandleInstallSnapshot :: "raft \<Rightarrow> InstallSnapshotArgs \<Rightarrow> InstallSnapshotReply \<times> raft" where
  "HandleInstallSnapshot r args =
     (if isa_Term args < currentTerm r then (\<lparr>isr_Term = currentTerm r\<rparr>, r)
      else
        let r = (if isa_Term args \<ge> currentTerm r \<and> rstate r \<noteq> Follower then r\<lparr>rstate := Follower\<rparr> else r);
            r = (if isa_Term args > currentTerm r then r\<lparr>currentTerm := isa_Term args, votedFor := None\<rparr> else r);
            r = resetElectionTimer r
        in (case DecodeSnapshot (isa_Data args) of
              Inl err \<Rightarrow> (\<lparr>isr_Term = currentTerm r\<rparr>, r)
            | Inr snapshot \<Rightarrow>
                (case SaveSnapshot (snapshotPath (node_id r)) snapshot (env r) of
                   (Inl err, s) \<Rightarrow> (\<lparr>isr_Term = currentTerm r\<rparr>, r\<lparr>env := s\<rparr>)
                 | (Inr _, s) \<Rightarrow>
                     (\<lparr>isr_Term = currentTerm r\<rparr>,
                      r\<lparr>env := s, stateMachine := Restore (stateMachine r) (snap_Data snapshot),
                        logOffset := LastIncludedIndex snapshot, lastApplied := LastIncludedIndex snapshot,
                        commitIndex := LastIncludedIndex snapshot, rlog := []\<rparr>))))"

subsection \<open>Recovery\<close>

text \<open>The loop that applies the surviving entries.\<close>

fun replay :: "entry list \<Rightarrow> raft \<Rightarrow> raft" where
  "replay [] r = r"
| "replay (entry # es) r =
     replay es (r\<lparr>lastApplied := Index entry, stateMachine := Apply (stateMachine r) entry\<rparr>)"

definition loadPersistedState :: "raft \<Rightarrow> (go_error + unit) \<times> raft" where
  "loadPersistedState r =
     (case LoadSnapshot (snapshotPath (node_id r)) (env r) of
        (Inl err, s) \<Rightarrow> (Inl (Wrap ''failed to load snapshot : '' err), r\<lparr>env := s\<rparr>)
      | (Inr snapshot, s) \<Rightarrow>
          let r = (case snapshot of
                     None \<Rightarrow> r\<lparr>env := s\<rparr>
                   | Some snapshot \<Rightarrow>
                       r\<lparr>env := s, stateMachine := Restore (stateMachine r) (snap_Data snapshot),
                         logOffset := LastIncludedIndex snapshot, lastApplied := LastIncludedIndex snapshot,
                         commitIndex := LastIncludedIndex snapshot\<rparr>)
          in (case ReadAll (rwal r) (env r) of
                (Inl err, s) \<Rightarrow> (Inl (Wrap (''cannot read WAL entries for node '' @ decimal (unat (node_id r)) @ '': '') err), r\<lparr>env := s\<rparr>)
              | (Inr allEntries, s) \<Rightarrow>
                  let survivors = filter (\<lambda>entry. Index entry > logOffset r) allEntries
                  in (Inr (), replay survivors (r\<lparr>env := s, rlog := survivors\<rparr>))))"

text \<open>The fields \<^verbatim>\<open>NewRaft\<close> does not name have their zero values.\<close>

definition newNode :: "u64 \<Rightarrow> (u64, gostring) gomap \<Rightarrow> WAL \<Rightarrow> StateMachine \<Rightarrow> os \<Rightarrow> nat list \<Rightarrow> raft" where
  "newNode n ps w sm s rnd =
     \<lparr>currentTerm = 0, votedFor = None, rlog = [], logOffset = 0, commitIndex = 0, lastApplied = 0,
      nextIndex = [], matchIndex = [], node_id = n, rstate = Follower, peers = ps, rwal = w,
      electionTimer = None, stateMachine = sm, lastSnapshotIndex = 0, leaderID = 0,
      leaderGeneration = 0, env = s, rands = rnd\<rparr>"

definition NewRaft ::
  "u64 \<Rightarrow> (u64, gostring) gomap \<Rightarrow> WAL \<Rightarrow> StateMachine \<Rightarrow> os \<Rightarrow> nat list \<Rightarrow> (go_error + raft) \<times> os" where
  "NewRaft n ps w sm s rnd =
     (case loadPersistedState (newNode n ps w sm s rnd) of
        (Inl err, r) \<Rightarrow> (Inl (Wrap ''failed to load persisted state: '' err), env r)
      | (Inr _, r) \<Rightarrow> (Inr r, env r))"

end
