(* ===== verification/Transport.thy ===== *)
theory Transport
  imports Raft_Recovery
begin

text \<open>
  The transport, \<^verbatim>\<open>transport/transport.go\<close>: framing of messages on a connection, the client methods that
  make one call per connection, and the server side that decodes a request, calls the node and
  answers. The locale \<open>rpc_channel\<close> states what a pair of codecs and a message number pair must satisfy
  for a call over the network to be the call of the handler; it is interpreted for the three calls.
\<close>

subsection \<open>Framing\<close>

type_synonym MessageType = byte

definition MsgRequestVoteArgs :: MessageType where "MsgRequestVoteArgs = 1"
definition MsgRequestVoteReply :: MessageType where "MsgRequestVoteReply = 2"
definition MsgAppendEntriesArgs :: MessageType where "MsgAppendEntriesArgs = 3"
definition MsgAppendEntriesReply :: MessageType where "MsgAppendEntriesReply = 4"
definition MsgInstallSnapshotArgs :: MessageType where "MsgInstallSnapshotArgs = 5"
definition MsgInstallSnapshotReply :: MessageType where "MsgInstallSnapshotReply = 6"

lemmas msg_defs = MsgRequestVoteArgs_def MsgRequestVoteReply_def MsgAppendEntriesArgs_def
  MsgAppendEntriesReply_def MsgInstallSnapshotArgs_def MsgInstallSnapshotReply_def

text \<open>
  One side's view of a connection: the bytes it wrote, what happens to its next writes (as in
  \<open>os\<close>, \<open>Fail k\<close> is an error after \<open>k\<close> bytes), and the bytes the other side will have sent when
  it closes the connection, which may depend on what it was sent.
\<close>

record conn =
  sent :: bytes
  conn_faults :: "fault list"
  remote :: "bytes \<Rightarrow> bytes"

definition conn_write :: "bytes \<Rightarrow> conn \<Rightarrow> (go_error + unit) \<times> conn" where
  "conn_write bs c =
     (case conn_faults c of
        [] \<Rightarrow> (Inr (), c\<lparr>sent := sent c @ bs\<rparr>)
      | Succeed # fs \<Rightarrow> (Inr (), c\<lparr>sent := sent c @ bs, conn_faults := fs\<rparr>)
      | Fail k # fs \<Rightarrow> (Inl OsErr, c\<lparr>sent := sent c @ take k bs, conn_faults := fs\<rparr>))"

definition incoming :: "conn \<Rightarrow> bytes" where
  "incoming c = remote c (sent c)"

definition writeMessage :: "conn \<Rightarrow> MessageType \<Rightarrow> bytes \<Rightarrow> (go_error + unit) \<times> conn" where
  "writeMessage c msgType payload =
     obind (owrap ''failed to write message type: '' (conn_write [msgType] c)) (\<lambda>_ c.
     obind (owrap ''failed to write length: '' (conn_write (PutUint32 (of_nat (length payload))) c)) (\<lambda>_ c.
       owrap ''failed to write payload: '' (conn_write payload c)))"

text \<open>Reading is a function of the bytes that come in.\<close>

definition readMessage :: "(MessageType \<times> bytes) reader" where
  "readMessage conn =
     sbind (wrap_err ''failed to read message type: '' (ReadFull 1 conn)) (\<lambda>(msgTypeBuf, conn).
     sbind (wrap_err ''failed to read length: '' (ReadFull 4 conn)) (\<lambda>(lenBuf, conn).
     sbind (wrap_err ''failed to read payload: '' (ReadFull (unat (Uint32 lenBuf)) conn)) (\<lambda>(payload, conn).
       Inr ((hd msgTypeBuf, payload), conn))))"

subsection \<open>Client\<close>

text \<open>The network is a parameter: dialling an address fails or gives a connection.\<close>

type_synonym network = "gostring \<Rightarrow> go_error + conn"

definition callPeer ::
  "network \<Rightarrow> gostring \<Rightarrow> MessageType \<Rightarrow> MessageType \<Rightarrow> go_error + bytes \<Rightarrow> (bytes \<Rightarrow> go_error + 'r) \<Rightarrow> go_error + 'r" where
  "callPeer net peerAddr argsType replyType encoded dec =
     sbind (net peerAddr) (\<lambda>c.
     sbind encoded (\<lambda>encodedArgs.
       case writeMessage c argsType encodedArgs of
         (Inl err, c) \<Rightarrow> Inl err
       | (Inr _, c) \<Rightarrow>
           sbind (readMessage (incoming c)) (\<lambda>((msgType, payload), _).
             if msgType \<noteq> replyType then Inl (Errorf (''unexpected message type: '' @ decimal (unat msgType))) else dec payload)))"

definition SendRequestVote :: "network \<Rightarrow> gostring \<Rightarrow> RequestVoteArgs \<Rightarrow> go_error + RequestVoteReply" where
  "SendRequestVote net peerAddr args =
     callPeer net peerAddr MsgRequestVoteArgs MsgRequestVoteReply 
       (wrap_err ''failed to encode args: '' (EncodeRequestVoteArgs args)) DecodeRequestVoteReply"

definition SendAppendEntries :: "network \<Rightarrow> gostring \<Rightarrow> AppendEntriesArgs \<Rightarrow> go_error + AppendEntriesReply" where
  "SendAppendEntries net peerAddr args =
     callPeer net peerAddr MsgAppendEntriesArgs MsgAppendEntriesReply 
       (wrap_err ''failed to encode args :'' (EncodeAppendEntriesArgs args)) DecodeAppendEntriesReply"

definition SendInstallSnapshot :: "network \<Rightarrow> gostring \<Rightarrow> InstallSnapshotArgs \<Rightarrow> go_error + InstallSnapshotReply" where
  "SendInstallSnapshot net peerAddr args =
     callPeer net peerAddr MsgInstallSnapshotArgs MsgInstallSnapshotReply 
       (wrap_err ''failed to encode args : '' (EncodeInstallSnapshotArgs args)) DecodeInstallSnapshotReply"

subsection \<open>Server\<close>

text \<open>
  \<^verbatim>\<open>handleConnection\<close>: the connection after the answer was written and the new state of the node. Malformed
  requests and unknown message types close the connection without an answer; an error while writing
  the answer is ignored.
\<close>

fun answer :: "conn \<Rightarrow> MessageType \<Rightarrow> go_error + bytes \<Rightarrow> conn" where
  "answer c msgType (Inl err) = c"
| "answer c msgType (Inr encodedReply) = snd (writeMessage c msgType encodedReply)"

definition handleConnection :: "conn \<Rightarrow> raft \<Rightarrow> failure + conn \<times> raft" where
  "handleConnection c r =
     (case readMessage (incoming c) of
        Inl err \<Rightarrow> Inr (c, r)
      | Inr ((msgType, payload), _) \<Rightarrow>
          if msgType = MsgRequestVoteArgs then
            (case DecodeRequestVoteArgs payload of
               Inl err \<Rightarrow> Inr (c, r)
             | Inr args \<Rightarrow>
                 let (reply, r) = HandleRequestVote r args
                 in Inr (answer c MsgRequestVoteReply (EncodeRequestVoteReply reply), r))
          else if msgType = MsgAppendEntriesArgs then
            (case DecodeAppendEntriesArgs payload of
               Inl Panic \<Rightarrow> Inl Panic
             | Inl (Error err) \<Rightarrow> Inr (c, r)
             | Inr args \<Rightarrow>
                 let (reply, r) = HandleAppendEntries r args
                 in Inr (answer c MsgAppendEntriesReply (EncodeAppendEntriesReply reply), r))
          else if msgType = MsgInstallSnapshotArgs then
            (case DecodeInstallSnapshotArgs payload of
               Inl err \<Rightarrow> Inr (c, r)
             | Inr args \<Rightarrow>
                 let (reply, r) = HandleInstallSnapshot r args
                 in Inr (answer c MsgInstallSnapshotReply (EncodeInstallSnapshotReply reply), r))
          else Inr (c, r))"

text \<open>
  \<^verbatim>\<open>StartServer\<close>. \<open>listen\<close> is the outcome of listening and \<open>accepts\<close> the outcomes of
  the calls of \<^verbatim>\<open>Accept\<close> so far; errors among them are skipped. Each connection is
  served by a goroutine of its own, which takes the lock of the node once; \<open>order\<close> is the order in which
  they get it. A panic in one of them ends the process.
\<close>

fun acceptLoop :: "(go_error + conn) list \<Rightarrow> conn list" where
  "acceptLoop [] = []"
| "acceptLoop (Inl err # accepts) = acceptLoop accepts"
| "acceptLoop (Inr c # accepts) = c # acceptLoop accepts"

fun serveAll :: "conn list \<Rightarrow> raft \<Rightarrow> failure + conn list \<times> raft" where
  "serveAll [] r = Inr ([], r)"
| "serveAll (c # cs) r =
     sbind (handleConnection c r) (\<lambda>(c, r).
     sbind (serveAll cs r) (\<lambda>(cs, r). Inr (c # cs, r)))"

definition StartServer ::
  "go_error + unit \<Rightarrow> (go_error + conn) list \<Rightarrow> (conn list \<Rightarrow> conn list) \<Rightarrow> raft \<Rightarrow> failure + conn list \<times> raft" where
  "StartServer listen accepts order r =
     sbind (may_panic (wrap_err ''failed to listen : '' listen)) (\<lambda>_. serveAll (order (acceptLoop accepts)) r)"

text \<open>
  A network whose every address is served by the node \<open>r\<close>; \<open>fs\<close> and \<open>gs\<close> are the faults the client and the
  server meet when writing.
\<close>

definition accepted :: "fault list \<Rightarrow> bytes \<Rightarrow> conn" where
  "accepted gs request = \<lparr>sent = [], conn_faults = gs, remote = (\<lambda>_. request)\<rparr>"

definition served_by :: "fault list \<Rightarrow> fault list \<Rightarrow> raft \<Rightarrow> network" where
  "served_by fs gs r = (\<lambda>addr. Inr \<lparr>sent = [], conn_faults = fs,
     remote = (\<lambda>request. case handleConnection (accepted gs request) r of Inl _ \<Rightarrow> [] | Inr (c, _) \<Rightarrow> sent c)\<rparr>)"

lemma accepted_incoming [simp]: "incoming (accepted gs request) = request"
  by (simp add: incoming_def accepted_def)

subsection \<open>Calls over the network\<close>

text \<open>The bytes of a message, and what of them is on the wire after a write.\<close>

definition message :: "MessageType \<Rightarrow> bytes \<Rightarrow> bytes" where
  "message msgType payload = [msgType] @ PutUint32 (of_nat (length payload)) @ payload"

lemma conn_write_cases:
  obtains fs where "conn_write bs c = (Inr (), c\<lparr>sent := sent c @ bs, conn_faults := fs\<rparr>)"
        "conn_faults c = [] \<Longrightarrow> fs = []"
  | k fs where "conn_write bs c = (Inl OsErr, c\<lparr>sent := sent c @ take k bs, conn_faults := fs\<rparr>)" "conn_faults c \<noteq> []"
  by (cases "conn_faults c"; cases "hd (conn_faults c)") (auto simp: conn_write_def)

lemma writeMessage_cases:
  obtains fs where "writeMessage c t p = (Inr (), c\<lparr>sent := sent c @ message t p, conn_faults := fs\<rparr>)"
  | err fs part lost where
      "writeMessage c t p = (Inl err, c\<lparr>sent := sent c @ part, conn_faults := fs\<rparr>)"
      "message t p = part @ lost" "conn_faults c \<noteq> []"
proof -
  let ?l = "PutUint32 (of_nat (length p))"
  consider (a) "fst (conn_write [t] c) \<noteq> Inr ()" | (b) "fst (conn_write [t] c) = Inr ()" by blast
  then show ?thesis
  proof cases
    case a
    then obtain k fs where "conn_write [t] c = (Inl OsErr, c\<lparr>sent := sent c @ take k [t], conn_faults := fs\<rparr>)" "conn_faults c \<noteq> []"
      by (cases rule: conn_write_cases [of "[t]" c]) auto
    then show ?thesis
      using that(2) [of _ fs "take k [t]" "drop k [t] @ ?l @ p"] by (simp add: writeMessage_def message_def)
  next
    case b
    then obtain fs1 where 1: "conn_write [t] c = (Inr (), c\<lparr>sent := sent c @ [t], conn_faults := fs1\<rparr>)" "conn_faults c = [] \<Longrightarrow> fs1 = []"
      by (cases rule: conn_write_cases [of "[t]" c]) auto
    let ?c1 = "c\<lparr>sent := sent c @ [t], conn_faults := fs1\<rparr>"
    show ?thesis
    proof (cases rule: conn_write_cases [of ?l ?c1])
      case (2 k fs)
      then show ?thesis
        using 1 that(2) [of _ fs "[t] @ take k ?l" "drop k ?l @ p"] by (fastforce simp: writeMessage_def message_def)
    next
      case c2: (1 fs2)
      let ?c2 = "c\<lparr>sent := sent c @ [t] @ ?l, conn_faults := fs2\<rparr>"
      show ?thesis
      proof (cases rule: conn_write_cases [of p ?c2])
        case (2 k fs)
        then show ?thesis
          using 1 c2 that(2) [of _ fs "[t] @ ?l @ take k p" "drop k p"] by (fastforce simp: writeMessage_def message_def)
      next
        case (1 fs3)
        then show ?thesis using \<open>conn_write [t] c = _\<close> c2 that(1) [of fs3] by (simp add: writeMessage_def message_def)
      qed
    qed
  qed
qed

interpretation framec: exact_codec "\<lambda>(t, p). message t p" readMessage "\<lambda>(t, p). length p < 2 ^ 32"
proof
  fix x :: "MessageType \<times> bytes" and rest
  assume "case x of (t, p) \<Rightarrow> length p < 2 ^ 32"
  then show "readMessage ((case x of (t, p) \<Rightarrow> message t p) @ rest) = Inr (x, rest)"
    by (auto simp: readMessage_def message_def ReadFull_def)
next
  fix bs rest and x :: "MessageType \<times> bytes"
  assume "readMessage bs = Inr (x, rest)"
  then obtain t l where "bs = [t] @ l @ snd x @ rest" "length l = 4" "length (snd x) = unat (Uint32 l)" "fst x = t"
    by (auto simp: readMessage_def ReadFull_Inr_iff length_Suc_conv)
  then show "(case x of (t, p) \<Rightarrow> length p < 2 ^ 32) \<and> bs = (case x of (t, p) \<Rightarrow> message t p) @ rest"
    using unat_u32_less [of "Uint32 l"]
    by (auto simp: message_def PutUint32_Uint32 case_prod_beta)
qed

lemma readMessage_frame: "length bs < 2 ^ 32 \<Longrightarrow> readMessage (message t bs) = Inr ((t, bs), [])"
  using framec.dec_enc [of "(t, bs)" "[]"] by simp

text \<open>
  A kind of call: encoders and decoders that are inverse to each other and a server that, handed
  a framed request, runs the handler and frames its reply.
\<close>

locale rpc_channel =
  fixes argsType replyType :: MessageType
    and encArgs :: "'a \<Rightarrow> go_error + bytes"
    and encReply :: "'r \<Rightarrow> go_error + bytes"
    and decReply :: "bytes \<Rightarrow> go_error + 'r"
    and handler :: "raft \<Rightarrow> 'a \<Rightarrow> 'r \<times> raft"
    and args_ok :: "'a \<Rightarrow> bool"
  assumes encArgs_total: "args_ok args \<Longrightarrow> \<exists>bs. encArgs args = Inr bs \<and> length bs < 2 ^ 32"
    and encReply_total: "\<exists>bs. encReply reply = Inr bs \<and> length bs < 2 ^ 32"
    and decReply_enc: "encReply reply = Inr bs \<Longrightarrow> decReply bs = Inr reply"
    and server: "args_ok args \<Longrightarrow> encArgs args = Inr bs \<Longrightarrow> handler r args = (reply, r') \<Longrightarrow>
      incoming c = message argsType bs \<Longrightarrow> handleConnection c r = Inr (answer c replyType (encReply reply), r')"
begin

lemma read_reply:
  assumes "encReply reply = Inr rb" and "length rb < 2 ^ 32" and "message replyType rb = part @ lost"
  shows "if lost = [] then readMessage part = Inr ((replyType, rb), []) else \<exists>err. readMessage part = Inl err"
  using assms(2,3) readMessage_frame [of rb replyType] framec.dec_torn [of "(replyType, rb)" part lost]
  by (cases "lost = []") auto

lemma answer_sent:
  obtains part lost where "sent (answer (accepted gs request) replyType (Inr rb)) = part"
    "message replyType rb = part @ lost" "gs = [] \<Longrightarrow> lost = []"
  by (cases rule: writeMessage_cases [of "accepted gs request" replyType rb]) (auto simp: accepted_def)

lemma call_is_handler:
  fixes addr :: gostring and msg :: string
  assumes ok: "args_ok args" and h: "handler r args = (reply, r')"
  defines "call \<equiv> \<lambda>fs gs. callPeer (served_by fs gs r) addr argsType replyType (wrap_err msg (encArgs args)) decReply"
  shows "call [] [] = Inr reply" and "call fs gs = Inr reply \<or> (\<exists>err. call fs gs = Inl err)"
proof -
  obtain bs where bs: "encArgs args = Inr bs" "length bs < 2 ^ 32" using ok encArgs_total by blast
  obtain rb where rb: "encReply reply = Inr rb" "length rb < 2 ^ 32" using encReply_total by blast
  have main: "call fs gs = Inr reply \<or> (\<exists>err. call fs gs = Inl err) \<and> (fs \<noteq> [] \<or> gs \<noteq> [])" for fs gs
  proof -
    define c where "c = projr (served_by fs gs r addr)"
    have c: "served_by fs gs r addr = Inr c" "conn_faults c = fs" "sent c = []" by (simp_all add: c_def served_by_def)
    have sv: "handleConnection (accepted gs (message argsType bs)) r =
        Inr (answer (accepted gs (message argsType bs)) replyType (Inr rb), r')"
      using server [OF ok bs(1) h, of "accepted gs (message argsType bs)"] rb(1) by (simp add: incoming_def accepted_def)
    obtain part lost where part: "sent (answer (accepted gs (message argsType bs)) replyType (Inr rb)) = part"
      "message replyType rb = part @ lost" "gs = [] \<Longrightarrow> lost = []" using answer_sent by blast
    have inc: "remote c (message argsType bs) = part" using sv part(1) by (simp add: c_def served_by_def)
    show ?thesis
    proof (cases rule: writeMessage_cases [of c argsType bs])
      case (1 fs')
      then show ?thesis
        using c bs(1) inc part(3) read_reply [OF rb part(2)] decReply_enc [OF rb(1)]
        by (cases "lost = []") (auto simp: call_def callPeer_def incoming_def)
    next
      case 2
      then show ?thesis using c bs(1) by (simp add: call_def callPeer_def)
    qed
  qed
  show "call [] [] = Inr reply" using main [of "[]" "[]"] by simp
  show "call fs gs = Inr reply \<or> (\<exists>err. call fs gs = Inl err)" using main by blast
qed

text \<open>The server runs the handler on a whole request and does nothing on a part of one.\<close>

lemma request_effect:
  assumes ok: "args_ok args" and h: "handler r args = (reply, r')" and "encArgs args = Inr bs"
    and "message argsType bs = part @ lost" and "incoming c = part"
  shows "\<exists>c'. handleConnection c r = Inr (c', if lost = [] then r' else r)"
proof (cases "lost = []")
  case True
  then show ?thesis using server [OF ok assms(3) h, of c] assms(4,5) by simp
next
  case False
  have "length bs < 2 ^ 32" using encArgs_total [OF ok] assms(3) by auto
  then obtain e where "readMessage part = Inl e"
    using False assms(4) framec.dec_torn [of "(argsType, bs)" part lost] by auto
  then show ?thesis using False assms(5) by (simp add: handleConnection_def)
qed

end

definition vote_args_ok :: "RequestVoteArgs \<Rightarrow> bool" where
  "vote_args_ok args \<longleftrightarrow> True"

definition append_args_ok :: "AppendEntriesArgs \<Rightarrow> bool" where
  "append_args_ok args \<longleftrightarrow>
     44 + (\<Sum>e\<leftarrow>aea_Entries args. 24 + length (Data e)) < 2 ^ 32"

definition snapshot_args_ok :: "InstallSnapshotArgs \<Rightarrow> bool" where
  "snapshot_args_ok args \<longleftrightarrow> 36 + length (isa_Data args) < 2 ^ 32"

interpretation voteRpc: rpc_channel MsgRequestVoteArgs MsgRequestVoteReply EncodeRequestVoteArgs
  EncodeRequestVoteReply DecodeRequestVoteReply HandleRequestVote vote_args_ok
proof
  fix args show "\<exists>bs. EncodeRequestVoteArgs args = Inr bs \<and> length bs < 2 ^ 32"
    by (simp add: EncodeRequestVoteArgs_def)
next
  fix reply show "\<exists>bs. EncodeRequestVoteReply reply = Inr bs \<and> length bs < 2 ^ 32"
    by (simp add: EncodeRequestVoteReply_def put_bool_def)
next
  fix args bs r reply r' c
  assume bs: "EncodeRequestVoteArgs args = Inr bs" and h: "HandleRequestVote r args = (reply, r')"
    and c: "incoming c = message MsgRequestVoteArgs bs"
  have "length bs < 2 ^ 32" using bs by (auto simp: EncodeRequestVoteArgs_def)
  then show "handleConnection c r =
      Inr (answer c MsgRequestVoteReply (EncodeRequestVoteReply reply), r')"
    using c h DecodeRequestVoteArgs_Encode [OF bs] by (simp add: handleConnection_def readMessage_frame)
qed (rule DecodeRequestVoteReply_Encode)

lemma length_put_entries: "length (concat (map put_entry es)) = (\<Sum>e\<leftarrow>es. 24 + length (Data e))"
  by (induction es) (simp_all add: put_entry_def EncodeEntry_def)

lemma sum_list_ge_elem: "x \<in> set xs \<Longrightarrow> f x \<le> (\<Sum>y\<leftarrow>xs. f y :: nat)"
  by (induction xs) auto

lemma append_args_entries:
  assumes "append_args_ok args"
  shows "list_all entry_fits (aea_Entries args)" and "length (aea_Entries args) < 2 ^ 32"
proof -
  let ?f = "\<lambda>e. 24 + length (Data e)"
  have "?f e < 2 ^ 32 - 44" if "e \<in> set (aea_Entries args)" for e
    using that assms sum_list_ge_elem [of e "aea_Entries args" ?f] by (simp add: append_args_ok_def)
  then show "list_all entry_fits (aea_Entries args)" by (force simp: list_all_iff entry_fits_def)
  have len: "length (es :: entry list) \<le> (\<Sum>e\<leftarrow>es. ?f e)" for es by (induction es) auto
  show "length (aea_Entries args) < 2 ^ 32"
    using assms len [of "aea_Entries args"] by (simp add: append_args_ok_def)
qed

interpretation appendRpc: rpc_channel MsgAppendEntriesArgs MsgAppendEntriesReply EncodeAppendEntriesArgs
  EncodeAppendEntriesReply DecodeAppendEntriesReply HandleAppendEntries append_args_ok
proof
  fix args assume "append_args_ok args"
  then show "\<exists>bs. EncodeAppendEntriesArgs args = Inr bs \<and> length bs < 2 ^ 32"
    by (simp add: EncodeAppendEntriesArgs_def append_args_ok_def length_put_entries)
next
  fix reply show "\<exists>bs. EncodeAppendEntriesReply reply = Inr bs \<and> length bs < 2 ^ 32"
    by (simp add: EncodeAppendEntriesReply_def put_bool_def)
next
  fix args bs r reply r' c
  assume ok: "append_args_ok args" and bs: "EncodeAppendEntriesArgs args = Inr bs"
    and h: "HandleAppendEntries r args = (reply, r')"
    and c: "incoming c = message MsgAppendEntriesArgs bs"
  have "length bs < 2 ^ 32"
    using bs ok by (auto simp: EncodeAppendEntriesArgs_def append_args_ok_def length_put_entries)
  then show "handleConnection c r =
      Inr (answer c MsgAppendEntriesReply (EncodeAppendEntriesReply reply), r')"
    using c h DecodeAppendEntriesArgs_Encode [OF append_args_entries [OF ok] bs]
    by (simp add: handleConnection_def readMessage_frame msg_defs)
qed (rule DecodeAppendEntriesReply_Encode)

interpretation snapRpc: rpc_channel MsgInstallSnapshotArgs MsgInstallSnapshotReply EncodeInstallSnapshotArgs
  EncodeInstallSnapshotReply DecodeInstallSnapshotReply HandleInstallSnapshot snapshot_args_ok
proof
  fix args assume "snapshot_args_ok args"
  then show "\<exists>bs. EncodeInstallSnapshotArgs args = Inr bs \<and> length bs < 2 ^ 32"
    by (simp add: EncodeInstallSnapshotArgs_def snapshot_args_ok_def)
next
  fix reply show "\<exists>bs. EncodeInstallSnapshotReply reply = Inr bs \<and> length bs < 2 ^ 32"
    by (simp add: EncodeInstallSnapshotReply_def)
next
  fix args bs r reply r' c
  assume ok: "snapshot_args_ok args" and bs: "EncodeInstallSnapshotArgs args = Inr bs"
    and h: "HandleInstallSnapshot r args = (reply, r')"
    and c: "incoming c = message MsgInstallSnapshotArgs bs"
  have "length bs < 2 ^ 32" and "length (isa_Data args) < 2 ^ 32"
    using bs ok by (auto simp: EncodeInstallSnapshotArgs_def snapshot_args_ok_def)
  then show "handleConnection c r =
      Inr (answer c MsgInstallSnapshotReply (EncodeInstallSnapshotReply reply), r')"
    using c h DecodeInstallSnapshotArgs_Encode [OF _ bs]
    by (simp add: handleConnection_def readMessage_frame msg_defs)
qed (rule DecodeInstallSnapshotReply_Encode)

text \<open>No bytes a client sends make the server panic.\<close>

lemma handleConnection_no_panic: "handleConnection c r \<noteq> Inl Panic"
  using DecodeAppendEntriesArgs_no_panic
  by (auto simp: handleConnection_def Let_def split: sum.splits prod.splits failure.splits)

lemma handleConnection_total: "\<exists>c' r'. handleConnection c r = Inr (c', r')"
proof (cases "handleConnection c r")
  case (Inl e)
  then have "e = Panic"
    by (auto simp: handleConnection_def Let_def split: sum.splits prod.splits failure.splits if_splits)
  then show ?thesis using Inl handleConnection_no_panic by blast
next
  case (Inr x)
  then show ?thesis by (cases x) auto
qed

lemma serveAll_total: "\<exists>cs' r'. serveAll cs r = Inr (cs', r')"
proof (induction cs arbitrary: r)
  case (Cons c cs)
  obtain c' q where c: "handleConnection c r = Inr (c', q)" using handleConnection_total by blast
  obtain cs' r' where "serveAll cs q = Inr (cs', r')" using Cons by blast
  with c show ?case by simp
qed simp

end
