(* ===== verification/Httpapi.thy ===== *)
theory Httpapi
  imports Raft_Recovery
begin

text \<open>
  The client API, \<^verbatim>\<open>httpapi/httpapi.go\<close>. A request is its query parameters as \<^verbatim>\<open>net/url\<close> has parsed them,
  a response a status code and a body; a handler that sets no status answers 200.
\<close>

type_synonym query = "(gostring \<times> gostring) list"

text \<open>\<^verbatim>\<open>Query().Get(k)\<close>: the first value of the parameter, the empty string if there is none.\<close>

definition query_get :: "query \<Rightarrow> gostring \<Rightarrow> gostring" where
  "query_get q k = (case map_of q k of None \<Rightarrow> [] | Some v \<Rightarrow> v)"

record response =
  status :: nat
  body :: bytes

definition StatusOK :: nat where "StatusOK = 200"
definition StatusNotFound :: nat where "StatusNotFound = 404"
definition StatusMisdirectedRequest :: nat where "StatusMisdirectedRequest = 421"
definition StatusInternalServerError :: nat where "StatusInternalServerError = 500"

lemmas status_defs = StatusOK_def StatusNotFound_def StatusMisdirectedRequest_def StatusInternalServerError_def

definition HandleGet :: "raft \<Rightarrow> query \<Rightarrow> response" where
  "HandleGet r req =
     (let key = query_get req (lit ''key'')
      in (case Raft_Get r key of
            Some value \<Rightarrow> \<lparr>status = StatusOK, body = value\<rparr>
          | None \<Rightarrow> \<lparr>status = StatusNotFound, body = lit ''not found''\<rparr>))"

text \<open>
  \<^verbatim>\<open>HandleSet\<close> takes the lock of the node twice: for \<^verbatim>\<open>IsLeader\<close>, and then for \<^verbatim>\<open>LeaderID\<close> or for \<^verbatim>\<open>Propose\<close>.
  \<open>isLeader\<close> is the answer of the first call, \<open>r\<close> the state the second one finds, which may no longer be that of
  a leader. \<open>errText\<close> is the text \<^verbatim>\<open>%v\<close> prints for an error.
\<close>

definition HandleSet :: "(go_error \<Rightarrow> string) \<Rightarrow> bool \<Rightarrow> raft \<Rightarrow> query \<Rightarrow> response \<times> raft" where
  "HandleSet errText isLeader r req =
     (if \<not> isLeader then
        (\<lparr>status = StatusMisdirectedRequest,
          body = lit (''not the leader; try node '' @ decimal (unat (LeaderID r)))\<rparr>, r)
      else
        let key = query_get req (lit ''key'');
            value = query_get req (lit ''value'');
            cmd = lit ''set '' @ key @ lit ''='' @ value
        in (case Propose r cmd of
              (Inl err, r) \<Rightarrow>
                (\<lparr>status = StatusInternalServerError, body = lit (''propose failed: '' @ errText err)\<rparr>, r)
            | (Inr index, r) \<Rightarrow>
                (\<lparr>status = StatusOK, body = lit (''proposed at index '' @ decimal (unat index))\<rparr>, r)))"

end
