(* ===== verification/Server.thy ===== *)
theory Server
  imports Transport Httpapi
begin

text \<open>
  The server process, \<^verbatim>\<open>cmd/server/main.go\<close>: opening the node's own log file, recovering the node and
  starting its timer, the commands read from standard input, the two HTTP routes, and the process as
  a whole as it meets inputs of the three kinds and runs the goroutines of its node.
\<close>

definition defaultPeers :: "(u64, gostring) gomap" where
  "defaultPeers = [(1, lit ''localhost:8080''), (2, lit ''localhost:8081''), (3, lit ''localhost:8082'')]"

definition walPath :: "u64 \<Rightarrow> string" where
  "walPath myID = ''node'' @ decimal (unat myID) @ ''.wal''"

text \<open>\<^verbatim>\<open>main\<close> up to \<^verbatim>\<open>r.Start()\<close>; an error ends the process.\<close>

definition startNode :: "u64 \<Rightarrow> os \<Rightarrow> nat list \<Rightarrow> (go_error + raft) \<times> os" where
  "startNode myID s rnd =
     (case Open (walPath myID) s of
        (Inl err, s) \<Rightarrow> (Inl (Wrap ''failed to open WAL: '' err), s)
      | (Inr w, s) \<Rightarrow>
          (case NewRaft myID defaultPeers w NewStateMachine s rnd of
             (Inl err, s) \<Rightarrow> (Inl (Wrap ''failed to create raft node:'' err), s)
           | (Inr r, s) \<Rightarrow> (Inr (Start r), s)))"

text \<open>One line of standard input: what is printed, and the new state.\<close>

definition stdinLine :: "(go_error \<Rightarrow> string) \<Rightarrow> raft \<Rightarrow> gostring \<Rightarrow> gostring \<times> raft" where
  "stdinLine errText r line =
     (if line = [] then ([], r)
      else if HasPrefix line (lit ''get '') then
        let key = TrimPrefix line (lit ''get '')
        in (case Raft_Get r key of
              Some val \<Rightarrow> (key @ lit '' = '' @ val @ [10], r)
            | None \<Rightarrow> (key @ lit '' not found'' @ [10], r))
      else
        (case Propose r line of
           (Inl err, r) \<Rightarrow> (lit (''propose failed : '' @ errText err) @ [10], r)
         | (Inr index, r) \<Rightarrow> (lit (''proposed at index '' @ decimal (unat index)) @ [10], r)))"

text \<open>The scanner loop: what is printed for all lines, and the new state.\<close>

fun stdinLoop :: "(go_error \<Rightarrow> string) \<Rightarrow> gostring list \<Rightarrow> raft \<Rightarrow> gostring \<times> raft" where
  "stdinLoop errText [] r = ([], r)"
| "stdinLoop errText (line # rest) r =
     (let (out, r) = stdinLine errText r line; (outs, r) = stdinLoop errText rest r in (out @ outs, r))"

text \<open>
  The two registered routes. Any other path gets the answer of \<^verbatim>\<open>net/http\<close> for an unknown one.
\<close>

definition serveHttp :: "(go_error \<Rightarrow> string) \<Rightarrow> string \<Rightarrow> bool \<Rightarrow> raft \<Rightarrow> query \<Rightarrow> response \<times> raft" where
  "serveHttp errText urlPath isLeader r req =
     (if urlPath = ''/get'' then (HandleGet r req, r)
      else if urlPath = ''/set'' then HandleSet errText isLeader r req
      else (\<lparr>status = StatusNotFound, body = lit ''404 page not found'' @ [10]\<rparr>, r))"

text \<open>
  The turns of the goroutines the node itself runs: the election timer fired (with the state \<^verbatim>\<open>electionLoop\<close>
  read); a call of \<^verbatim>\<open>requestVotes\<close> returned (with the term and the state its goroutine read, the counter and the
  majority of its election); \<^verbatim>\<open>heartBeatLoop\<close> of a generation ticks; a goroutine of it builds its arguments, acts
  on a newer term and then on the outcome of its call; \<^verbatim>\<open>sendSnapshotToPeer\<close> before and after its call.
\<close>

datatype task =
    Timer State
  | VoteAnswer u64 State nat nat RequestVoteReply
  | Beat u64
  | BeatCall u64 u64 peerData
  | BeatTerm u64 AppendEntriesReply
  | BeatOutcome u64 peerData AppendEntriesReply
  | SnapshotCall u64 u64
  | SnapshotAnswer u64 u64 InstallSnapshotReply

text \<open>
  What reaches the running process: a connection accepted from a peer, an HTTP request (with the answer an
  earlier \<^verbatim>\<open>IsLeader\<close> gave its handler), a line on standard input, or the turn of a goroutine of the node. The
  goroutines meet at the lock of the node; \<open>serveInputs\<close> takes them in the order in which they get it.
\<close>

datatype input = Peer conn | Http string bool query | Stdin gostring | Task task

datatype reaction =
    Answered conn
  | Responded response
  | Printed gostring
  | RequestsVotes "(u64 \<times> gostring \<times> RequestVoteArgs) list"
  | Counted nat "u64 option"
  | Beats "heartbeat option"
  | SendsEntries AppendEntriesArgs
  | SendsSnapshot "(u64 \<times> InstallSnapshotArgs) option"
  | Quiet

fun runTask :: "task \<Rightarrow> raft \<Rightarrow> failure + reaction \<times> raft" where
  "runTask (Timer seenState) r = (let (r, calls) = electionTimeout seenState r in Inr (RequestsVotes calls, r))"
| "runTask (VoteAnswer seenTerm seenState votes maj reply) r =
     (let (r, votes, started) = voteReply seenTerm seenState r votes maj reply in Inr (Counted votes started, r))"
| "runTask (Beat myGeneration) r = sbind (heartBeatTick r myGeneration) (\<lambda>hb. Inr (Beats hb, r))"
| "runTask (BeatCall trm leader snap) r = Inr (SendsEntries (heartBeatArgs r trm leader snap), r)"
| "runTask (BeatTerm trm reply) r = Inr (Quiet, heartBeatSuperseded r trm reply)"
| "runTask (BeatOutcome peerID snap reply) r = Inr (Quiet, heartBeatOutcome r peerID snap reply)"
| "runTask (SnapshotCall trm leader) r = (let (args, r) = sendSnapshotArgs r trm leader in Inr (SendsSnapshot args, r))"
| "runTask (SnapshotAnswer peerID snapIndex reply) r = Inr (Quiet, sendSnapshotReply r peerID snapIndex reply)"

fun serveInput :: "(go_error \<Rightarrow> string) \<Rightarrow> input \<Rightarrow> raft \<Rightarrow> failure + reaction \<times> raft" where
  "serveInput errText (Peer c) r = sbind (handleConnection c r) (\<lambda>(c, r). Inr (Answered c, r))"
| "serveInput errText (Http urlPath isLeader req) r =
     (let (resp, r) = serveHttp errText urlPath isLeader r req in Inr (Responded resp, r))"
| "serveInput errText (Stdin line) r =
     (let (out, r) = stdinLine errText r line in Inr (Printed out, r))"
| "serveInput errText (Task t) r = runTask t r"

fun serveInputs :: "(go_error \<Rightarrow> string) \<Rightarrow> input list \<Rightarrow> raft \<Rightarrow> failure + reaction list \<times> raft" where
  "serveInputs errText [] r = Inr ([], r)"
| "serveInputs errText (i # is) r =
     sbind (serveInput errText i r) (\<lambda>(x, r).
     sbind (serveInputs errText is r) (\<lambda>(xs, r). Inr (x # xs, r)))"

text \<open>
  \<^verbatim>\<open>main\<close>: start up, then serve until the process is stopped. An error of start up or of listening
  ends the process (\<^verbatim>\<open>log.Fatalf\<close>).
\<close>

definition runServer ::
  "(go_error \<Rightarrow> string) \<Rightarrow> u64 \<Rightarrow> os \<Rightarrow> nat list \<Rightarrow> go_error + unit \<Rightarrow> input list \<Rightarrow> failure + reaction list \<times> raft" where
  "runServer errText myID s rnd listen inputs =
     (case startNode myID s rnd of
        (Inl err, s) \<Rightarrow> Inl (Error err)
      | (Inr r, s) \<Rightarrow>
          sbind (may_panic (wrap_err ''server failed : '' (wrap_err ''failed to listen : '' listen))) (\<lambda>_.
            serveInputs errText inputs r))"

subsection \<open>The files of a node\<close>

lemma paths_distinct:
  "walPath m \<noteq> snapshotPath n" "temp_path (walPath m) \<noteq> snapshotPath n" "temp_path (walPath m) \<noteq> walPath n"
proof -
  have ends: "last (walPath m) = CHR ''l''" "last (snapshotPath n) = CHR ''t''" "last (temp_path (walPath m)) = CHR ''p''" for m n
    by (simp_all add: walPath_def snapshotPath_def temp_path_def)
  have "last (walPath m) \<noteq> last (snapshotPath n)" "last (temp_path (walPath m)) \<noteq> last (snapshotPath n)"
    "last (temp_path (walPath m)) \<noteq> last (walPath n)" unfolding ends by simp_all
  then show "walPath m \<noteq> snapshotPath n" "temp_path (walPath m) \<noteq> snapshotPath n" "temp_path (walPath m) \<noteq> walPath n" by metis+
qed

lemma paths_inject:
  "walPath m = walPath n \<longleftrightarrow> m = n" "snapshotPath m = snapshotPath n \<longleftrightarrow> m = n"
  "temp_path (walPath m) = temp_path (walPath n) \<longleftrightarrow> m = n"
  using decimal_inject [of "unat m" "unat n"]
  by (auto simp: walPath_def snapshotPath_def temp_path_def word_unat_eq_iff)

end
