(* ===== verification/Raft_Matching.thy ===== *)
theory Raft_Matching
  imports Raft_Recovery
begin

text \<open>
  The log of a follower against the log of its leader, \<^verbatim>\<open>HandleAppendEntries\<close> and \<^verbatim>\<open>heartBeatLoop\<close> of
  \<^verbatim>\<open>raft/raft.go\<close>: what the handler does to the log on every path, what a heartbeat sends, that the
  two keep the log matching property, and how a follower catches up.
\<close>

subsection \<open>The handler and the log\<close>


lemma prevMismatch_acceptLeader [simp]: "prevMismatch (acceptLeader t l r) args = prevMismatch r args"
  by (simp add: prevMismatch_def)

lemma contiguous_last: "contiguous n es \<Longrightarrow> es \<noteq> [] \<Longrightarrow> unat (Index (last es)) = n + length es"
  by (induction es arbitrary: n) auto

lemma entryAt_below: "log_wf r \<Longrightarrow> \<not> logOffset r < j \<Longrightarrow> entryAt r j = None"
  by (simp add: entryAt_eq word_less_nat_alt)

lemma scanEntries_sublog:
  assumes "log_wf r" and "scanEntries 0 0 es r = (x, r1)"
  shows "log_wf r1" and "entryAt r1 j = Some v \<Longrightarrow> entryAt r j = Some v"
proof -
  have "log_wf r1 \<and> (entryAt r1 j = Some v \<longrightarrow> entryAt r j = Some v)"
    using assms(2)
  proof (cases rule: scanEntries_cases [case_names agree conflict])
    case agree
    then show ?thesis using assms by simp
  next
    case (conflict pre e post y s)
    then have t: "rlog r1 = take (nat (toSlicePos r (Index e))) (rlog r)" "logOffset r1 = logOffset r"
      by simp_all
    show ?thesis using log_wf_take [OF assms(1) t] by (simp add: entryAt_take [OF assms(1) t])
  qed
  then show "log_wf r1" "entryAt r1 j = Some v \<Longrightarrow> entryAt r j = Some v" by auto
qed

lemma append_position:
  assumes wf: "log_wf r" and con: "contiguous n es" and ne: "es \<noteq> []"
    and sc: "scanEntries 0 0 es r = (Inr f, r1)"
    and guard: "drop f es = [] \<or> Index (hd (drop f es)) = logOffset r1 + of_nat (length (rlog r1)) + 1"
  shows "unat (logOffset r) \<le> n \<and> n \<le> lastIndex r"
proof -
  have wf1: "log_wf r1" and off: "logOffset r1 = logOffset r" and fle: "f \<le> length es"
    and pre: "\<forall>e\<in>set (take f es). \<exists>x. entryAt r (Index e) = Some x \<and> Term x = Term e"
    using scanEntries_effect [OF wf con sc] by blast+
  have le: "lastIndex r1 \<le> lastIndex r"
    using sc
  proof (cases rule: scanEntries_cases [case_names agree conflict])
    case agree
    then show ?thesis by simp
  next
    case conflict
    then show ?thesis by (simp add: lastIndex_def)
  qed
  show ?thesis
  proof (cases f)
    case 0
    with con guard ne have "n = lastIndex r1"
      using unat_expected [OF wf1] by (cases es) (auto simp: word_unat_eq_iff)
    then show ?thesis using le off by (simp add: lastIndex_def)
  next
    case (Suc k)
    with ne have "hd es \<in> set (take f es)" by (cases es) auto
    with pre obtain x where "entryAt r (Index (hd es)) = Some x" by blast
    moreover have "unat (Index (hd es)) = n + 1" using con ne by (cases es) auto
    ultimately show ?thesis by (auto simp: entryAt_eq [OF wf] split: if_splits)
  qed
qed

text \<open>The handler as seen on the log: entries are dropped, or all new entries are stored.\<close>

lemma HandleAppendEntries_log:
  assumes wf: "log_wf r" and con: "contiguous n (aea_Entries args)" and bound: "n + length (aea_Entries args) < 2 ^ 63"
    and eq: "HandleAppendEntries r args = (reply, r')"
  obtains (kept) "log_wf r'" "\<not> aer_Success reply" "\<forall>j v. entryAt r' j = Some v \<longrightarrow> entryAt r j = Some v"
  | (stored) r2 where "log_wf r2" "log_wf r'" "\<not> prevMismatch r args"
      "\<forall>e\<in>set (aea_Entries args). \<exists>x. entryAt r2 (Index e) = Some x \<and> Term x = Term e
         \<and> (x = e \<or> entryAt r (Index e) = Some x)"
      "\<forall>j. unat j \<le> n \<longrightarrow> entryAt r2 j = entryAt r j"
      "\<forall>j. entryAt r' j = (if logOffset r' < j then entryAt r2 j else None)"
      "lastIndex r' = lastIndex r2"
      "aea_Entries args \<noteq> [] \<longrightarrow> unat (logOffset r) \<le> n \<and> n \<le> lastIndex r"
      "(\<forall>e\<in>set (aea_Entries args). \<forall>x. entryAt r (Index e) = Some x \<longrightarrow> Term x = Term e) \<longrightarrow>
         (\<forall>j v. entryAt r j = Some v \<longrightarrow> entryAt r2 j = Some v)"
      "aea_Entries args = [] \<longrightarrow> rlog r2 = rlog r"
      "logOffset r2 = logOffset r"
  using eq
proof (cases rule: HandleAppendEntries_cases [case_names stale mismatch truncate_error gap append])
  case stale
  then show thesis using wf by (intro kept) (simp_all add: rejectAppend_def)
next
  case mismatch
  then show thesis using wf by (intro kept) (simp_all add: rejectAppend_def)
next
  case (truncate_error ra err)
  then show thesis
    using wf scanEntries_sublog [of ra] by (intro kept) (auto simp: rejectAppend_def)
next
  case (gap ra f)
  then show thesis
    using wf scanEntries_sublog [of ra] by (intro kept) (auto simp: rejectAppend_def)
next
  case (append ra f r1 res s)
  let ?es = "aea_Entries args" and ?r2 = "r1\<lparr>rlog := rlog r1 @ drop f (aea_Entries args), env := s\<rparr>"
  have wfa: "log_wf ra" and ea: "entryAt ra i = entryAt r i" for i using append(2) wf by simp_all
  have r2: "rlog ?r2 = rlog r1 @ drop f ?es" "logOffset ?r2 = logOffset r1" by simp_all
  note core = append_core [OF wfa con bound append(4,5) r2]
  have fin: "log_wf r' \<and> lastIndex r' = lastIndex ?r2
      \<and> (\<forall>j. entryAt r' j = (if logOffset r' < j then entryAt ?r2 j else None))"
  proof (cases "isl res")
    case True
    then have "r' = ?r2" using append(7) by blast
    then show ?thesis using core(1) entryAt_below [OF core(1)] by (metis (no_types))
  next
    case False
    then show ?thesis using append(8) finishAppend_log [OF core(1)] by simp
  qed
  have off: "logOffset r1 = logOffset ra" using scanEntries_effect [OF wfa con append(4)] by blast
  have keepall: "\<forall>j v. entryAt r j = Some v \<longrightarrow> entryAt ?r2 j = Some v"
    if "\<forall>e\<in>set ?es. \<forall>x. entryAt r (Index e) = Some x \<longrightarrow> Term x = Term e"
  proof -
    have "\<exists>new. rlog ?r2 = rlog ra @ new" 
      by (rule core(4)) (metis that ea)
    then obtain new where new: "rlog ?r2 = rlog ra @ new" by blast
    have "entryAt ?r2 j = entryAt r j" if "entryAt r j = Some v" for j v
    proof -
      have "unat j \<le> lastIndex ra" using that by (auto simp: entryAt_eq [OF wf] append(2) split: if_splits)
      then show ?thesis using entryAt_append [OF core(1) new] off ea by simp
    qed
    then show ?thesis by simp
  qed
  show thesis
  proof (rule stored [of ?r2])
    show "\<forall>j. unat j \<le> n \<longrightarrow> entryAt ?r2 j = entryAt r j" using core(3) ea by simp
    show "?es = [] \<longrightarrow> rlog ?r2 = rlog r" using append(4) by (auto simp: append(2))
    show "?es \<noteq> [] \<longrightarrow> unat (logOffset r) \<le> n \<and> n \<le> lastIndex r"
      using append_position [OF wfa con _ append(4,5)] by (simp add: append(2))
    show "\<forall>e\<in>set ?es. \<exists>x. entryAt ?r2 (Index e) = Some x \<and> Term x = Term e
        \<and> (x = e \<or> entryAt r (Index e) = Some x)"
      using core(2) unfolding ea .
    show "\<not> prevMismatch r args" "logOffset ?r2 = logOffset r" using append(3) off by (simp_all add: append(2))
    show "\<forall>j. entryAt r' j = (if logOffset r' < j then entryAt ?r2 j else None)" "log_wf r'"
      "lastIndex r' = lastIndex ?r2" using fin by blast+
    show "(\<forall>e\<in>set ?es. \<forall>x. entryAt r (Index e) = Some x \<longrightarrow> Term x = Term e) \<longrightarrow>
        (\<forall>j v. entryAt r j = Some v \<longrightarrow> entryAt ?r2 j = Some v)" using keepall by blast
  qed (rule core(1))
qed


subsection \<open>What a heartbeat sends\<close>

text \<open>
  The data for one peer: nothing, if it is going to be sent a snapshot, or all entries behind an
  index the log reaches, with the term of the entry at that index.
\<close>

definition suffix_of :: "raft \<Rightarrow> peerData \<Rightarrow> bool" where
  "suffix_of l d \<longleftrightarrow>
     unat (logOffset l) \<le> unat (pd_prevIndex d) \<and> unat (pd_prevIndex d) \<le> lastIndex l
     \<and> pd_entries d = drop (unat (pd_prevIndex d) - unat (logOffset l)) (rlog l)
     \<and> pd_prevTerm d = (case entryAt l (pd_prevIndex d) of Some e \<Rightarrow> Term e | None \<Rightarrow> 0)"

lemma toSlicePos_nonneg:
  assumes "log_wf r" and "0 \<le> toSlicePos r i" and "toSlicePos r i \<le> int (length (rlog r))"
  shows "logOffset r < i" and "unat i \<le> lastIndex r + 1"
    and "nat (toSlicePos r i) = unat i - unat (logOffset r) - 1" and "unat (i - 1) = unat i - 1"
proof -
  have o: "unat (logOffset r) < 2 ^ 63" using assms by (simp add: log_wf_def)
  have lt: "unat (logOffset r) < unat i" using assms toSlicePos_eq(2) [OF o, of i] by linarith
  then show "logOffset r < i" by (simp add: word_less_nat_alt)
  have "unat i - unat (logOffset r) - 1 < 2 ^ 63" using assms lt toSlicePos_eq(3) [OF o, of i] by linarith
  then have p: "toSlicePos r i = int (unat i - unat (logOffset r) - 1)" using lt toSlicePos_eq(1) [OF o] by blast
  then show "nat (toSlicePos r i) = unat i - unat (logOffset r) - 1" by simp
  show "unat i \<le> lastIndex r + 1" using assms(3) p lt unfolding lastIndex_def by linarith
  show "unat (i - 1) = unat i - 1" using lt by (simp add: unat_sub_u64)
qed

lemma collectPeers_suffix:
  assumes "log_wf l"
  shows "collectPeers l ps = Inr (snaps, needs) \<Longrightarrow> (p, d) \<in> set snaps \<Longrightarrow>
     suffix_of l d \<and> pd_prevIndex d = go_index (nextIndex l) p - 1"
proof (induction ps arbitrary: snaps needs)
  case (Cons q ps)
  let ?n = "go_index (nextIndex l) q"
  show ?case
  proof (cases "toSlicePos l ?n < 0 \<or> toSlicePos l ?n > int (length (rlog l))")
    case True
    with Cons show ?thesis by (auto simp: Let_def split: if_splits)
  next
    case False
    then have pos: "0 \<le> toSlicePos l ?n" "toSlicePos l ?n \<le> int (length (rlog l))" by auto
    note tp = toSlicePos_nonneg [OF assms pos]
    let ?d = "\<lparr>pd_entries = drop (nat (toSlicePos l ?n)) (rlog l), pd_prevIndex = ?n - 1,
       pd_prevTerm = (if ?n - 1 > 0 then (case entryAt l (?n - 1) of Some entry \<Rightarrow> Term entry | None \<Rightarrow> 0) else 0)\<rparr>"
    obtain snaps' where rest: "collectPeers l ps = Inr (snaps', needs)" and sn: "snaps = (q, ?d) # snaps'"
      using Cons.prems(1) pos by (auto simp: Let_def)
    have "entryAt l 0 = None" using assms by (simp add: entryAt_eq)
    then have "pd_prevTerm ?d = (case entryAt l (?n - 1) of Some e \<Rightarrow> Term e | None \<Rightarrow> 0)"
      by (cases "?n - 1 = 0") (simp_all add: word_gt_0)
    moreover have "nat (toSlicePos l ?n) = unat (?n - 1) - unat (logOffset l)" using tp by simp
    ultimately have "suffix_of l ?d"
      using tp(1,2,4) unfolding suffix_of_def by (auto simp: word_less_nat_alt)
    then show ?thesis using Cons.prems(2) Cons.IH [OF rest] sn by auto
  qed
qed simp

lemma heartBeatTick_sends:
  assumes "log_wf l" and "heartBeatTick l g = Inr (Some hb)" and "(p, addr, d) \<in> set (hb_sends hb)"
  shows "d = emptyPeerData \<or> suffix_of l d \<and> pd_prevIndex d = go_index (nextIndex l) p - 1"
proof -
  obtain snaps needs where c: "collectPeers l (map fst (peers l)) = Inr (snaps, needs)"
      and d: "d = (case map_of snaps p of Some d \<Rightarrow> d | None \<Rightarrow> emptyPeerData)"
    using assms(2,3) by (auto simp: heartBeatTick_def split: if_splits)
  then show ?thesis
    using collectPeers_suffix [OF assms(1) c] by (cases "map_of snaps p") (auto dest: map_of_SomeD)
qed

lemma suffix_of_contiguous:
  assumes "log_wf l" and "suffix_of l d"
  shows "contiguous (unat (pd_prevIndex d)) (pd_entries d)"
    and "unat (pd_prevIndex d) + length (pd_entries d) = lastIndex l"
    and "entryAt l j = Some e \<Longrightarrow> unat (pd_prevIndex d) < unat j \<Longrightarrow> e \<in> set (pd_entries d) \<and> Index e = j"
    and "e \<in> set (pd_entries d) \<Longrightarrow> entryAt l (Index e) = Some e"
proof -
  let ?k = "unat (pd_prevIndex d) - unat (logOffset l)"
  show "contiguous (unat (pd_prevIndex d)) (pd_entries d)"
    using contiguous_drop [of "unat (logOffset l)" "rlog l" ?k] assms
    by (auto simp: suffix_of_def log_wf_def lastIndex_def)
  show "unat (pd_prevIndex d) + length (pd_entries d) = lastIndex l"
    using assms by (auto simp: suffix_of_def lastIndex_def)
  show "e \<in> set (pd_entries d) \<Longrightarrow> entryAt l (Index e) = Some e"
    using assms by (auto simp: suffix_of_def entryAt_iff dest: in_set_dropD)
  assume e: "entryAt l j = Some e" and j: "unat (pd_prevIndex d) < unat j"
  then have "e = pd_entries d ! (unat j - unat (pd_prevIndex d) - 1)"
    "unat j - unat (pd_prevIndex d) - 1 < length (pd_entries d)"
    using assms by (auto simp: suffix_of_def entryAt_eq lastIndex_def split: if_splits)
  then show "e \<in> set (pd_entries d) \<and> Index e = j" using e assms(1) entryAt_Index by auto
qed

subsection \<open>Log matching\<close>

text \<open>
  Two logs with the same term at an index have the same entries up to it, as far as both still hold
  them.
\<close>

definition log_match :: "raft \<Rightarrow> raft \<Rightarrow> bool" where
  "log_match a b \<longleftrightarrow>
     (\<forall>i x y. entryAt a i = Some x \<longrightarrow> entryAt b i = Some y \<longrightarrow> Term x = Term y \<longrightarrow>
        (\<forall>j\<le>i. \<forall>u v. entryAt a j = Some u \<longrightarrow> entryAt b j = Some v \<longrightarrow> u = v))"

lemma log_matchD:
  "log_match a b \<Longrightarrow> entryAt a i = Some x \<Longrightarrow> entryAt b i = Some y \<Longrightarrow> Term x = Term y \<Longrightarrow> j \<le> i \<Longrightarrow>
     entryAt a j = Some u \<Longrightarrow> entryAt b j = Some v \<Longrightarrow> u = v"
  unfolding log_match_def by blast

lemma log_match_sublog:
  "log_match a b \<Longrightarrow> (\<And>j v. entryAt c j = Some v \<Longrightarrow> entryAt b j = Some v) \<Longrightarrow> log_match a c"
  unfolding log_match_def by blast

text \<open>The logs hold the same entries wherever both hold one.\<close>

definition log_agree :: "raft \<Rightarrow> raft \<Rightarrow> bool" where
  "log_agree a b \<longleftrightarrow> (\<forall>j u v. entryAt a j = Some u \<longrightarrow> entryAt b j = Some v \<longrightarrow> u = v)"

lemma log_agree_match: "log_agree a b \<Longrightarrow> log_match a b"
  unfolding log_agree_def log_match_def by blast

lemma HandleAppendEntries_suffix:
  assumes wfl: "log_wf l" and wf: "log_wf r" and m: "log_match l r" and d: "suffix_of l d" and ne: "pd_entries d \<noteq> []"
    and eq: "HandleAppendEntries r (heartBeatArgs c t i d) = (reply, r')"
  shows "log_wf r' \<and> log_match l r' \<and> (aer_Success reply \<longrightarrow> log_agree l r' \<and> lastIndex l \<le> lastIndex r')"
proof -
  let ?args = "heartBeatArgs c t i d" and ?n = "unat (pd_prevIndex d)"
  have es: "aea_Entries ?args = pd_entries d" "aea_PrevLogIndex ?args = pd_prevIndex d"
    "aea_PrevLogTerm ?args = pd_prevTerm d" by (simp_all add: heartBeatArgs_def)
  note suf = suffix_of_contiguous [OF wfl d]
  have con: "contiguous ?n (aea_Entries ?args)" using suf es by simp
  have bound: "?n + length (aea_Entries ?args) < 2 ^ 63"
    using suf(2) wfl es by (simp add: log_wf_def lastIndex_def)
  show ?thesis
    using wf con bound eq
  proof (cases rule: HandleAppendEntries_log [case_names kept stored])
    case kept
    then show ?thesis using m log_match_sublog by blast
  next
    case (stored r2)
    have low: "u = v" if j: "unat j \<le> ?n" "entryAt l j = Some u" "entryAt r j = Some v" for j u v
    proof -
      have n: "unat (logOffset r) < ?n" "?n \<le> lastIndex r" "unat (logOffset l) < ?n" "?n \<le> lastIndex l"
        using j stored(8) es ne d by (auto simp: entryAt_eq wf wfl suffix_of_def split: if_splits)
      obtain x where x: "entryAt r (pd_prevIndex d) = Some x" using n by (simp add: entryAt_eq [OF wf])
      obtain y where y: "entryAt l (pd_prevIndex d) = Some y" using n by (simp add: entryAt_eq [OF wfl])
      have "pd_prevIndex d > 0" using n by (simp add: word_less_nat_alt)
      then have "Term x = Term y" using stored(3) x y d es by (simp add: prevMismatch_def suffix_of_def)
      then show ?thesis using log_matchD [OF m y x] j by (simp add: word_le_nat_alt)
    qed
    have "log_agree l r2"
      unfolding log_agree_def
    proof (intro allI impI)
      fix j u v
      assume u: "entryAt l j = Some u" and v: "entryAt r2 j = Some v"
      show "u = v"
      proof (cases "unat j \<le> ?n")
        case True
        then show ?thesis using low u v stored(5) by auto
      next
        case False
        then have "u \<in> set (pd_entries d)" "Index u = j" using suf(3) [OF u] by simp_all
        then obtain x where "entryAt r2 j = Some x" "Term x = Term u" "x = u \<or> entryAt r j = Some x"
          using stored(4) es by auto
        then show ?thesis using v log_matchD [OF m u _ _ order_refl u, of x x] by (metis option.inject)
      qed
    qed
    then have "log_agree l r'" using stored(6) by (auto simp: log_agree_def split: if_splits)
    moreover have "lastIndex l \<le> lastIndex r2"
    proof -
      have l: "last (pd_entries d) \<in> set (pd_entries d)" using ne by simp
      moreover have "unat (Index (last (pd_entries d))) = lastIndex l"
        using contiguous_last [OF suf(1) ne] suf(2) by simp
      ultimately show ?thesis using stored(4) es by (auto simp: entryAt_eq stored(1) split: if_splits)
    qed
    ultimately show ?thesis using stored(2,7) log_agree_match by simp
  qed
qed

subsection \<open>Committing and applying\<close>

lemma persistEntries_free:
  assumes "faults (env r) = []" and "wal_open (rwal r)"
  shows "\<exists>s. persistEntries es r = (Inr (), r\<lparr>env := s\<rparr>) \<and> faults s = []"
  using assms
proof (induction es arbitrary: r)
  case Nil
  then show ?case by (auto intro: exI [of _ "env r"])
next
  case (Cons e es)
  obtain s1 where a: "Append (rwal r) e (env r) = (Inr (), s1)" "faults s1 = []"
    using Append_free [OF Cons.prems] Cons.prems(1) by simp
  then obtain s where "persistEntries es (r\<lparr>env := s1\<rparr>) = (Inr (), r\<lparr>env := s\<rparr>)" "faults s = []"
    using Cons.IH [of "r\<lparr>env := s1\<rparr>"] Cons.prems(2) by auto
  with a show ?case by (auto intro: exI [of _ s])
qed

lemma contiguous_indices: "contiguous n es \<Longrightarrow> map (\<lambda>e. unat (Index e)) es = [n + 1..<n + 1 + length es]"
  by (induction es arbitrary: n) (auto simp: upt_conv_Cons simp del: upt_Suc)

lemma scanEntries_upd:
  assumes "scanEntries i i es r = (x, r1)"
  shows "\<exists>k s. r1 = r\<lparr>rlog := take k (rlog r), env := s\<rparr>"
  using assms
proof (cases rule: scanEntries_cases [case_names agree conflict])
  case agree
  then show ?thesis by (intro exI [of _ "length (rlog r)"] exI [of _ "env r"]) simp
next
  case conflict
  then show ?thesis by blast
qed

lemma lastLogIndex_word: "log_wf r \<Longrightarrow> fst (lastLogIndexAndTerm r) = of_nat (lastIndex r)"
  by (simp flip: lastLogIndex_eq)

lemma updateCommit_commit:
  "log_wf r \<Longrightarrow> commitIndex (updateCommit c r) =
     (if c > commitIndex r then min c (of_nat (lastIndex r)) else commitIndex r)"
  by (auto simp: updateCommit_def lastLogIndex_word min_def Let_def)

text \<open>The entries that get applied are consecutive ones of the log.\<close>

lemma log_between_indices:
  assumes "log_wf r" and "unat (logOffset r) \<le> a" and "b \<le> lastIndex r"
  shows "map (\<lambda>e. unat (Index e)) (log_between r a b) = [a + 1..<b + 1]"
    and "set (log_between r a b) \<subseteq> set (rlog r)"
proof -
  let ?es = "drop (a - unat (logOffset r)) (rlog r)"
  have lb: "log_between r a b = take (b - a) ?es" using assms by (rule log_between_slice)
  then show "set (log_between r a b) \<subseteq> set (rlog r)" by (auto dest: in_set_takeD in_set_dropD)
  show "map (\<lambda>e. unat (Index e)) (log_between r a b) = [a + 1..<b + 1]"
  proof (cases "a < b")
    case True
    then have "contiguous (unat (logOffset r) + (a - unat (logOffset r))) ?es"
      using assms by (intro contiguous_drop) (auto simp: log_wf_def lastIndex_def)
    then have "contiguous a (take (b - a) ?es)" using assms(2) contiguous_take by simp
    then have "map (\<lambda>e. unat (Index e)) (take (b - a) ?es) = [a + 1..<a + 1 + length (take (b - a) ?es)]"
      by (rule contiguous_indices)
    moreover have "a + 1 + length (take (b - a) ?es) = b + 1"
      using True assms(2,3) by (simp add: lastIndex_def)
    ultimately show ?thesis using lb by (simp only:)
  qed simp
qed

lemma finishAppend_fields:
  fixes c :: u64
  assumes "log_wf r" and "logOffset r \<le> lastApplied r" and "commitIndex r \<le> lastApplied r"
  defines "r' \<equiv> finishAppend c r"
  shows "commitIndex r' = (if c > commitIndex r then min c (of_nat (lastIndex r)) else commitIndex r)"
    and "lastApplied r' = max (lastApplied r) (commitIndex r')"
    and "\<exists>es. stateMachine r' = apply_all (stateMachine r) es \<and> set es \<subseteq> set (rlog r)
           \<and> map (\<lambda>e. unat (Index e)) es = [unat (lastApplied r) + 1..<unat (commitIndex r') + 1]"
proof -
  let ?u = "updateCommit c r"
  have ci: "commitIndex r' = commitIndex ?u" by (simp add: r'_def finishAppend_def frame_simps)
  then show c': "commitIndex r' = (if c > commitIndex r then min c (of_nat (lastIndex r)) else commitIndex r)"
    using updateCommit_commit [OF assms(1)] by simp
  show "lastApplied r' = max (lastApplied r) (commitIndex r')"
    unfolding ci by (simp add: r'_def finishAppend_def frame_simps applyCommitted_eq)
  have wfu: "log_wf ?u" using assms(1) by (simp add: log_wf_def)
  have sm: "stateMachine r' = apply_all (stateMachine r) (log_between ?u (unat (lastApplied r)) (unat (commitIndex r')))"
    unfolding ci by (simp add: r'_def finishAppend_def frame_simps applyCommitted_eq)
  show "\<exists>es. stateMachine r' = apply_all (stateMachine r) es \<and> set es \<subseteq> set (rlog r)
      \<and> map (\<lambda>e. unat (Index e)) es = [unat (lastApplied r) + 1..<unat (commitIndex r') + 1]"
  proof (cases "unat (commitIndex r') \<le> unat (lastApplied r)")
    case True
    then show ?thesis using sm by (intro exI [of _ "[]"]) simp
  next
    case False
    then have "commitIndex r' = min c (of_nat (lastIndex r))"
      using c' assms(3) by (auto simp: word_le_nat_alt split: if_splits)
    then have "commitIndex r' \<le> of_nat (lastIndex r)" by simp
    moreover have "unat (of_nat (lastIndex r) :: u64) = lastIndex r"
      using assms(1) by (intro unat_of_nat_u64) (simp add: log_wf_def lastIndex_def)
    ultimately have "unat (commitIndex r') \<le> lastIndex ?u"
      by (simp add: word_le_nat_alt lastIndex_def)
    moreover have "unat (logOffset ?u) \<le> unat (lastApplied r)"
      using assms(2) by (simp add: word_le_nat_alt)
    ultimately show ?thesis
      using sm log_between_indices [OF wfu, of "unat (lastApplied r)" "unat (commitIndex r')"] by auto
  qed
qed

lemma heartBeatTick_panic_collect:
  "collectPeers r ps = Inl e \<longleftrightarrow> e = Panic \<and> (\<exists>p\<in>set ps. int (length (rlog r)) < toSlicePos r (go_index (nextIndex r) p))"
proof (induction ps)
  case (Cons p ps)
  then show ?case
    by (cases "collectPeers r ps") (auto simp: Let_def)
qed simp

lemma toSlicePos_beyond:
  assumes "log_wf r"
  shows "int (length (rlog r)) < toSlicePos r i \<longleftrightarrow>
     lastIndex r + 1 < unat i \<and> unat i \<le> unat (logOffset r) + 2 ^ 63"
proof -
  have o: "unat (logOffset r) < 2 ^ 63" "length (rlog r) < 2 ^ 63" using assms by (auto simp: log_wf_def)
  show ?thesis
  proof (cases "unat (logOffset r) < unat i \<and> unat i - unat (logOffset r) - 1 < 2 ^ 63")
    case True
    then have "toSlicePos r i = int (unat i - unat (logOffset r) - 1)" using toSlicePos_eq(1) [OF o(1)] by blast
    then have "int (length (rlog r)) < toSlicePos r i \<longleftrightarrow> length (rlog r) < unat i - unat (logOffset r) - 1"
      by (simp del: of_nat_diff)
    with True show ?thesis unfolding lastIndex_def by linarith
  next
    case False
    then have "toSlicePos r i < 0" using toSlicePos_eq(2,3) [OF o(1), of i] by linarith
    with False o show ?thesis unfolding lastIndex_def by linarith
  qed
qed

subsection \<open>Catching up\<close>

lemma scanEntries_fresh:
  "log_wf r \<Longrightarrow> contiguous n es \<Longrightarrow> lastIndex r \<le> n \<Longrightarrow> scanEntries 0 0 es r = (Inr 0, r)"
  by (cases es) (auto simp: entryAt_eq)

lemma HandleAppendEntries_gap:
  assumes "log_wf r" and "contiguous (unat (aea_PrevLogIndex args)) (aea_Entries args)" and "aea_Entries args \<noteq> []"
    and "lastIndex r < unat (aea_PrevLogIndex args)" and "currentTerm r \<le> aea_Term args"
  shows "HandleAppendEntries r args =
    (\<lparr>aer_Term = aea_Term args, aer_Success = False, aer_ConflictTerm = 0, aer_ConflictIndex = of_nat (lastIndex r) + 1\<rparr>,
     acceptLeader (aea_Term args) (aea_LeaderID args) r)"
proof -
  let ?ra = "acceptLeader (aea_Term args) (aea_LeaderID args) r"
  have "\<not> prevMismatch ?ra args" using assms(1,4) by (simp add: prevMismatch_def entryAt_eq)
  moreover have "scanEntries 0 0 (aea_Entries args) ?ra = (Inr 0, ?ra)"
    using assms(1,2,4) by (intro scanEntries_fresh [where n = "unat (aea_PrevLogIndex args)"]) simp_all
  moreover have ex: "logOffset r + of_nat (length (rlog r)) + 1 = of_nat (lastIndex r) + (1 :: u64)"
    by (simp add: lastIndex_def)
  moreover have "unat (Index (hd (aea_Entries args))) \<noteq> lastIndex r + 1"
    using assms(2-4) by (cases "aea_Entries args") auto
  then have "Index (hd (aea_Entries args)) \<noteq> of_nat (lastIndex r) + 1"
    using unat_expected [OF assms(1)] unfolding ex by auto
  ultimately show ?thesis
    using assms(3) acceptLeader_term(1) [OF assms(5)] leD [OF assms(5)]
    by (simp add: HandleAppendEntries_def Let_def rejectAppend_def)
qed

lemma HandleAppendEntries_next:
  assumes "log_wf r" and "contiguous (lastIndex r) (aea_Entries args)"
    and "\<not> prevMismatch r args" and "currentTerm r \<le> aea_Term args"
    and "faults (env r) = []" and "wal_open (rwal r)"
  obtains s where "HandleAppendEntries r args =
    (let r' = finishAppend (aea_LeaderCommit args)
               ((acceptLeader (aea_Term args) (aea_LeaderID args) r)\<lparr>rlog := rlog r @ aea_Entries args, env := s\<rparr>)
     in ((rejectAppend r')\<lparr>aer_Success := True\<rparr>, r'))"
proof -
  let ?ra = "acceptLeader (aea_Term args) (aea_LeaderID args) r" and ?es = "aea_Entries args"
  have sc: "scanEntries 0 0 ?es ?ra = (Inr 0, ?ra)"
    using assms(1,2) by (intro scanEntries_fresh [where n = "lastIndex r"]) simp_all
  have g: "\<not> (?es \<noteq> [] \<and> Index (hd ?es) \<noteq> logOffset r + of_nat (length (rlog r)) + 1)"
    using assms(2) unat_expected [OF assms(1)] by (cases ?es) (auto simp: word_unat_eq_iff)
  obtain s where pe: "persistEntries ?es (?ra\<lparr>rlog := rlog ?ra @ ?es\<rparr>) = (Inr (), ?ra\<lparr>rlog := rlog ?ra @ ?es, env := s\<rparr>)"
    using persistEntries_free [of "?ra\<lparr>rlog := rlog ?ra @ ?es\<rparr>" ?es] assms(5,6) by auto
  have t: "\<not> aea_Term args < currentTerm r" and pm: "\<not> prevMismatch ?ra args"
    using assms(3,4) by simp_all
  show thesis
    using t pm sc pe
    by (intro that [of s])
      (simp only: HandleAppendEntries_def Let_def if_False drop0 if_not_P [OF g] prod.case sum.case acceptLeader_frame)
qed

lemma collectPeers_complete:
  "collectPeers l ps = Inr (snaps, needs) \<Longrightarrow> p \<in> set ps \<Longrightarrow> 0 \<le> toSlicePos l (go_index (nextIndex l) p) \<Longrightarrow>
     \<exists>d. map_of snaps p = Some d"
proof (induction ps arbitrary: snaps needs)
  case (Cons q ps)
  then show ?case
    by (cases "p = q") (auto simp: Let_def split: if_splits)
qed simp

lemma heartBeatTick_data:
  assumes "log_wf l" and "heartBeatTick l g = Inr (Some hb)" and "(p, addr, d) \<in> set (hb_sends hb)"
    and "logOffset l < go_index (nextIndex l) p" and "unat (go_index (nextIndex l) p) \<le> lastIndex l + 1"
  shows "suffix_of l d \<and> pd_prevIndex d = go_index (nextIndex l) p - 1"
proof -
  obtain snaps needs where c: "collectPeers l (map fst (peers l)) = Inr (snaps, needs)"
      and d: "d = (case map_of snaps p of Some d \<Rightarrow> d | None \<Rightarrow> emptyPeerData)"
      and p: "p \<in> set (map fst (peers l))"
    using assms(2,3) by (force simp: heartBeatTick_def split: if_splits)
  have o: "unat (logOffset l) < 2 ^ 63" "lastIndex l < 2 ^ 63" using assms(1) by (auto simp: log_wf_def lastIndex_def)
  have "toSlicePos l (go_index (nextIndex l) p) = int (unat (go_index (nextIndex l) p) - unat (logOffset l) - 1)"
    using assms(4,5) o by (intro toSlicePos_eq(1)) (auto simp: word_less_nat_alt)
  then have "0 \<le> toSlicePos l (go_index (nextIndex l) p)" by linarith
  then obtain d' where "map_of snaps p = Some d'" using collectPeers_complete [OF c p] by blast
  then show ?thesis using d collectPeers_suffix [OF assms(1) c] by (auto dest: map_of_SomeD)
qed

lemma log_match_cong:
  "(\<And>j. entryAt a j = entryAt a' j) \<Longrightarrow> (\<And>j. entryAt b j = entryAt b' j) \<Longrightarrow> log_match a b = log_match a' b'"
  by (simp only: log_match_def)

lemma heartBeatArgs_simps [simp]:
  "aea_Entries (heartBeatArgs q t i x) = pd_entries x"
  "aea_PrevLogIndex (heartBeatArgs q t i x) = pd_prevIndex x"
  "aea_PrevLogTerm (heartBeatArgs q t i x) = pd_prevTerm x"
  "aea_Term (heartBeatArgs q t i x) = t"
  "aea_LeaderID (heartBeatArgs q t i x) = i"
  "aea_LeaderCommit (heartBeatArgs q t i x) = commitIndex q"
  by (simp_all add: heartBeatArgs_def)

lemma unat_lastIndex:
  assumes "log_wf r"
  shows "unat (of_nat (lastIndex r) :: u64) = lastIndex r" and "unat (of_nat (lastIndex r) + 1 :: u64) = lastIndex r + 1"
proof -
  have "lastIndex r < 2 ^ 63" using assms by (simp add: log_wf_def lastIndex_def)
  then show "unat (of_nat (lastIndex r) :: u64) = lastIndex r" "unat (of_nat (lastIndex r) + 1 :: u64) = lastIndex r + 1"
    by (simp_all add: unat_word_ariths)
qed

text \<open>The first round: the follower says where its log ends and the leader goes back to there.\<close>

lemma gap_round:
  assumes wf: "log_wf l" "log_wf r" and suf: "suffix_of l d" "pd_entries d \<noteq> []"
    and behind: "lastIndex r < unat (pd_prevIndex d)" and term_ok: "currentTerm r \<le> t"
    and r1: "HandleAppendEntries r (heartBeatArgs q t i d) = (reply, r1)"
  shows "\<not> aer_Success reply" and "r1 = acceptLeader t i r"
    and "heartBeatReply l p t d reply = l\<lparr>nextIndex := AList.update p (of_nat (lastIndex r) + 1) (nextIndex l)\<rparr>"
proof -
  have g: "HandleAppendEntries r (heartBeatArgs q t i d) =
      (\<lparr>aer_Term = t, aer_Success = False, aer_ConflictTerm = 0, aer_ConflictIndex = of_nat (lastIndex r) + 1\<rparr>,
       acceptLeader t i r)"
    using HandleAppendEntries_gap [OF wf(2), of "heartBeatArgs q t i d"] suffix_of_contiguous(1) [OF wf(1) suf(1)]
      suf(2) behind term_ok by simp
  then show "\<not> aer_Success reply" "r1 = acceptLeader t i r" using r1 by auto
  have "(0 :: u64) < of_nat (lastIndex r) + 1" using unat_lastIndex(2) [OF wf(2)] by (simp add: word_less_nat_alt)
  then show "heartBeatReply l p t d reply = l\<lparr>nextIndex := AList.update p (of_nat (lastIndex r) + 1) (nextIndex l)\<rparr>"
    using g r1 by (auto simp: heartBeatReply_def heartBeatSuperseded_def heartBeatOutcome_def)
qed

text \<open>The second round: what was sent continues the log of the follower.\<close>

lemma next_round:
  assumes wf: "log_wf l" "log_wf r" and m: "log_match l r" and suf: "suffix_of l d"
    and n: "pd_prevIndex d = of_nat (lastIndex r)" and lr: "lastIndex r < lastIndex l"
    and pm: "\<And>y. entryAt r (pd_prevIndex d) = Some y \<Longrightarrow> Term y = pd_prevTerm d"
    and term_ok: "currentTerm r \<le> t" and disk: "faults (env r) = []" "wal_open (rwal r)"
    and r2: "HandleAppendEntries r (heartBeatArgs q t i d) = (reply, r2)"
  shows "aer_Success reply \<and> log_agree l r2 \<and> lastIndex r2 = lastIndex l"
proof -
  let ?args = "heartBeatArgs q t i d"
  note sl = suffix_of_contiguous [OF wf(1) suf] and un = unat_lastIndex [OF wf(2)]
  have con: "contiguous (lastIndex r) (aea_Entries ?args)" using sl(1) un by (simp add: n)
  have "\<not> prevMismatch r ?args" using pm by (simp add: prevMismatch_def split: option.splits)
  moreover have "currentTerm r \<le> aea_Term ?args" using term_ok by simp
  ultimately obtain s where h: "HandleAppendEntries r ?args =
      (let r' = finishAppend (aea_LeaderCommit ?args)
         ((acceptLeader (aea_Term ?args) (aea_LeaderID ?args) r)\<lparr>rlog := rlog r @ aea_Entries ?args, env := s\<rparr>)
       in ((rejectAppend r')\<lparr>aer_Success := True\<rparr>, r'))" (is "_ = (let r' = finishAppend ?c ?q in _ r')")
    using HandleAppendEntries_next [OF wf(2) con _ _ disk] by blast
  then have ok: "aer_Success reply" and r2e: "r2 = finishAppend ?c ?q" using r2 by (auto simp: Let_def)
  have "log_wf ?q" using wf con sl(2) un by (auto simp: log_wf_def lastIndex_def n)
  then have "lastIndex r2 = lastIndex ?q" unfolding r2e by (rule finishAppend_log(2))
  also have "\<dots> = lastIndex l" using sl(2) un by (simp add: lastIndex_def n)
  finally have "lastIndex r2 = lastIndex l" .
  moreover have "pd_entries d \<noteq> []" using sl(2) un lr by (auto simp: n)
  ultimately show ?thesis using HandleAppendEntries_suffix [OF wf m suf _ r2] ok by blast
qed

subsection \<open>An example\<close>

text \<open>A leader with two entries, a follower that has the first of them, a heartbeat, and a request of a newer leader.\<close>

definition sample_append :: AppendEntriesArgs where
  "sample_append =
     \<lparr>aea_Term = 2, aea_LeaderID = 1, aea_PrevLogIndex = 1, aea_PrevLogTerm = 1,
      aea_Entries = [sample_entry 2 2, sample_entry 2 3], aea_LeaderCommit = 2\<rparr>"

definition sample_leader :: raft where
  "sample_leader = (sample_node 1 Leader [sample_entry 1 1, sample_entry 1 2])\<lparr>nextIndex := [(1, 2), (2, 2), (3, 2)]\<rparr>"

definition sample_follower :: raft where
  "sample_follower = sample_node 2 Follower [sample_entry 1 1]"

definition sample_data :: peerData where
  "sample_data = \<lparr>pd_entries = [sample_entry 1 2], pd_prevIndex = 1, pd_prevTerm = 1\<rparr>"

definition sample_beat :: heartbeat where
  "sample_beat = \<lparr>hb_term = 1, hb_leader = 1, hb_needs = [],
     hb_sends = [(2, lit ''localhost:9002'', sample_data), (3, lit ''localhost:9003'', sample_data)]\<rparr>"

lemmas sample_defs = sample_node_def sample_entry_def sample_peers_def sample_append_def sample_leader_def
  sample_follower_def sample_data_def sample_beat_def

lemmas sample_eval = HandleAppendEntries_def acceptLeader_def
  prevMismatch_def Let_def resetElectionTimer_def entryAt_def toSlicePos_def Append_free

lemma sample_tick: "heartBeatTick sample_leader 1 = Inr (Some sample_beat)"
  by (simp add: heartBeatTick_def sample_defs Let_def toSlicePos_def go_index_def entryAt_def)

lemma sample_log_wf: "log_wf sample_leader" "log_wf sample_follower"
  by (simp_all add: sample_defs log_wf_def)

lemma sample_args:
  "contiguous (unat (aea_PrevLogIndex sample_append)) (aea_Entries sample_append)"
  "unat (aea_PrevLogIndex sample_append) + length (aea_Entries sample_append) < 2 ^ 63"
  by (simp_all add: sample_defs)

lemma sample_match: "log_match sample_leader sample_follower"
  by (rule log_agree_match)
    (auto simp: log_agree_def entryAt_eq [OF sample_log_wf(1)] entryAt_eq [OF sample_log_wf(2)],
     auto simp: sample_defs lastIndex_def split: if_splits)

subsection \<open>Properties\<close>

text \<open>
  C4: whatever \<^verbatim>\<open>HandleAppendEntries\<close> does with a request whose entries follow \<^verbatim>\<open>PrevLogIndex\<close> one after the other,
  on every path and whichever disk operation fails, position and index in the log stay tied together: \<^verbatim>\<open>r.log[0]\<close>
  has index \<^verbatim>\<open>logOffset + 1\<close> and the indices go up by one.
\<close>

theorem HandleAppendEntries_log_wf:
  assumes "log_wf r"
    and "contiguous (unat (aea_PrevLogIndex args)) (aea_Entries args)"
    and "unat (aea_PrevLogIndex args) + length (aea_Entries args) < 2 ^ 63"
  shows "log_wf (snd (HandleAppendEntries r args))"
proof -
  obtain reply r' where eq: "HandleAppendEntries r args = (reply, r')" by fastforce
  from assms eq have "log_wf r'" by (cases rule: HandleAppendEntries_log)
  with eq show ?thesis by simp
qed

theorem HandleAppendEntries_log_wf_witness:
  "log_wf (snd (HandleAppendEntries (sample_node 2 Follower [sample_entry 1 1, sample_entry 1 2]) sample_append))"
  by (rule HandleAppendEntries_log_wf)
    (simp_all add: sample_append_def sample_node_def sample_entry_def log_wf_def)

text \<open>
  C11: when \<^verbatim>\<open>HandleAppendEntries\<close> reports success the log has, at the index of every entry of the request that was not
  compacted away meanwhile, that entry, or the one that was there before if it had the same term; up to \<^verbatim>\<open>PrevLogIndex\<close> the log is as before; and
  if no entry of the request contradicts the log nothing of the log is lost, even if the request is an old one.
\<close>

theorem HandleAppendEntries_stores:
  assumes "log_wf r"
    and "contiguous (unat (aea_PrevLogIndex args)) (aea_Entries args)"
    and "unat (aea_PrevLogIndex args) + length (aea_Entries args) < 2 ^ 63"
    and "HandleAppendEntries r args = (reply, r')" and "aer_Success reply"
  shows "(\<forall>e\<in>set (aea_Entries args). logOffset r' < Index e \<longrightarrow>
            entryAt r' (Index e) = Some e \<or>
            (\<exists>x. entryAt r (Index e) = Some x \<and> Term x = Term e \<and> entryAt r' (Index e) = Some x))
       \<and> (\<forall>j. logOffset r' < j \<longrightarrow> j \<le> aea_PrevLogIndex args \<longrightarrow> entryAt r' j = entryAt r j)
       \<and> ((\<forall>e\<in>set (aea_Entries args). \<forall>x. entryAt r (Index e) = Some x \<longrightarrow> Term x = Term e) \<longrightarrow>
            (\<forall>j v. logOffset r' < j \<longrightarrow> entryAt r j = Some v \<longrightarrow> entryAt r' j = Some v))"
  using assms(1-4)
proof (cases rule: HandleAppendEntries_log [case_names kept stored])
  case kept
  then show ?thesis using assms(5) by simp
next
  case (stored r2)
  have e: "entryAt r' j = entryAt r2 j" if "logOffset r' < j" for j using stored(6) that by simp
  show ?thesis
  proof (intro conjI)
    show "\<forall>e\<in>set (aea_Entries args). logOffset r' < Index e \<longrightarrow>
        entryAt r' (Index e) = Some e \<or>
        (\<exists>x. entryAt r (Index e) = Some x \<and> Term x = Term e \<and> entryAt r' (Index e) = Some x)"
      using stored(4) e by metis
    show "\<forall>j. logOffset r' < j \<longrightarrow> j \<le> aea_PrevLogIndex args \<longrightarrow> entryAt r' j = entryAt r j"
      using stored(5) e by (simp add: word_le_nat_alt)
    show "(\<forall>e\<in>set (aea_Entries args). \<forall>x. entryAt r (Index e) = Some x \<longrightarrow> Term x = Term e) \<longrightarrow>
        (\<forall>j v. logOffset r' < j \<longrightarrow> entryAt r j = Some v \<longrightarrow> entryAt r' j = Some v)"
      using stored(9) e by metis
  qed
qed

theorem HandleAppendEntries_stores_witness:
  "entryAt (snd (HandleAppendEntries sample_follower sample_append)) 3 = Some (sample_entry 2 3)"
proof -
  let ?h = "HandleAppendEntries sample_follower sample_append"
  have ok: "aer_Success (fst ?h)" and off: "logOffset (snd ?h) = 0"
    by (simp_all add: sample_eval sample_defs finishAppend_def updateCommit_def lastLogIndexAndTerm_def
        applyCommitted_eq maybeSnapshot_def snapshotThreshold_def)
  have "entryAt sample_follower 3 = None"
    by (simp add: entryAt_eq [OF sample_log_wf(2)]) (simp add: sample_defs lastIndex_def)
  moreover have "sample_entry 2 3 \<in> set (aea_Entries sample_append)" "Index (sample_entry 2 3) = 3"
    by (simp_all add: sample_defs)
  ultimately show ?thesis
    using HandleAppendEntries_stores [OF sample_log_wf(2) sample_args surjective_pairing ok] off by fastforce
qed

text \<open>
  C2: log matching. Let a follower's log and a leader's log agree up to every index where they have the same term. Whatever
  the leader's heartbeat sends to a peer and whatever the follower does with it, disk failures included, the logs
  still match; and if the follower accepted entries, it then holds the same entry as the leader wherever both
  hold one, up to the end of the leader's log.
\<close>

theorem heartbeat_log_matching:
  assumes "log_wf l" and "log_wf r" and "log_match l r"
    and "heartBeatTick l g = Inr (Some hb)" and "(p, addr, d) \<in> set (hb_sends hb)"
    and "HandleAppendEntries r (heartBeatArgs l' (hb_term hb) (hb_leader hb) d) = (reply, r')"
  shows "log_wf r' \<and> log_match l r'
      \<and> (aer_Success reply \<and> pd_entries d \<noteq> [] \<longrightarrow> log_agree l r' \<and> lastIndex l \<le> lastIndex r')"
proof (cases "pd_entries d = []")
  case True
  let ?a = "heartBeatArgs l' (hb_term hb) (hb_leader hb) d"
  have es: "aea_Entries ?a = []" using True by (simp add: heartBeatArgs_def)
  then have "contiguous 0 (aea_Entries ?a)" "0 + length (aea_Entries ?a) < 2 ^ 63" by simp_all
  with assms(2) show ?thesis using assms(6)
  proof (cases rule: HandleAppendEntries_log [case_names kept stored])
    case kept
    then show ?thesis using assms(3) True log_match_sublog by blast
  next
    case (stored r2)
    then have "\<forall>j. entryAt r2 j = entryAt r j" using es entryAt_cong by blast
    with stored(6) have "entryAt r j = Some v" if "entryAt r' j = Some v" for j v
      using that by (auto split: if_splits)
    then have "log_match l r'" using log_match_sublog [OF assms(3)] by blast
    then show ?thesis using stored(2) True by simp
  qed
next
  case False
  then have "suffix_of l d"
    using heartBeatTick_sends [OF assms(1,4,5)] by (auto simp: emptyPeerData_def)
  then show ?thesis
    using HandleAppendEntries_suffix [OF assms(1-3) _ False assms(6)] by blast
qed

theorem heartbeat_log_matching_witness:
  "log_agree sample_leader (snd (HandleAppendEntries sample_follower (heartBeatArgs sample_leader 1 1 sample_data)))"
proof -
  let ?h = "HandleAppendEntries sample_follower (heartBeatArgs sample_leader 1 1 sample_data)"
  have beat: "hb_term sample_beat = 1" "hb_leader sample_beat = 1"
    "(2, lit ''localhost:9002'', sample_data) \<in> set (hb_sends sample_beat)" "pd_entries sample_data \<noteq> []"
    by (simp_all add: sample_beat_def sample_data_def)
  have "aer_Success (fst ?h)"
    by (simp add: sample_eval sample_defs heartBeatArgs_def)
  then show ?thesis
    using heartbeat_log_matching [OF sample_log_wf sample_match sample_tick beat(3), of sample_leader "fst ?h" "snd ?h"] beat
    by simp
qed

text \<open>
  C12: a rejected \<^verbatim>\<open>AppendEntries\<close> changes neither commit index nor state machine. After an accepted one the
  commit index is that of the leader, but at most the last index of the log, and never lower than it was; exactly
  the entries from \<^verbatim>\<open>lastApplied + 1\<close> to the commit index were applied, each once and in order.
\<close>

theorem HandleAppendEntries_applies:
  assumes wf: "log_wf r"
    and con: "contiguous (unat (aea_PrevLogIndex args)) (aea_Entries args)"
    and bound: "unat (aea_PrevLogIndex args) + length (aea_Entries args) < 2 ^ 63"
    and la: "logOffset r \<le> lastApplied r" and ci: "commitIndex r \<le> lastApplied r"
    and eq: "HandleAppendEntries r args = (reply, r')"
  shows "if aer_Success reply
     then commitIndex r' = (if aea_LeaderCommit args > commitIndex r
                            then min (aea_LeaderCommit args) (of_nat (lastIndex r')) else commitIndex r)
        \<and> lastApplied r' = max (lastApplied r) (commitIndex r')
        \<and> (\<exists>es. stateMachine r' = apply_all (stateMachine r) es
              \<and> set es \<subseteq> set (rlog r) \<union> set (aea_Entries args)
              \<and> map (\<lambda>e. unat (Index e)) es = [unat (lastApplied r) + 1..<unat (commitIndex r') + 1])
     else commitIndex r' = commitIndex r \<and> lastApplied r' = lastApplied r \<and> stateMachine r' = stateMachine r"
  using eq
proof (cases rule: HandleAppendEntries_cases [case_names stale mismatch truncate_error gap append])
  case stale
  then show ?thesis by (simp add: rejectAppend_def)
next
  case mismatch
  then show ?thesis by (simp add: rejectAppend_def)
next
  case truncate_error
  then show ?thesis using scanEntries_upd [OF truncate_error(4)] by (auto simp: rejectAppend_def)
next
  case gap
  then show ?thesis using scanEntries_upd [OF gap(4)] by (auto simp: rejectAppend_def)
next
  case (append ra f r1 res s)
  let ?new = "drop f (aea_Entries args)"
  let ?r2 = "r1\<lparr>rlog := rlog r1 @ ?new, env := s\<rparr>"
  obtain k s1 where r1: "r1 = ra\<lparr>rlog := take k (rlog ra), env := s1\<rparr>" using scanEntries_upd [OF append(4)] by blast
  have wfa: "log_wf ra" using wf append(2) by simp
  have wf2: "log_wf ?r2" by (rule append_core(1) [OF wfa con bound append(4,5)]) simp_all
  have same: "commitIndex ?r2 = commitIndex r" "lastApplied ?r2 = lastApplied r" "stateMachine ?r2 = stateMachine r"
    "logOffset ?r2 = logOffset r" by (simp_all add: r1 append(2))
  have sub: "set (rlog ?r2) \<subseteq> set (rlog r) \<union> set (aea_Entries args)"
    by (auto simp: r1 append(2) dest: in_set_takeD in_set_dropD)
  show ?thesis
  proof (cases "isl res")
    case True
    then have "r' = ?r2" "\<not> aer_Success reply" using append(7) by (auto simp: rejectAppend_def)
    then show ?thesis using same by simp
  next
    case False
    then have fin: "r' = finishAppend (aea_LeaderCommit args) ?r2" "aer_Success reply" using append(8) by auto
    have li: "lastIndex r' = lastIndex ?r2" unfolding fin(1) by (rule finishAppend_log(2) [OF wf2])
    have h: "logOffset ?r2 \<le> lastApplied ?r2" "commitIndex ?r2 \<le> lastApplied ?r2" using la ci same by simp_all
    show ?thesis
      using finishAppend_fields [OF wf2 h, of "aea_LeaderCommit args", folded fin(1)] fin(2) sub
      unfolding li same by (simp only: if_True) blast
  qed
qed

theorem HandleAppendEntries_applies_witness:
  "\<exists>es. stateMachine (snd (HandleAppendEntries sample_follower sample_append)) = apply_all NewStateMachine es
     \<and> map (\<lambda>e. unat (Index e)) es = [1, 2]"
proof -
  let ?h = "HandleAppendEntries sample_follower sample_append"
  have ok: "aer_Success (fst ?h)" and ci: "commitIndex (snd ?h) = 2"
    by (simp_all add: sample_eval sample_defs finishAppend_def updateCommit_def lastLogIndexAndTerm_def
        applyCommitted_eq maybeSnapshot_def snapshotThreshold_def)
  have la: "lastApplied sample_follower = 0" "stateMachine sample_follower = NewStateMachine"
    "logOffset sample_follower \<le> lastApplied sample_follower" "commitIndex sample_follower \<le> lastApplied sample_follower"
    by (simp_all add: sample_defs)
  have "\<exists>es. stateMachine (snd ?h) = apply_all (stateMachine sample_follower) es
      \<and> set es \<subseteq> set (rlog sample_follower) \<union> set (aea_Entries sample_append)
      \<and> map (\<lambda>e. unat (Index e)) es = [unat (lastApplied sample_follower) + 1..<unat (commitIndex (snd ?h)) + 1]"
    using HandleAppendEntries_applies [OF sample_log_wf(2) sample_args la(3,4) surjective_pairing]
    unfolding if_P [OF ok] by (elim conjE)
  then show ?thesis unfolding la ci by (auto simp: upt_rec)
qed

text \<open>
  C30: a tick of the heartbeat loop crashes the leader exactly if it is the leader of its generation and \<^verbatim>\<open>nextIndex\<close> of a
  peer lies more than one behind the end of the log (and not so far that the position is negative as a signed number);
  there is no other failure.
\<close>

theorem heartBeatTick_panics_iff:
  assumes "log_wf r"
  shows "heartBeatTick r g = Inl e \<longleftrightarrow>
     e = Panic \<and> rstate r = Leader \<and> leaderGeneration r = g \<and>
     (\<exists>p\<in>fst ` set (peers r). lastIndex r + 1 < unat (go_index (nextIndex r) p)
        \<and> unat (go_index (nextIndex r) p) \<le> unat (logOffset r) + 2 ^ 63)"
  using heartBeatTick_panic_collect [of r "map fst (peers r)" e] toSlicePos_beyond [OF assms]
  by (cases "collectPeers r (map fst (peers r))") (auto simp: heartBeatTick_def)

theorem heartBeatTick_panics_iff_witness:
  "heartBeatTick (sample_leader\<lparr>nextIndex := [(2, 5)]\<rparr>) 1 = Inl Panic"
proof -
  have "log_wf (sample_leader\<lparr>nextIndex := [(2, 5)]\<rparr>)" using sample_log_wf(1) by simp
  then show ?thesis
    using heartBeatTick_panics_iff [of "sample_leader\<lparr>nextIndex := [(2, 5)]\<rparr>" 1 Panic]
    by (simp add: sample_defs go_index_def lastIndex_def)
qed

text \<open>
  C13: a follower whose log ends before the entries a heartbeat sends is caught up by the next heartbeat: the first is
  rejected with a hint, the leader goes back to the end of the follower's log in one step, and the second is
  accepted and leaves both logs with the same last index and the same entries. It needs that the leader still has
  the entry at the end of the follower's log, with the same term, or that the follower's log is empty there, and that the disk works.
\<close>

theorem conflict_hint_catches_up:
  assumes wf: "log_wf l" "log_wf r" and m: "log_match l r"
    and tick: "heartBeatTick l g = Inr (Some hb)" "(p, addr, d) \<in> set (hb_sends hb)" "pd_entries d \<noteq> []"
    and behind: "lastIndex r < unat (pd_prevIndex d)"
    and term_ok: "currentTerm r \<le> hb_term hb"
    and r1: "HandleAppendEntries r (heartBeatArgs l (hb_term hb) (hb_leader hb) d) = (reply, r1)"
    and tick2: "heartBeatTick (heartBeatReply l p (hb_term hb) d reply) g = Inr (Some hb')"
      "(p, addr', d') \<in> set (hb_sends hb')"
    and r2: "HandleAppendEntries r1 (heartBeatArgs l' (hb_term hb') (hb_leader hb') d') = (reply', r2)"
    and kept: "unat (logOffset l) < lastIndex r \<or> rlog r = [] \<and> unat (logOffset l) = lastIndex r"
    and last_term: "\<And>x y. entryAt l (of_nat (lastIndex r)) = Some x \<Longrightarrow> entryAt r (of_nat (lastIndex r)) = Some y \<Longrightarrow>
       Term x = Term y"
    and disk: "faults (env r) = []" "wal_open (rwal r)"
  shows "\<not> aer_Success reply \<and> aer_Success reply' \<and> log_agree l r2 \<and> lastIndex r2 = lastIndex l"
proof -
  let ?n = "of_nat (lastIndex r) :: u64"
  let ?l1 = "l\<lparr>nextIndex := AList.update p (?n + 1) (nextIndex l)\<rparr>"
  have suf: "suffix_of l d" using heartBeatTick_sends [OF wf(1) tick(1,2)] tick(3) by (auto simp: emptyPeerData_def)
  note un = unat_lastIndex [OF wf(2)] and first = gap_round [OF wf suf tick(3) behind term_ok r1]
  note l1 = first(3) [of p] and r1e = first(2)
  have wf1: "log_wf ?l1" "log_wf r1" using wf by (simp_all add: r1e)
  have lr: "lastIndex r < lastIndex l" using behind suffix_of_contiguous(2) [OF wf(1) suf] by linarith
  have nx: "go_index (nextIndex ?l1) p = ?n + 1" by (simp add: go_index_def update_conv)
  have d': "suffix_of ?l1 d'" "pd_prevIndex d' = ?n"
    using heartBeatTick_data [OF wf1(1) tick2 [unfolded l1]] kept lr un nx by (auto simp: word_less_nat_alt)
  have ct: "currentTerm r1 \<le> hb_term hb'"
    using acceptLeader_term(1) [OF term_ok] tick(1) tick2(1) by (auto simp: r1e l1 heartBeatTick_def split: if_splits)
  have pm: "Term y = pd_prevTerm d'" if y: "entryAt r1 (pd_prevIndex d') = Some y" for y
  proof -
    have e: "entryAt r ?n = Some y" using y by (simp add: r1e d'(2))
    then have "rlog r \<noteq> []" using un by (auto simp: entryAt_eq wf(2) lastIndex_def split: if_splits)
    then obtain x where x: "entryAt l ?n = Some x" using kept lr un by (auto simp: entryAt_eq [OF wf(1)])
    have "Term x = Term y" using x e by (rule last_term)
    with x show ?thesis using d' by (simp add: suffix_of_def)
  qed
  have "log_match ?l1 r1" using m log_match_cong [of ?l1 l r1 r] by (simp add: r1e)
  moreover have "pd_prevIndex d' = of_nat (lastIndex r1)" "lastIndex r1 < lastIndex ?l1"
    "faults (env r1) = []" "wal_open (rwal r1)" using d'(2) lr disk by (simp_all add: r1e)
  ultimately have "aer_Success reply' \<and> log_agree ?l1 r2 \<and> lastIndex r2 = lastIndex ?l1"
    using next_round [OF wf1 _ d'(1) _ _ pm ct _ _ r2] by blast
  then show ?thesis using first(1) by (simp add: log_agree_def)
qed

theorem conflict_hint_catches_up_witness:
  "let r = sample_node 2 Follower [];
       (reply, r1) = HandleAppendEntries r (heartBeatArgs sample_leader 1 1 sample_data);
       l1 = heartBeatReply sample_leader 2 1 sample_data reply;
       d = \<lparr>pd_entries = [sample_entry 1 1, sample_entry 1 2], pd_prevIndex = 0, pd_prevTerm = 0\<rparr>;
       (reply', r2) = HandleAppendEntries r1 (heartBeatArgs sample_leader 1 1 d)
   in (\<exists>hb addr. heartBeatTick l1 1 = Inr (Some hb) \<and> (2, addr, d) \<in> set (hb_sends hb))
      \<and> \<not> aer_Success reply \<and> aer_Success reply' \<and> log_agree sample_leader r2 \<and> lastIndex r2 = 2"
proof -
  let ?r = "sample_node 2 Follower []"
  let ?h = "HandleAppendEntries ?r (heartBeatArgs sample_leader (hb_term sample_beat) (hb_leader sample_beat) sample_data)"
  let ?l1 = "heartBeatReply sample_leader 2 (hb_term sample_beat) sample_data (fst ?h)"
  let ?d = "\<lparr>pd_entries = [sample_entry 1 1, sample_entry 1 2], pd_prevIndex = 0, pd_prevTerm = 0\<rparr>"
  let ?b = "\<lparr>hb_term = 1, hb_leader = 1, hb_needs = [],
     hb_sends = [(2, lit ''localhost:9002'', ?d), (3, lit ''localhost:9003'', sample_data)]\<rparr>"
  have wf: "log_wf ?r" by (simp add: sample_defs log_wf_def)
  have none: "entryAt ?r j = None" for j by (simp add: entryAt_eq [OF wf]) (simp add: sample_defs lastIndex_def)
  have m: "log_match sample_leader ?r" by (simp add: log_match_def none)
  have beat: "(2, lit ''localhost:9002'', sample_data) \<in> set (hb_sends sample_beat)" "pd_entries sample_data \<noteq> []"
    "lastIndex ?r < unat (pd_prevIndex sample_data)" "currentTerm ?r \<le> hb_term sample_beat"
    by (simp_all add: sample_defs lastIndex_def)
  have tick2: "heartBeatTick ?l1 1 = Inr (Some ?b)" "(2, lit ''localhost:9002'', ?d) \<in> set (hb_sends ?b)"
    by (simp_all add: sample_eval sample_defs heartBeatArgs_def heartBeatReply_def heartBeatSuperseded_def
        heartBeatOutcome_def rejectAppend_def heartBeatTick_def go_index_def)
  let ?h2 = "HandleAppendEntries (snd ?h) (heartBeatArgs sample_leader (hb_term ?b) (hb_leader ?b) ?d)"
  have f: "hb_term sample_beat = 1" "hb_leader sample_beat = 1" "hb_term ?b = 1" "hb_leader ?b = 1"
    "lastIndex sample_leader = 2" by (simp_all add: sample_beat_def) (simp add: sample_defs lastIndex_def)
  have "\<not> aer_Success (fst ?h) \<and> aer_Success (fst ?h2) \<and> log_agree sample_leader (snd ?h2)
      \<and> lastIndex (snd ?h2) = lastIndex sample_leader"
    by (rule conflict_hint_catches_up [OF sample_log_wf(1) wf m sample_tick beat surjective_pairing tick2 surjective_pairing])
      (simp_all only: none, simp_all add: sample_defs lastIndex_def)
  note this [unfolded f] and tick2 [unfolded f(1,2)]
  then show ?thesis unfolding Let_def case_prod_beta by blast
qed

end
