(* ===== verification/Raft_Steps.thy ===== *)
theory Raft_Steps
  imports Raft_Matching
begin

text \<open>
  A node as a state machine: the invariant \<open>node_wf\<close>, the step relation whose steps are the locked
  sections of \<^verbatim>\<open>raft/raft.go\<close>, runs of a node, and what they keep: the invariant and the votes.
\<close>

subsection \<open>The invariant of a node\<close>

definition node_wf :: "raft \<Rightarrow> bool" where
  "node_wf r \<longleftrightarrow> log_wf r \<and> logOffset r \<le> lastApplied r \<and> commitIndex r \<le> lastApplied r \<and> sm_wf (stateMachine r)"

lemma node_wfI:
  "log_wf r \<Longrightarrow> logOffset r \<le> lastApplied r \<Longrightarrow> commitIndex r \<le> lastApplied r \<Longrightarrow> sm_wf (stateMachine r) \<Longrightarrow> node_wf r"
  by (simp add: node_wf_def)

lemma node_wf_cong:
  "rlog q = rlog r \<Longrightarrow> logOffset q = logOffset r \<Longrightarrow> lastApplied q = lastApplied r \<Longrightarrow>
     commitIndex q = commitIndex r \<Longrightarrow> stateMachine q = stateMachine r \<Longrightarrow> node_wf q = node_wf r"
  by (simp add: node_wf_def log_wf_def)

lemma maybeSnapshot_wf: "node_wf r \<Longrightarrow> node_wf (maybeSnapshot r)"
  using maybeSnapshot_log(1,4) [of r] by (auto simp: node_wf_def frame_simps)

lemma apply_wf:
  assumes "log_wf r" and "logOffset r \<le> lastApplied r" and "sm_wf (stateMachine r)"
  shows "node_wf (applyCommitted r)"
  using assms by (intro node_wfI) (simp_all add: log_wf_def applyCommitted_eq sm_wf_apply_all le_max_iff_disj)

lemma finishAppend_wf:
  "log_wf r \<Longrightarrow> logOffset r \<le> lastApplied r \<Longrightarrow> sm_wf (stateMachine r) \<Longrightarrow> node_wf (finishAppend c r)"
  unfolding finishAppend_def by (intro maybeSnapshot_wf apply_wf) (simp_all add: log_wf_def)

lemma tryAdvance_wf:
  assumes "node_wf r"
  shows "node_wf (tryAdvanceCommitIndex r)"
proof -
  have "node_wf (maybeSnapshot (applyCommitted (r\<lparr>commitIndex := m\<rparr>)))" for m
    using assms by (intro maybeSnapshot_wf apply_wf) (simp_all add: node_wf_def)
  then show ?thesis using assms by (simp add: tryAdvanceCommitIndex_def Let_def split: option.splits)
qed

subsection \<open>Appending at the end\<close>

lemma log_wf_snoc:
  assumes "log_wf r" and "lastIndex r + 1 < 2 ^ 63" and "unat (Index e) = lastIndex r + 1"
    and "rlog q = rlog r @ [e]" and "logOffset q = logOffset r"
  shows "log_wf q"
  using assms by (simp add: log_wf_def lastIndex_def)

lemma next_index: "log_wf r \<Longrightarrow> unat (fst (lastLogIndexAndTerm r) + 1) = lastIndex r + 1"
  using unat_lastIndex(2) [of r] by (simp add: lastLogIndex_word)

lemma Propose_wf:
  assumes "node_wf r" and "lastIndex r + 1 < 2 ^ 63"
  shows "node_wf (snd (Propose r d))"
proof -
  have wf: "log_wf r" using assms by (simp add: node_wf_def)
  let ?e = "\<lparr>Term = currentTerm r, Index = fst (lastLogIndexAndTerm r) + 1, Data = d\<rparr>"
  have "log_wf (r\<lparr>rlog := rlog r @ [?e]\<rparr>)"
    using wf assms(2) by (rule log_wf_snoc) (simp_all add: next_index [OF wf])
  then show ?thesis
    using assms by (auto simp: Propose_def Let_def node_wf_def split: prod.splits sum.splits)
qed

lemma initPeers_frame [simp]:
  "rlog (initPeers n ps r) = rlog r" "logOffset (initPeers n ps r) = logOffset r"
  "lastApplied (initPeers n ps r) = lastApplied r" "commitIndex (initPeers n ps r) = commitIndex r"
  "stateMachine (initPeers n ps r) = stateMachine r" "currentTerm (initPeers n ps r) = currentTerm r"
  "votedFor (initPeers n ps r) = votedFor r" "rstate (initPeers n ps r) = rstate r" "peers (initPeers n ps r) = peers r"
  "node_id (initPeers n ps r) = node_id r" "rwal (initPeers n ps r) = rwal r" "env (initPeers n ps r) = env r"
  "leaderGeneration (initPeers n ps r) = leaderGeneration r"
  by (induction ps arbitrary: r) simp_all

lemma becomeLeader_fields:
  "currentTerm (fst (becomeLeader r)) = currentTerm r" "votedFor (fst (becomeLeader r)) = votedFor r"
  "lastApplied (fst (becomeLeader r)) = lastApplied r" "commitIndex (fst (becomeLeader r)) = commitIndex r"
  "stateMachine (fst (becomeLeader r)) = stateMachine r" "logOffset (fst (becomeLeader r)) = logOffset r"
  "rlog (fst (becomeLeader r)) = rlog r @ [\<lparr>Term = currentTerm r, Index = fst (lastLogIndexAndTerm r) + 1, Data = lit ''no-op''\<rparr>]"
  "rstate (fst (becomeLeader r)) = Leader" "leaderGeneration (fst (becomeLeader r)) = leaderGeneration r + 1"
  by (auto simp: becomeLeader_def Let_def lastLogIndexAndTerm_def split: prod.splits sum.splits)

lemma becomeLeader_wf:
  assumes "node_wf r" and "lastIndex r + 1 < 2 ^ 63"
  shows "node_wf (fst (becomeLeader r))"
proof -
  have wf: "log_wf r" using assms by (simp add: node_wf_def)
  have "log_wf (fst (becomeLeader r))"
    using wf assms(2) by (rule log_wf_snoc) (simp_all add: next_index [OF wf] becomeLeader_fields)
  then show ?thesis using assms(1) by (simp add: node_wf_def becomeLeader_fields)
qed

lemma voteReply_wf:
  "node_wf r \<Longrightarrow> lastIndex r + 1 < 2 ^ 63 \<Longrightarrow> node_wf (fst (voteReply st ss r votes maj reply))"
  using becomeLeader_wf [of r]
  by (cases "becomeLeader r") (auto simp: voteReply_def Let_def node_wf_def)

subsection \<open>Handlers\<close>

lemma HandleRequestVote_wf: "node_wf r \<Longrightarrow> node_wf (snd (HandleRequestVote r args))"
  by (subst node_wf_cong [of _ r]) (auto simp: HandleRequestVote_def Let_def)

lemma HandleAppendEntries_wf:
  assumes "node_wf r" and "contiguous (unat (aea_PrevLogIndex args)) (aea_Entries args)"
    and "unat (aea_PrevLogIndex args) + length (aea_Entries args) < 2 ^ 63"
  shows "node_wf (snd (HandleAppendEntries r args))"
proof -
  obtain reply r' where eq: "HandleAppendEntries r args = (reply, r')" by fastforce
  have wf: "log_wf r" "logOffset r \<le> lastApplied r" "commitIndex r \<le> lastApplied r" "sm_wf (stateMachine r)"
    using assms(1) by (simp_all add: node_wf_def)
  have lw: "log_wf r'" using wf(1) assms(2,3) eq by (cases rule: HandleAppendEntries_log)
  have "node_wf r'"
    using eq
  proof (cases rule: HandleAppendEntries_cases [case_names stale mismatch truncate_error gap append])
    case stale
    then show ?thesis using assms(1) by simp
  next
    case mismatch
    then show ?thesis using wf by (simp add: node_wf_def)
  next
    case truncate_error
    then show ?thesis using lw wf scanEntries_upd [OF truncate_error(4)] by (auto simp: node_wf_def)
  next
    case gap
    then show ?thesis using lw wf scanEntries_upd [OF gap(4)] by (auto simp: node_wf_def)
  next
    case (append ra f r1 res s)
    let ?r2 = "r1\<lparr>rlog := rlog r1 @ drop f (aea_Entries args), env := s\<rparr>"
    have wfa: "log_wf ra" using wf append(2) by simp
    have "log_wf ?r2" by (rule append_core(1) [OF wfa assms(2,3) append(4,5)]) simp_all
    moreover have "logOffset ?r2 \<le> lastApplied ?r2" "commitIndex ?r2 \<le> lastApplied ?r2" "sm_wf (stateMachine ?r2)"
      using scanEntries_upd [OF append(4)] wf append(2) by auto
    ultimately show ?thesis
      using append(7,8) finishAppend_wf [of ?r2] node_wfI [of ?r2] by (cases "isl res") simp_all
  qed
  then show ?thesis by (simp add: eq)
qed

lemma DecodeSnapshot_distinct: "DecodeSnapshot bs = Inr s \<Longrightarrow> distinct (map fst (snap_Data s))"
  by (auto simp: DecodeSnapshot_def split_def copy_map_wf)

lemma HandleInstallSnapshot_wf:
  assumes "node_wf r" and "\<And>s. DecodeSnapshot (isa_Data args) = Inr s \<Longrightarrow> unat (LastIncludedIndex s) < 2 ^ 63"
  shows "node_wf (snd (HandleInstallSnapshot r args))"
  using assms
  by (auto simp: HandleInstallSnapshot_def Let_def node_wf_def log_wf_def sm_wf_def Restore_def DecodeSnapshot_distinct
      split: sum.splits prod.splits)

lemma heartBeatOutcome_wf: "node_wf r \<Longrightarrow> node_wf (heartBeatOutcome r p d reply)"
  by (auto simp: heartBeatOutcome_def Let_def node_wf_def
      intro!: tryAdvance_wf [unfolded node_wf_def])


subsection \<open>Steps\<close>

text \<open>
  What is recorded of a step: a vote given in a term, an answer acted upon although the node has meanwhile
  reached the term of the answer or a later one, which takes back what the node did in its current term, or
  nothing of interest.
\<close>

datatype event = Voted u64 u64 | LateReply | Silent

text \<open>
  One step of a node, each a section of the code that runs under the lock. What a goroutine read before it
  took the lock is arbitrary here (\<open>st\<close>, \<open>ss\<close>). The side conditions are that requests carry consecutive
  entries, as heartbeats build them, and that indices stay below \<open>2 ^ 63\<close> and terms below \<open>2 ^ 64 - 1\<close>.
\<close>

inductive node_step :: "raft \<Rightarrow> event \<Rightarrow> raft \<Rightarrow> bool" where
  vote: "HandleRequestVote r args = (reply, r') \<Longrightarrow>
     node_step r (if rvr_VoteGranted reply then Voted (rva_Term args) (rva_CandidateID args) else Silent) r'"
| append: "contiguous (unat (aea_PrevLogIndex args)) (aea_Entries args) \<Longrightarrow>
     unat (aea_PrevLogIndex args) + length (aea_Entries args) < 2 ^ 63 \<Longrightarrow>
     node_step r Silent (snd (HandleAppendEntries r args))"
| install: "(\<And>s. DecodeSnapshot (isa_Data args) = Inr s \<Longrightarrow> unat (LastIncludedIndex s) < 2 ^ 63) \<Longrightarrow>
     node_step r Silent (snd (HandleInstallSnapshot r args))"
| timeout: "unat (currentTerm r) + 1 < 2 ^ 64 \<Longrightarrow>
     node_step r (if ss \<noteq> Leader then Voted (currentTerm r + 1) (node_id r) else Silent) (fst (electionTimeout ss r))"
| vote_reply: "lastIndex r + 1 < 2 ^ 63 \<Longrightarrow>
     node_step r (if st < rvr_Term reply \<and> rvr_Term reply \<le> currentTerm r then LateReply else Silent)
       (fst (voteReply st ss r votes maj reply))"
| superseded: "node_step r (if t < aer_Term reply \<and> aer_Term reply \<le> currentTerm r then LateReply else Silent)
     (heartBeatSuperseded r t reply)"
| outcome: "node_step r Silent (heartBeatOutcome r p d reply)"
| propose: "lastIndex r + 1 < 2 ^ 63 \<Longrightarrow> node_step r Silent (snd (Propose r d))"
| snapshot_args: "node_step r Silent (snd (sendSnapshotArgs r t l))"
| snapshot_reply: "node_step r Silent (sendSnapshotReply r p i reply)"

inductive node_run :: "raft \<Rightarrow> event list \<Rightarrow> raft \<Rightarrow> bool" where
  start: "node_run r [] r"
| step: "node_run r evs r' \<Longrightarrow> node_step r' ev r'' \<Longrightarrow> node_run r (evs @ [ev]) r''"

lemma sendSnapshotArgs_env: "\<exists>s. snd (sendSnapshotArgs r t l) = r\<lparr>env := s\<rparr>"
  by (auto simp: sendSnapshotArgs_def split: prod.splits sum.splits option.splits)

lemma node_step_wf: "node_step r ev r' \<Longrightarrow> node_wf r \<Longrightarrow> node_wf r'"
proof (induction rule: node_step.induct)
  case (vote r args reply r')
  then show ?case using HandleRequestVote_wf [of r args] by simp
next
  case (timeout r ss)
  then show ?case by (simp add: electionTimeout_def becomeCandidate_def Let_def node_wf_def log_wf_def)
next
  case (superseded r t reply)
  then show ?case by (simp add: heartBeatSuperseded_def node_wf_def)
next
  case (snapshot_args r t l)
  then show ?case using sendSnapshotArgs_env [of r t l] by (auto simp: node_wf_def)
next
  case (snapshot_reply r p i reply)
  then show ?case by (simp add: sendSnapshotReply_def node_wf_def)
qed (simp_all add: HandleAppendEntries_wf HandleInstallSnapshot_wf voteReply_wf heartBeatOutcome_wf Propose_wf)

subsection \<open>Votes\<close>

text \<open>The term does not go down, and within a term a vote stays.\<close>

definition votes_kept :: "raft \<Rightarrow> raft \<Rightarrow> bool" where
  "votes_kept r r' \<longleftrightarrow> currentTerm r \<le> currentTerm r'
     \<and> (currentTerm r' = currentTerm r \<and> votedFor r \<noteq> None \<longrightarrow> votedFor r' = votedFor r)"

lemma votes_keptI:
  "currentTerm r' = currentTerm r \<Longrightarrow> votedFor r' = votedFor r \<Longrightarrow> votes_kept r r'"
  "currentTerm r < currentTerm r' \<Longrightarrow> votes_kept r r'"
  by (auto simp: votes_kept_def)

lemma scanEntries_votes:
  "scanEntries i i es r = (x, r1) \<Longrightarrow> currentTerm r1 = currentTerm r \<and> votedFor r1 = votedFor r"
  by (drule scanEntries_upd) auto

lemma finishAppend_votes [simp]:
  "currentTerm (finishAppend c r) = currentTerm r" "votedFor (finishAppend c r) = votedFor r"
  by (simp_all add: finishAppend_def frame_simps)

lemma HandleAppendEntries_votes:
  "votes_kept r (snd (HandleAppendEntries r args))"
proof -
  obtain reply r' where eq: "HandleAppendEntries r args = (reply, r')" by fastforce
  have acc: "votes_kept r ra" if "currentTerm r \<le> aea_Term args" "ra = acceptLeader (aea_Term args) (aea_LeaderID args) r" for ra
    using that acceptLeader_term [of r "aea_Term args" "aea_LeaderID args"] by (auto simp: votes_kept_def)
  have mono: "votes_kept r r'" if "votes_kept r ra" "currentTerm r' = currentTerm ra" "votedFor r' = votedFor ra" for ra
    using that by (simp add: votes_kept_def)
  have "votes_kept r r'"
    using eq
  proof (cases rule: HandleAppendEntries_cases [case_names stale mismatch truncate_error gap append])
    case stale
    then show ?thesis by (simp add: votes_kept_def)
  next
    case (mismatch ra)
    then show ?thesis using acc by simp
  next
    case (truncate_error ra err)
    then show ?thesis using acc mono scanEntries_votes [OF truncate_error(4)] by blast
  next
    case (gap ra f)
    then show ?thesis using acc mono scanEntries_votes [OF gap(4)] by blast
  next
    case (append ra f r1 res s)
    have "currentTerm r' = currentTerm ra \<and> votedFor r' = votedFor ra"
      using append(7,8) scanEntries_votes [OF append(4)] by (cases "isl res") auto
    then show ?thesis using acc mono append(1,2) by blast
  qed
  then show ?thesis by (simp add: eq)
qed

lemma tryAdvance_votes [simp]:
  "currentTerm (tryAdvanceCommitIndex r) = currentTerm r" "votedFor (tryAdvanceCommitIndex r) = votedFor r"
  by (auto simp: tryAdvanceCommitIndex_def Let_def frame_simps split: option.splits)

lemma HandleRequestVote_votes:
  assumes "HandleRequestVote r args = (reply, r')"
  shows "votes_kept r r'"
    and "rvr_VoteGranted reply \<Longrightarrow> currentTerm r' = rva_Term args \<and> votedFor r' = Some (rva_CandidateID args)"
  using assms
  by (auto simp: HandleRequestVote_def Let_def votes_kept_def split: if_splits)

lemma node_step_votes:
  "node_step r ev r' \<Longrightarrow> ev \<noteq> LateReply \<Longrightarrow>
     votes_kept r r' \<and> (\<forall>t c. ev = Voted t c \<longrightarrow> currentTerm r' = t \<and> votedFor r' = Some c)"
proof (induction rule: node_step.induct)
  case (vote r args reply r')
  then show ?case using HandleRequestVote_votes [OF vote(1)] by auto
next
  case (append args r)
  then show ?case using HandleAppendEntries_votes by simp
next
  case (install args r)
  then show ?case
    by (auto simp: HandleInstallSnapshot_def Let_def votes_kept_def split: sum.splits prod.splits)
next
  case (timeout r ss)
  have "currentTerm r < currentTerm r + 1" using timeout(1) by (simp add: unat_word_ariths word_less_nat_alt)
  then show ?case
    by (auto simp: electionTimeout_def becomeCandidate_def Let_def intro: votes_keptI)
next
  case (vote_reply r st reply ss votes maj)
  then show ?case
    using becomeLeader_fields(1,2) [of r]
    by (cases "becomeLeader r") (auto simp: voteReply_def Let_def intro: votes_keptI split: if_splits)
next
  case (superseded r t reply)
  then show ?case by (auto simp: heartBeatSuperseded_def votes_kept_def split: if_splits)
next
  case (outcome r p d reply)
  then show ?case by (auto simp: heartBeatOutcome_def Let_def intro: votes_keptI)
next
  case (propose r d)
  then show ?case by (auto simp: Propose_def Let_def votes_kept_def split: prod.splits sum.splits)
next
  case (snapshot_args r t l)
  then show ?case using sendSnapshotArgs_env [of r t l] by (auto intro: votes_keptI)
next
  case (snapshot_reply r p i reply)
  then show ?case by (auto simp: sendSnapshotReply_def intro: votes_keptI)
qed

lemma node_run_votes:
  "node_run r evs r' \<Longrightarrow> LateReply \<notin> set evs \<Longrightarrow>
     (\<forall>t c. Voted t c \<in> set evs \<longrightarrow> t \<le> currentTerm r' \<and> (t = currentTerm r' \<longrightarrow> votedFor r' = Some c))
   \<and> (\<forall>t c d. Voted t c \<in> set evs \<longrightarrow> Voted t d \<in> set evs \<longrightarrow> c = d)"
proof (induction rule: node_run.induct)
  case (step r evs r' ev r'')
  then have old: "\<And>t c. Voted t c \<in> set evs \<Longrightarrow> t \<le> currentTerm r' \<and> (t = currentTerm r' \<longrightarrow> votedFor r' = Some c)"
    and uniq: "\<And>t c d. Voted t c \<in> set evs \<Longrightarrow> Voted t d \<in> set evs \<Longrightarrow> c = d"
    by auto
  have k: "votes_kept r' r''" and new: "\<And>t c. ev = Voted t c \<Longrightarrow> currentTerm r'' = t \<and> votedFor r'' = Some c"
    using node_step_votes [OF step(2)] step.prems by auto
  have old': "t \<le> currentTerm r'' \<and> (t = currentTerm r'' \<longrightarrow> votedFor r'' = Some c)" if "Voted t c \<in> set evs" for t c
    using old [OF that] k by (auto simp: votes_kept_def)
  then show ?case using new uniq by (fastforce)
qed simp

lemma node_run_keeps_wf: "node_run r evs r' \<Longrightarrow> node_wf r \<Longrightarrow> node_wf r'"
  by (induction rule: node_run.induct) (auto intro: node_step_wf)

subsection \<open>Properties\<close>

definition sample_vote :: "u64 \<Rightarrow> u64 \<Rightarrow> RequestVoteArgs" where
  "sample_vote t c = \<lparr>rva_Term = t, rva_CandidateID = c, rva_LastLogIndex = 9, rva_LastLogTerm = 1\<rparr>"

lemma sample_vote_run:
  "node_run sample_follower [Voted 2 3] (snd (HandleRequestVote sample_follower (sample_vote 2 3)))"
proof -
  let ?h = "HandleRequestVote sample_follower (sample_vote 2 3)"
  have "rvr_VoteGranted (fst ?h)"
    by (simp add: HandleRequestVote_def sample_defs sample_vote_def isCandidateLogUpToDate_def lastLogIndexAndTerm_def Let_def)
  then have "node_step sample_follower (Voted 2 3) (snd ?h)"
    using node_step.vote [OF surjective_pairing [of ?h]] by (simp add: sample_vote_def)
  from node_run.step [OF node_run.start this] show ?thesis by simp
qed

text \<open>
  C10: the invariant of a node. Along every run of a node in which requests to append carry consecutive entries
  behind \<^verbatim>\<open>PrevLogIndex\<close>, as heartbeats build them, and indices stay below \<open>2 ^ 63\<close>, the log stays
  contiguous behind \<^verbatim>\<open>logOffset\<close>, nothing beyond \<^verbatim>\<open>lastApplied\<close> is compacted, \<^verbatim>\<open>commitIndex\<close> never passes
  \<^verbatim>\<open>lastApplied\<close>, and the store has one value per key; whatever else requests and answers contain, in whatever
  order they come, whatever was read outside the lock, and whichever disk operations fail.
\<close>

theorem node_run_wf: "node_run r evs r' \<Longrightarrow> node_wf r \<Longrightarrow> node_wf r'"
  by (rule node_run_keeps_wf)

theorem node_run_wf_witness:
  "node_wf (snd (HandleRequestVote sample_follower (sample_vote 2 3)))"
proof -
  have wf: "node_wf sample_follower" using sample_log_wf(2) by (simp add: node_wf_def sample_defs)
  show ?thesis by (rule node_run_wf [OF sample_vote_run wf])
qed

text \<open>
  C3: a node gives at most one vote per term, counting the vote for itself as a candidate, in every run without a
  restart in which no answer to a heartbeat or to a vote request makes it step down to a term it has reached
  or passed meanwhile. The code does not exclude such answers: it compares their term with the term of the heartbeat,
  or with a term read outside the lock.
\<close>

theorem one_vote_per_term:
  assumes "node_run r evs r'" and "LateReply \<notin> set evs"
    and "Voted t c \<in> set evs" and "Voted t d \<in> set evs"
  shows "c = d"
  using node_run_votes [OF assms(1,2)] assms(3,4) by blast

theorem one_vote_per_term_witness:
  "node_run sample_follower [Voted 2 3] (snd (HandleRequestVote sample_follower (sample_vote 2 3)))
   \<and> (\<nexists>r'. node_run sample_follower [Voted 2 3, Voted 2 1] r')"
  using sample_vote_run one_vote_per_term [OF sample_vote_run, of 2 3 3]
    one_vote_per_term [of sample_follower "[Voted 2 3, Voted 2 1]" _ 2 3 1] by auto

text \<open>
  C33: an answer acted upon late frees a vote. A node has voted for \<open>a\<close> in its current term and would refuse
  \<open>c\<close>. If then an answer with this term to a heartbeat of an earlier term is looked at, or an answer with this
  term to a vote request is acted upon whose term was compared before the node reached the term, the node
  grants its vote to \<open>c\<close> in the same term as well, provided the log of \<open>c\<close> is up to date.
\<close>

theorem late_reply_frees_vote:
  assumes "votedFor r = Some a" and "rva_Term args = currentTerm r" and "rva_CandidateID args \<noteq> a"
    and "isCandidateLogUpToDate r (rva_LastLogTerm args) (rva_LastLogIndex args)" and "st < currentTerm r"
    and "aer_Term beat = currentTerm r" and "rvr_Term answer = currentTerm r"
  shows "\<not> rvr_VoteGranted (fst (HandleRequestVote r args))
       \<and> rvr_VoteGranted (fst (HandleRequestVote (heartBeatSuperseded r st beat) args))
       \<and> rvr_VoteGranted (fst (HandleRequestVote (fst (voteReply st ss r votes maj answer)) args))"
proof -
  let ?free = "r\<lparr>currentTerm := currentTerm r, rstate := Follower, votedFor := None\<rparr>"
  have "isCandidateLogUpToDate ?free t i = isCandidateLogUpToDate r t i" for t i
    by (simp add: isCandidateLogUpToDate_def lastLogIndexAndTerm_def)
  then have "rvr_VoteGranted (fst (HandleRequestVote ?free args))"
    using assms(2,4) by (simp add: HandleRequestVote_def Let_def)
  moreover have "heartBeatSuperseded r st beat = ?free" "fst (voteReply st ss r votes maj answer) = ?free"
    using assms(5-7) by (simp_all add: heartBeatSuperseded_def voteReply_def)
  moreover have "\<not> rvr_VoteGranted (fst (HandleRequestVote r args))"
    using assms(1-3) by (auto simp: HandleRequestVote_def Let_def)
  ultimately show ?thesis by metis
qed

theorem late_reply_frees_vote_witness:
  "let r = snd (HandleRequestVote sample_leader (sample_vote 2 2));
       beat = \<lparr>aer_Term = 2, aer_Success = False, aer_ConflictTerm = 0, aer_ConflictIndex = 0\<rparr>
   in rvr_VoteGranted (fst (HandleRequestVote (heartBeatSuperseded r 1 beat) (sample_vote 2 3)))"
proof -
  let ?r = "snd (HandleRequestVote sample_leader (sample_vote 2 2))"
  let ?beat = "\<lparr>aer_Term = 2, aer_Success = False, aer_ConflictTerm = 0, aer_ConflictIndex = 0\<rparr>"
  have r: "votedFor ?r = Some 2" "currentTerm ?r = 2" "isCandidateLogUpToDate ?r 1 9"
    by (simp_all add: HandleRequestVote_def sample_defs sample_vote_def isCandidateLogUpToDate_def
        lastLogIndexAndTerm_def resetElectionTimer_def Let_def)
  show ?thesis
    using late_reply_frees_vote [of ?r 2 "sample_vote 2 3" 1 ?beat "\<lparr>rvr_Term = 2, rvr_VoteGranted = False\<rparr>"] r
    by (simp add: Let_def sample_vote_def)
qed

text \<open>
  C29: \<^verbatim>\<open>HandleRequestVote\<close> grants a vote exactly if the term of the request is newer,
  or current with no vote given to another candidate, and the log of the candidate is at least as up to date:
  a later last term, or the same with at least the same last index.
\<close>

theorem HandleRequestVote_granted_iff:
  "rvr_VoteGranted (fst (HandleRequestVote r args)) \<longleftrightarrow>
     (currentTerm r < rva_Term args \<or> currentTerm r = rva_Term args \<and> votedFor r \<in> {None, Some (rva_CandidateID args)})
   \<and> (snd (lastLogIndexAndTerm r) < rva_LastLogTerm args
      \<or> snd (lastLogIndexAndTerm r) = rva_LastLogTerm args \<and> fst (lastLogIndexAndTerm r) \<le> rva_LastLogIndex args)"
proof -
  have up: "isCandidateLogUpToDate q t i \<longleftrightarrow> snd (lastLogIndexAndTerm q) < t \<or> snd (lastLogIndexAndTerm q) = t \<and> fst (lastLogIndexAndTerm q) \<le> i" for q t i
    by (auto simp: isCandidateLogUpToDate_def split_def Let_def)
  have same: "lastLogIndexAndTerm (r\<lparr>currentTerm := a, votedFor := b, rstate := c\<rparr>) = lastLogIndexAndTerm r" for a b c
    by (simp add: lastLogIndexAndTerm_def)
  show ?thesis
    by (cases "currentTerm r" "rva_Term args" rule: linorder_cases)
      (auto simp: HandleRequestVote_def Let_def up same)
qed

end
