(* ===== verification/Raft_Quorum.thy ===== *)
theory Raft_Quorum
  imports Raft_Steps
begin

text \<open>
  Majorities: quorums of votes and of acknowledged entries, as \<^verbatim>\<open>requestVotes\<close> and \<^verbatim>\<open>tryAdvanceCommitIndex\<close> of
  \<^verbatim>\<open>raft/raft.go\<close> count them, that any two of them overlap, and what follows for elections and
  commits.
\<close>

subsection \<open>Quorums\<close>

locale quorum_system =
  fixes nodes :: "'n set"
    and quorum :: "'n set \<Rightarrow> bool"
  assumes quorum_nodes: "quorum Q \<Longrightarrow> Q \<subseteq> nodes"
    and overlap: "quorum Q \<Longrightarrow> quorum Q' \<Longrightarrow> Q \<inter> Q' \<noteq> {}"
begin

lemma unique_choice:
  assumes "quorum Q" and "quorum Q'" and "\<And>v. v \<in> Q \<Longrightarrow> chose v c" and "\<And>v. v \<in> Q' \<Longrightarrow> chose v d"
    and "\<And>v a b. v \<in> nodes \<Longrightarrow> chose v a \<Longrightarrow> chose v b \<Longrightarrow> a = b"
  shows "c = d"
proof -
  obtain v where "v \<in> Q" "v \<in> Q'" using overlap [OF assms(1,2)] by blast
  then show ?thesis using assms(3-5) quorum_nodes [OF assms(1)] by blast
qed

lemma witness_in_quorum: "quorum Q \<Longrightarrow> quorum Q' \<Longrightarrow> \<exists>v\<in>nodes. v \<in> Q \<and> v \<in> Q'"
  using overlap quorum_nodes by blast

end

text \<open>The sets of peers that count as a majority.\<close>

definition vote_quorum :: "raft \<Rightarrow> u64 set \<Rightarrow> bool" where
  "vote_quorum r Q \<longleftrightarrow> distinct (map fst (peers r)) \<and> Q \<subseteq> fst ` set (peers r) \<and> majority r \<le> card Q"

lemma majority_overlap:
  assumes "finite V" and "A \<subseteq> V" and "B \<subseteq> V" and "card V < card A + card B"
  shows "A \<inter> B \<noteq> {}"
proof
  assume "A \<inter> B = {}"
  then have "card A + card B = card (A \<union> B)"
    using assms finite_subset by (metis card_Un_disjoint)
  also have "\<dots> \<le> card V" using assms by (intro card_mono) auto
  finally show False using assms(4) by simp
qed

lemma card_peers: "distinct (map fst ps) \<Longrightarrow> card (fst ` set ps) = length ps"
  using distinct_card [of "map fst ps"] by simp

interpretation vq: quorum_system "fst ` set (peers r)" "vote_quorum r" for r
proof
  fix Q assume "vote_quorum r Q"
  then show "Q \<subseteq> fst ` set (peers r)" by (simp add: vote_quorum_def)
next
  fix Q Q' assume "vote_quorum r Q" "vote_quorum r Q'"
  then show "Q \<inter> Q' \<noteq> {}"
    by (intro majority_overlap [of "fst ` set (peers r)"]) (auto simp: vote_quorum_def majority_def card_peers)
qed

subsection \<open>Committing\<close>

lemma sorted_desc_prefix:
  fixes xs :: "'a::linorder list"
  assumes "k < length xs" and "x \<in> set (take (k + 1) (rev (sort xs)))"
  shows "rev (sort xs) ! k \<le> x"
proof -
  obtain i where i: "i < length (take (k + 1) (rev (sort xs)))" "x = take (k + 1) (rev (sort xs)) ! i"
    using assms(2) by (metis in_set_conv_nth)
  then have ik: "i \<le> k" "i < length xs" "x = rev (sort xs) ! i" by auto
  have "sort xs ! (length xs - Suc k) \<le> sort xs ! (length xs - Suc i)"
    using ik assms(1) by (intro sorted_nth_mono) auto
  then show ?thesis using ik assms(1) by (simp add: rev_nth)
qed

lemma majority_count:
  fixes xs :: "'a::linorder list"
  assumes "xs \<noteq> []"
  defines "m \<equiv> rev (sort xs) ! (length xs div 2)"
  shows "length xs div 2 + 1 \<le> length (filter (\<lambda>x. m \<le> x) xs)"
proof -
  let ?k = "length xs div 2" and ?ys = "rev (sort xs)"
  have k: "?k < length xs" using assms(1) by simp
  have "filter (\<lambda>x. m \<le> x) (take (?k + 1) ?ys) = take (?k + 1) ?ys"
    using sorted_desc_prefix [OF k] by (intro filter_True) (auto simp: m_def)
  then have "?k + 1 \<le> length (filter (\<lambda>x. m \<le> x) (take (?k + 1) ?ys @ drop (?k + 1) ?ys))"
    using k by (simp del: append_take_drop_id)
  also have "\<dots> = length (filter (\<lambda>x. m \<le> x) xs)"
    by (metis append_take_drop_id mset_filter mset_rev mset_sort size_mset)
  finally show ?thesis .
qed

text \<open>The nodes known to have the log up to an index: the leader and the peers whose match index reaches it.\<close>

definition commit_acks :: "raft \<Rightarrow> u64 \<Rightarrow> u64 set" where
  "commit_acks r m = {p \<in> fst ` set (peers r). p = node_id r \<or> m \<le> go_index (matchIndex r) p}"

text \<open>The bookkeeping of a leader: one match index per peer, and none of its own.\<close>

definition leader_wf :: "raft \<Rightarrow> bool" where
  "leader_wf r \<longleftrightarrow> distinct (map fst (peers r)) \<and> distinct (map fst (matchIndex r))
     \<and> fst ` set (matchIndex r) = fst ` set (peers r) \<and> node_id r \<in> fst ` set (peers r)
     \<and> go_index (matchIndex r) (node_id r) = 0"

lemma count_acks:
  assumes "distinct (map fst ms)"
  shows "length (filter (\<lambda>x. m \<le> x) (map snd ms)) = card {p \<in> fst ` set ms. m \<le> go_index ms p}"
proof -
  have "{p \<in> fst ` set ms. m \<le> go_index ms p} = fst ` set (filter (\<lambda>kv. m \<le> snd kv) ms)"
    using assms by (force simp: go_index_def)
  moreover have "card (fst ` set (filter (\<lambda>kv. m \<le> snd kv) ms)) = length (filter (\<lambda>kv. m \<le> snd kv) ms)"
    using assms by (intro card_peers) (simp add: distinct_map_filter)
  ultimately show ?thesis by (simp add: filter_map comp_def)
qed

lemma majorityIndex_acks:
  assumes "leader_wf r" and "0 < majorityIndex r"
  shows "(length (peers r) + 1) div 2 + 1 \<le> card (commit_acks r (majorityIndex r))"
proof -
  let ?ms = "matchIndex r" and ?m = "majorityIndex r" and ?l = "fst (lastLogIndexAndTerm r)"
  have len: "length ?ms = length (peers r)"
    using assms(1) card_peers by (metis leader_wf_def)
  have "(length ?ms + 1) div 2 + 1 \<le> length (filter (\<lambda>x. ?m \<le> x) (map snd ?ms @ [?l]))"
    using majority_count [of "map snd ?ms @ [?l]"] by (simp add: majorityIndex_def Let_def)
  also have "\<dots> \<le> card {p \<in> fst ` set ?ms. ?m \<le> go_index ?ms p} + 1"
    using count_acks [of ?ms ?m] assms(1) by (simp add: leader_wf_def)
  also have "\<dots> = card (insert (node_id r) {p \<in> fst ` set ?ms. ?m \<le> go_index ?ms p})"
    using assms by (subst card_insert_disjoint) (auto simp: leader_wf_def)
  also have "insert (node_id r) {p \<in> fst ` set ?ms. ?m \<le> go_index ?ms p} = commit_acks r ?m"
    using assms(1) by (auto simp: leader_wf_def commit_acks_def)
  finally show ?thesis by (simp add: len)
qed

lemma tryAdvance_commit:
  assumes "commitIndex (tryAdvanceCommitIndex r) \<noteq> commitIndex r"
  shows "commitIndex (tryAdvanceCommitIndex r) = majorityIndex r" and "0 < majorityIndex r"
    and "\<exists>e. entryAt r (majorityIndex r) = Some e \<and> Term e = currentTerm r"
  using assms by (auto simp: tryAdvanceCommitIndex_def Let_def word_gt_0 frame_simps split: option.splits if_splits)

subsection \<open>A new leader\<close>

lemma initPeers_index:
  "map_of (nextIndex (initPeers n ps r)) p = (if p \<in> set ps then Some (n + 1) else map_of (nextIndex r) p)"
  "map_of (matchIndex (initPeers n ps r)) p = (if p \<in> set ps then Some 0 else map_of (matchIndex r) p)"
  "distinct (map fst (matchIndex r)) \<Longrightarrow> distinct (map fst (matchIndex (initPeers n ps r)))"
  "fst ` set (matchIndex (initPeers n ps r)) = fst ` set (matchIndex r) \<union> set ps"
  by (induction ps arbitrary: r) (auto simp: update_conv' distinct_update dom_update)

lemma becomeLeader_index:
  "map_of (nextIndex (fst (becomeLeader r))) p =
     (if p \<in> fst ` set (peers r) then Some (fst (lastLogIndexAndTerm r) + 1) else map_of (nextIndex r) p)"
  "map_of (matchIndex (fst (becomeLeader r))) p = (if p \<in> fst ` set (peers r) then Some 0 else map_of (matchIndex r) p)"
  "distinct (map fst (matchIndex r)) \<Longrightarrow> distinct (map fst (matchIndex (fst (becomeLeader r))))"
  "fst ` set (matchIndex (fst (becomeLeader r))) = fst ` set (matchIndex r) \<union> fst ` set (peers r)"
  "peers (fst (becomeLeader r)) = peers r" "node_id (fst (becomeLeader r)) = node_id r"
  by (auto simp: becomeLeader_def Let_def lastLogIndexAndTerm_def initPeers_index split: prod.splits sum.splits)

lemma collectPeers_needs:
  "collectPeers r ps = Inr (snaps, needs) \<Longrightarrow> needs = filter (\<lambda>p. toSlicePos r (go_index (nextIndex r) p) < 0) ps"
proof (induction ps arbitrary: snaps needs)
  case (Cons p ps)
  then show ?case by (cases "toSlicePos r (go_index (nextIndex r) p) < 0") (auto simp: Let_def split: if_splits)
qed simp

lemma heartBeatTick_total:
  assumes "log_wf r" and "rstate r = Leader"
    and next_ok: "\<And>p. p \<in> fst ` set (peers r) \<Longrightarrow>
      logOffset r < go_index (nextIndex r) p \<and> unat (go_index (nextIndex r) p) \<le> lastIndex r + 1"
  shows "\<exists>hb. heartBeatTick r (leaderGeneration r) = Inr (Some hb) \<and> hb_needs hb = []"
proof (cases "collectPeers r (map fst (peers r))")
  case (Inl e)
  then have "\<exists>p\<in>fst ` set (peers r). int (length (rlog r)) < toSlicePos r (go_index (nextIndex r) p)"
    using heartBeatTick_panic_collect [of r "map fst (peers r)" e] by simp
  then show ?thesis using next_ok toSlicePos_beyond [OF assms(1)] by fastforce
next
  case (Inr x)
  then obtain snaps needs where x: "collectPeers r (map fst (peers r)) = Inr (snaps, needs)" by (cases x) auto
  have o: "unat (logOffset r) < 2 ^ 63" "lastIndex r < 2 ^ 63" using assms(1) by (auto simp: log_wf_def lastIndex_def)
  have "\<not> toSlicePos r (go_index (nextIndex r) p) < 0" if "p \<in> set (map fst (peers r))" for p
  proof -
    let ?n = "go_index (nextIndex r) p"
    have "unat (logOffset r) < unat ?n" "unat ?n \<le> lastIndex r + 1" using next_ok [of p] that by (auto simp: word_less_nat_alt)
    then have "toSlicePos r ?n = int (unat ?n - unat (logOffset r) - 1)" using o by (intro toSlicePos_eq(1)) auto
    then show ?thesis by linarith
  qed
  then have "needs = []" using collectPeers_needs [OF x] by (simp add: filter_empty_conv)
  then show ?thesis using x assms(2) by (simp add: heartBeatTick_def)
qed

subsection \<open>Properties\<close>

text \<open>
  C5: when \<^verbatim>\<open>tryAdvanceCommitIndex\<close> moves the commit index, the entry there is of the
  current term, and the leader together with the peers that acknowledged it are a majority of the cluster; so
  every majority that elects a later leader has one of them.
\<close>

theorem commit_needs_quorum:
  assumes "leader_wf r" and "commitIndex (tryAdvanceCommitIndex r) \<noteq> commitIndex r"
  defines "m \<equiv> commitIndex (tryAdvanceCommitIndex r)"
  shows "(\<exists>e. entryAt r m = Some e \<and> Term e = currentTerm r)
       \<and> vote_quorum r (commit_acks r m)
       \<and> (\<forall>Q. vote_quorum r Q \<longrightarrow> (\<exists>v\<in>Q. v \<in> commit_acks r m))"
proof -
  note c = tryAdvance_commit [OF assms(2)]
  have m: "m = majorityIndex r" unfolding m_def by (rule c(1))
  have q: "vote_quorum r (commit_acks r m)"
    using majorityIndex_acks [OF assms(1) c(2)] assms(1)
    by (auto simp: m vote_quorum_def leader_wf_def majority_def commit_acks_def)
  then show ?thesis using c(3) vq.witness_in_quorum [OF q] unfolding m by blast
qed

theorem commit_needs_quorum_witness:
  "let r = sample_leader\<lparr>matchIndex := [(1, 0), (2, 2), (3, 2)]\<rparr>
   in vote_quorum r (commit_acks r (commitIndex (tryAdvanceCommitIndex r)))"
proof -
  let ?r = "sample_leader\<lparr>matchIndex := [(1, 0), (2, 2), (3, 2)]\<rparr>"
  have "leader_wf ?r" by (simp add: leader_wf_def sample_defs go_index_def)
  moreover have "commitIndex (tryAdvanceCommitIndex ?r) \<noteq> commitIndex ?r"
    by (simp add: tryAdvanceCommitIndex_def majorityIndex_def sample_defs lastLogIndexAndTerm_def Let_def
        entryAt_def toSlicePos_def frame_simps)
  ultimately show ?thesis using commit_needs_quorum [of ?r] by (simp add: Let_def)
qed

text \<open>
  C35: in a cluster of three the leader commits only what all three nodes have. The match indices contain an
  entry for the leader itself, which stays 0, next to the leader's own last index, so the middle of four
  values is taken where two of three nodes would be a majority.
\<close>

theorem three_nodes_commit_needs_all:
  assumes "leader_wf r" and "length (peers r) = 3" and "commitIndex (tryAdvanceCommitIndex r) \<noteq> commitIndex r"
  shows "commit_acks r (commitIndex (tryAdvanceCommitIndex r)) = fst ` set (peers r)"
proof -
  note c = tryAdvance_commit [OF assms(3)]
  have "card (fst ` set (peers r)) = 3" using assms(1,2) by (simp add: leader_wf_def card_peers)
  moreover have "3 \<le> card (commit_acks r (majorityIndex r))"
    using majorityIndex_acks [OF assms(1) c(2)] assms(2) by simp
  ultimately have "commit_acks r (majorityIndex r) = fst ` set (peers r)"
    by (intro card_seteq) (auto simp: commit_acks_def)
  then show ?thesis by (simp add: c(1))
qed

theorem three_nodes_commit_needs_all_witness:
  "let r = sample_leader\<lparr>matchIndex := [(1, 0), (2, 2), (3, 2)]\<rparr>
   in commit_acks r (commitIndex (tryAdvanceCommitIndex r)) = {1, 2, 3}"
proof -
  let ?r = "sample_leader\<lparr>matchIndex := [(1, 0), (2, 2), (3, 2)]\<rparr>"
  have "commit_acks ?r (commitIndex (tryAdvanceCommitIndex ?r)) = fst ` set (peers ?r)"
    by (rule three_nodes_commit_needs_all)
      (simp_all add: leader_wf_def go_index_def tryAdvanceCommitIndex_def majorityIndex_def sample_defs
        lastLogIndexAndTerm_def Let_def entryAt_def toSlicePos_def frame_simps)
  also have "\<dots> = {1, 2, 3}" by (simp add: sample_defs)
  finally show ?thesis by (simp add: Let_def)
qed

text \<open>
  C21: a new leader appends a no-op entry of its term behind its log and keeps the invariant; every peer has match index 0
  and as next index the one behind the old log; and its first heartbeat cannot crash, needs no snapshot and sends
  every peer exactly the no-op.
\<close>

theorem becomeLeader_establishes:
  assumes "node_wf r" and "lastIndex r + 1 < 2 ^ 63" and "distinct (map fst (peers r))" and "distinct (map fst (matchIndex r))"
    and "fst ` set (matchIndex r) \<subseteq> fst ` set (peers r)" and "node_id r \<in> fst ` set (peers r)"
    and "becomeLeader r = (r', started)"
  shows "rstate r' = Leader \<and> node_wf r' \<and> leader_wf r' \<and> lastIndex r' = lastIndex r + 1
       \<and> rlog r' = rlog r @ [\<lparr>Term = currentTerm r, Index = of_nat (lastIndex r) + 1, Data = lit ''no-op''\<rparr>]
       \<and> (\<forall>p\<in>fst ` set (peers r). map_of (matchIndex r') p = Some 0 \<and> map_of (nextIndex r') p = Some (of_nat (lastIndex r) + 1))
       \<and> (\<exists>hb. heartBeatTick r' (leaderGeneration r') = Inr (Some hb) \<and> hb_needs hb = []
            \<and> (\<forall>(p, addr, d)\<in>set (hb_sends hb). unat (pd_prevIndex d) = lastIndex r \<and> pd_entries d = drop (length (rlog r)) (rlog r')))"
proof -
  have r': "r' = fst (becomeLeader r)" using assms(7) by simp
  have wf: "log_wf r" using assms(1) by (simp add: node_wf_def)
  have nw: "node_wf r'" unfolding r' using assms(1,2) by (rule becomeLeader_wf)
  have lw: "leader_wf r'"
    using assms(3-6) becomeLeader_index(2) [of r "node_id r"]
    by (auto simp: leader_wf_def r' becomeLeader_index(3-6) go_index_def)
  have sh: "rlog r' = rlog r @ [\<lparr>Term = currentTerm r, Index = of_nat (lastIndex r) + 1, Data = lit ''no-op''\<rparr>]"
    "logOffset r' = logOffset r" "rstate r' = Leader" "lastIndex r' = lastIndex r + 1" "peers r' = peers r"
    by (simp_all add: r' becomeLeader_fields lastLogIndex_word [OF wf] lastIndex_def becomeLeader_index(5))
  have wf': "log_wf r'" using nw by (simp add: node_wf_def)
  have nx: "go_index (nextIndex r') p = of_nat (lastIndex r) + 1" if "p \<in> fst ` set (peers r')" for p
    using that becomeLeader_index(1) [of r p] by (simp add: go_index_def r' lastLogIndex_word [OF wf] becomeLeader_index(5))
  have in_range: "logOffset r' < go_index (nextIndex r') p \<and> unat (go_index (nextIndex r') p) \<le> lastIndex r' + 1"
    if "p \<in> fst ` set (peers r')" for p
    using nx [OF that] unat_lastIndex(2) [OF wf] by (simp add: sh word_less_nat_alt lastIndex_def)
  obtain hb where hb: "heartBeatTick r' (leaderGeneration r') = Inr (Some hb)" "hb_needs hb = []"
    using heartBeatTick_total [OF wf' sh(3) in_range] by blast
  have "unat (pd_prevIndex d) = lastIndex r \<and> pd_entries d = drop (length (rlog r)) (rlog r')"
    if m: "(p, addr, d) \<in> set (hb_sends hb)" for p addr d
  proof -
    have p: "p \<in> fst ` set (peers r')" using m hb(1) by (force simp: heartBeatTick_def split: if_splits)
    have d: "suffix_of r' d" "pd_prevIndex d = of_nat (lastIndex r)"
      using heartBeatTick_data [OF wf' hb(1) m] in_range [OF p] nx [OF p] by auto
    then show ?thesis using unat_lastIndex(1) [OF wf] by (simp add: suffix_of_def lastIndex_def sh)
  qed
  moreover have "map_of (matchIndex r') p = Some 0 \<and> map_of (nextIndex r') p = Some (of_nat (lastIndex r) + 1)"
    if "p \<in> fst ` set (peers r)" for p
    using that by (simp add: r' becomeLeader_index(1,2) lastLogIndex_word [OF wf])
  ultimately show ?thesis using nw lw sh hb by auto
qed

theorem becomeLeader_establishes_witness:
  "rstate (fst (becomeLeader sample_follower)) = Leader \<and> leader_wf (fst (becomeLeader sample_follower))
   \<and> lastIndex (fst (becomeLeader sample_follower)) = 2 \<and> map_of (matchIndex (fst (becomeLeader sample_follower))) 3 = Some 0"
proof -
  have wf: "node_wf sample_follower" using sample_log_wf(2) by (simp add: node_wf_def sample_defs)
  have h: "lastIndex sample_follower = 1" "distinct (map fst (peers sample_follower))"
    "distinct (map fst (matchIndex sample_follower))"
    "fst ` set (matchIndex sample_follower) \<subseteq> fst ` set (peers sample_follower)"
    "node_id sample_follower \<in> fst ` set (peers sample_follower)"
    by (simp_all add: sample_defs lastIndex_def)
  have "3 \<in> fst ` set (peers sample_follower)" by (simp add: sample_defs)
  then show ?thesis using becomeLeader_establishes [OF wf _ h(2-5) surjective_pairing] h(1) by fastforce
qed

end
