(* ===== verification/Raft_Durability.thy ===== *)
theory Raft_Durability
  imports Raft_Quorum
begin

text \<open>
  What a node has on disk, \<^verbatim>\<open>raft/raft.go\<close>, \<^verbatim>\<open>raft/snapshot.go\<close> and \<^verbatim>\<open>wal/wal.go\<close> together: \<open>durable\<close> says that snapshot
  file and write-ahead log determine the log and the state in memory. Proposing, accepting entries
  and taking a snapshot keep it, and a restarted node recovers from it.
\<close>

subsection \<open>Memory and disk\<close>

text \<open>What the snapshot file of a node says: the index it covers and the state there.\<close>

definition disk_base :: "raft \<Rightarrow> (u64 \<times> StateMachine) option" where
  "disk_base r =
     (case files (env r) (snapshotPath (node_id r)) of
        None \<Rightarrow> Some (0, NewStateMachine)
      | Some c \<Rightarrow>
          (case DecodeSnapshot c of
             Inl err \<Rightarrow> None
           | Inr snap \<Rightarrow> Some (LastIncludedIndex snap, Restore NewStateMachine (snap_Data snap))))"

text \<open>
  The write-ahead log holds complete records of consecutive entries up to the last one of the log in
  memory, and behind the snapshot exactly the log in memory.
\<close>

definition wal_sync :: "raft \<Rightarrow> bool" where
  "wal_sync r \<longleftrightarrow>
     (let es = wal_entries (rwal r) (env r)
      in wal_clean (rwal r) (env r) \<and> length es \<le> lastIndex r \<and> contiguous (lastIndex r - length es) es
         \<and> filter (\<lambda>e. logOffset r < Index e) es = rlog r)"

definition own_files :: "raft \<Rightarrow> bool" where
  "own_files r \<longleftrightarrow> path (rwal r) \<noteq> snapshotPath (node_id r) \<and> temp_path (path (rwal r)) \<noteq> snapshotPath (node_id r)"

text \<open>Snapshot file and write-ahead log together determine the state of the node.\<close>

definition durable :: "raft \<Rightarrow> bool" where
  "durable r \<longleftrightarrow> own_files r \<and> wal_sync r \<and> unat (lastApplied r) \<le> lastIndex r
     \<and> (\<exists>sm. disk_base r = Some (logOffset r, sm)
          \<and> Get (stateMachine r) = Get (apply_all sm (log_between r (unat (logOffset r)) (unat (lastApplied r)))))"

lemma log_between_append:
  "a \<le> b \<Longrightarrow> b \<le> c \<Longrightarrow> log_between r a c = log_between r a b @ log_between r b c"
  using upt_add_eq_append [of "a + 1" "b + 1" "c - b"]
  by (simp add: log_between_def List.map_filter_def del: upt_Suc)

lemma log_between_eqI:
  "(\<And>j. a < j \<Longrightarrow> j \<le> b \<Longrightarrow> entryAt r (of_nat j) = entryAt q (of_nat j)) \<Longrightarrow> log_between r a b = log_between q a b"
  by (auto simp: log_between_def List.map_filter_def intro!: arg_cong [where f = "map _"] filter_cong map_cong)

lemma log_between_all: "log_wf r \<Longrightarrow> log_between r (unat (logOffset r)) (lastIndex r) = rlog r"
  by (subst log_between_slice) (auto simp: lastIndex_def)

lemma apply_all_append [simp]: "apply_all s (xs @ ys) = apply_all (apply_all s xs) ys"
  by (simp add: apply_all_def)

lemma Get_apply_all_cong: "Get a = Get b \<Longrightarrow> Get (apply_all a es) = Get (apply_all b es)"
  unfolding apply_all_def by (rule kvm.run_cong)

lemma replay_eq:
  "replay es r = r\<lparr>lastApplied := (if es = [] then lastApplied r else Index (last es)),
                   stateMachine := apply_all (stateMachine r) es\<rparr>"
  by (induction es arbitrary: r) auto

subsection \<open>Recovery\<close>

lemma disk_base_cong:
  "files (env q) (snapshotPath (node_id r)) = files (env r) (snapshotPath (node_id r)) \<Longrightarrow> node_id q = node_id r \<Longrightarrow>
     disk_base q = disk_base r"
  by (simp add: disk_base_def)

lemma NewRaft_disk:
  assumes "faults s = []" and "wal_open w" and "disk_base (newNode n ps w NewStateMachine s rnd) = Some (b, sm)"
  defines "es \<equiv> filter (\<lambda>e. b < Index e) (wal_entries w s)"
  shows "NewRaft n ps w NewStateMachine s rnd =
     (Inr ((newNode n ps w NewStateMachine s rnd)\<lparr>rlog := es, logOffset := b, commitIndex := b,
        lastApplied := (if es = [] then b else Index (last es)), stateMachine := apply_all sm es\<rparr>), s)"
proof (cases "files s (snapshotPath n)")
  case None
  then have "b = 0" "sm = NewStateMachine" using assms(3) by (simp_all add: disk_base_def newNode_def)
  then show ?thesis
    using LoadSnapshot_free(1) [OF assms(1) None] ReadAll_free [OF assms(1,2)]
    by (simp add: NewRaft_def loadPersistedState_def Let_def replay_eq newNode_def es_def)
next
  case (Some c)
  then obtain snap where d: "DecodeSnapshot c = Inr snap" "b = LastIncludedIndex snap"
      "sm = Restore NewStateMachine (snap_Data snap)"
    using assms(3) by (auto simp: disk_base_def newNode_def split: sum.splits)
  then show ?thesis
    using LoadSnapshot_free(2) [OF assms(1) Some d(1)] ReadAll_free [OF assms(1,2)]
    by (simp add: NewRaft_def loadPersistedState_def Let_def replay_eq newNode_def es_def)
qed

lemma disk_base_wf: "disk_base r = Some (b, sm) \<Longrightarrow> sm_wf sm"
  by (auto simp: disk_base_def sm_wf_def Restore_def NewStateMachine_def DecodeSnapshot_distinct split: option.splits sum.splits)

lemma last_log_index: "log_wf r \<Longrightarrow> rlog r \<noteq> [] \<Longrightarrow> unat (Index (last (rlog r))) = lastIndex r"
  using contiguous_last [of "unat (logOffset r)" "rlog r"] by (simp add: log_wf_def lastIndex_def)

subsection \<open>Appending\<close>

lemma changes_only_files: "changes_only Q s t \<Longrightarrow> p \<notin> Q \<Longrightarrow> files t p = files s p"
  by (simp add: changes_only_def)

lemma durableD:
  assumes "durable r"
  obtains sm where "disk_base r = Some (logOffset r, sm)"
    "Get (stateMachine r) = Get (apply_all sm (log_between r (unat (logOffset r)) (unat (lastApplied r))))"
    "unat (lastApplied r) \<le> lastIndex r" "wal_sync r" "own_files r"
  using assms by (auto simp: durable_def)

lemma durable_extend:
  assumes wf: "log_wf r" "log_wf q" and d: "durable r"
    and q: "rlog q = rlog r @ es" "logOffset q = logOffset r" "lastApplied q = lastApplied r" "stateMachine q = stateMachine r"
      "rwal q = rwal r" "node_id q = node_id r"
    and w: "wal_entries (rwal r) (env q) = wal_entries (rwal r) (env r) @ es" "wal_clean (rwal r) (env q)"
      "changes_only {path (rwal r)} (env r) (env q)"
  shows "durable q"
proof -
  obtain sm where base: "disk_base r = Some (logOffset r, sm)"
    and get: "Get (stateMachine r) = Get (apply_all sm (log_between r (unat (logOffset r)) (unat (lastApplied r))))"
    and la: "unat (lastApplied r) \<le> lastIndex r" and ws: "wal_sync r" and of: "own_files r"
    by (rule durableD [OF d])
  have last: "lastIndex q = lastIndex r + length es" using q by (simp add: lastIndex_def)
  have con: "contiguous (lastIndex r) es" using wf(2) q by (simp add: log_wf_def lastIndex_def)
  then have "\<forall>e\<in>set es. logOffset r < Index e"
    using contiguous_bounds [OF con] by (fastforce simp: word_less_nat_alt lastIndex_def)
  then have "filter (\<lambda>e. logOffset r < Index e) es = es" by (simp add: filter_id_conv)
  then have "wal_sync q" using ws con w q last by (simp add: wal_sync_def Let_def)
  moreover have "own_files q" using of q by (simp add: own_files_def)
  moreover have "files (env q) (snapshotPath (node_id r)) = files (env r) (snapshotPath (node_id r))"
    using of changes_only_files [OF w(3)] by (auto simp: own_files_def)
  then have "disk_base q = Some (logOffset q, sm)" using base q disk_base_cong [of q r] by simp
  moreover have "log_between q (unat (logOffset r)) (unat (lastApplied r)) = log_between r (unat (logOffset r)) (unat (lastApplied r))"
  proof (rule log_between_eqI)
    fix j assume "j \<le> unat (lastApplied r)"
    then have "unat (of_nat j :: u64) \<le> lastIndex r" using la wf(1) unat_of_nat_u64 [of j] by (simp add: log_wf_def lastIndex_def)
    then show "entryAt q (of_nat j) = entryAt r (of_nat j)" by (rule entryAt_append [OF wf(2) q(1,2)])
  qed
  ultimately show ?thesis unfolding durable_def using la last get q by auto
qed

lemma Propose_keeps_durable:
  assumes "node_wf r" and "durable r" and "lastIndex r + 1 < 2 ^ 63" and "length d < 2 ^ 32"
    and "Propose r d = (Inr i, r')"
  shows "durable r' \<and> path (rwal r') \<notin> dirty (env r') \<and> unat i = lastIndex r + 1
       \<and> entryAt r' i = Some \<lparr>Term = currentTerm r, Index = i, Data = d\<rparr>"
proof -
  let ?e = "\<lparr>Term = currentTerm r, Index = fst (lastLogIndexAndTerm r) + 1, Data = d\<rparr>"
  have wf: "log_wf r" using assms(1) by (simp add: node_wf_def)
  obtain y s where y: "Append (rwal r) ?e (env r) = (y, s)" by fastforce
  have "rstate r = Leader" using assms(5) by (cases "rstate r = Leader") (simp_all add: Propose_def)
  then have ap: "Append (rwal r) ?e (env r) = (Inr (), s)" and r': "r' = r\<lparr>rlog := rlog r @ [?e], env := s\<rparr>"
      and i: "i = fst (lastLogIndexAndTerm r) + 1"
    using assms(5) y by (cases y; simp add: Propose_def Let_def)+
  have wf': "log_wf r'" using Propose_wf [OF assms(1,3), of d] assms(5) by (simp add: node_wf_def)
  have cl: "wal_clean (rwal r) (env r)" using assms(2) by (simp add: durable_def wal_sync_def Let_def)
  have ok: "entry_ok ?e" using assms(4) by (simp add: entry_ok_def)
  have w: "wal_entries (rwal r) s = wal_entries (rwal r) (env r) @ [?e]" "wal_clean (rwal r) s" "path (rwal r) \<notin> dirty s"
    using Append_entries(2) [OF cl ok ap] by simp_all
  have "durable r'"
    by (rule durable_extend [OF wf wf' assms(2), of "[?e]"])
      (use w Append_changes [of "rwal r" "env r" ?e] ap in \<open>simp_all add: r'\<close>)
  moreover have "entryAt r' i = Some ?e" by (simp add: entryAt_iff [OF wf'] i) (simp add: r')
  ultimately show ?thesis using w(3) next_index [OF wf] by (simp add: r' i)
qed

lemma persistEntries_entries:
  assumes "persistEntries es r = (Inr (), r')" and "wal_clean (rwal r) (env r)" and "list_all entry_ok es"
  shows "wal_entries (rwal r) (env r') = wal_entries (rwal r) (env r) @ es \<and> wal_clean (rwal r) (env r')
       \<and> changes_only {path (rwal r)} (env r) (env r')"
  using assms
proof (induction es arbitrary: r)
  case (Cons e es)
  obtain s where a: "Append (rwal r) e (env r) = (Inr (), s)" and p: "persistEntries es (r\<lparr>env := s\<rparr>) = (Inr (), r')"
    using Cons.prems(1) by (auto split: prod.splits sum.splits)
  have 1: "wal_entries (rwal r) s = wal_entries (rwal r) (env r) @ [e]" "wal_clean (rwal r) s"
    using Append_entries(2) [OF Cons.prems(2) _ a] Cons.prems(3) by simp_all
  have 2: "changes_only {path (rwal r)} (env r) s" using Append_changes [of "rwal r" "env r" e] a by simp
  have "wal_entries (rwal r) (env r') = wal_entries (rwal r) s @ es \<and> wal_clean (rwal r) (env r')
      \<and> changes_only {path (rwal r)} s (env r')"
    using Cons.IH [OF p] 1(2) Cons.prems(3) by simp
  then show ?case using 1 2 by (auto intro: changes_only_trans)
qed auto

subsection \<open>Cutting off a conflict\<close>

lemma keep_upto_filter:
  "contiguous n es \<Longrightarrow> j \<in> Index ` set es \<Longrightarrow> keep_upto j es = filter (\<lambda>e. Index e \<le> j) es"
proof (induction es arbitrary: n)
  case (Cons e es)
  have later: "\<forall>x\<in>set es. Index e < Index x"
    using Cons.prems(1) contiguous_bounds [of "n + 1" es] by (auto simp: word_less_nat_alt)
  show ?case
  proof (cases "Index e = j")
    case True
    with later have "filter (\<lambda>e. Index e \<le> j) es = []" by (auto simp: filter_empty_conv)
    with True show ?thesis by simp
  next
    case False
    then have "j \<in> Index ` set es" using Cons.prems(2) by auto
    moreover from this later have "Index e \<le> j" by auto
    ultimately show ?thesis using False Cons.IH [of "n + 1"] Cons.prems(1) by simp
  qed
qed simp

lemma contiguous_filter_upto:
  "contiguous n es \<Longrightarrow> filter (\<lambda>e. unat (Index e) \<le> k) es = take (k - n) es"
proof (induction es arbitrary: n)
  case (Cons e es)
  show ?case
  proof (cases "n + 1 \<le> k")
    case True
    then have "k - n = Suc (k - (n + 1))" by simp
    then show ?thesis using True Cons.IH [of "n + 1"] Cons.prems by simp
  next
    case False
    then have "filter (\<lambda>e. unat (Index e) \<le> k) es = []"
      using Cons.prems contiguous_bounds [of "n + 1" es] by (fastforce simp: filter_empty_conv)
    then show ?thesis using False Cons.prems by simp
  qed
qed simp

lemma keep_upto_contiguous:
  assumes "contiguous n es" and "j \<in> Index ` set es"
  shows "contiguous n (keep_upto j es)" and "n + length (keep_upto j es) = unat j"
    and "filter P (keep_upto j es) = filter (\<lambda>e. unat (Index e) \<le> unat j) (filter P es)"
proof -
  have k: "keep_upto j es = filter (\<lambda>e. unat (Index e) \<le> unat j) es"
    using keep_upto_filter [OF assms] by (simp add: word_le_nat_alt)
  have t: "keep_upto j es = take (unat j - n) es" unfolding k using contiguous_filter_upto [OF assms(1)] .
  obtain e where "e \<in> set es" "Index e = j" using assms(2) by auto
  then have "n < unat j" "unat j \<le> n + length es" using contiguous_bounds [OF assms(1)] by auto
  then show "n + length (keep_upto j es) = unat j" by (simp add: t)
  show "contiguous n (keep_upto j es)" unfolding t using assms(1) by (rule contiguous_take)
  show "filter P (keep_upto j es) = filter (\<lambda>e. unat (Index e) \<le> unat j) (filter P es)"
    unfolding k by (simp add: conj_commute)
qed

lemma TruncateAfter_done:
  assumes "faults s = []" and "wal_open w" and "wal_clean w s" and "TruncateAfter w j s = (Inr u, s')"
  shows "j \<in> Index ` set (wal_entries w s)" and "wal_entries w s' = keep_upto j (wal_entries w s)" and "wal_clean w s'"
    and "faults s' = []" and "changes_only {path w} s s'"
proof -
  let ?es = "wal_entries w s"
  show mem: "j \<in> Index ` set ?es" using TruncateAfter_free(2) [OF assms(1-3), of j] assms(4) by (cases "j \<in> Index ` set ?es") auto
  have s': "s' = s\<lparr>files := (files s)(path w \<mapsto> concat (map wal_record (keep_upto j ?es))), dirty := dirty s - {path w}\<rparr>"
    using TruncateAfter_free(1) [OF assms(1-3) mem] assms(4) by simp
  have "list_all entry_ok (keep_upto j ?es)" using wal_entries_ok keep_upto_ok by blast
  then show "wal_entries w s' = keep_upto j ?es" "wal_clean w s'"
    using wal_cleanI [of s' w "keep_upto j ?es"] by (simp_all add: s')
  show "faults s' = []" "changes_only {path w} s s'" using assms(1) by (simp_all add: s' changes_only_def)
qed

lemma durable_truncate:
  assumes wf: "log_wf r" and d: "durable r" and x: "entryAt r i = Some x" and la: "lastApplied r < i"
    and disk: "faults (env r) = []" "wal_open (rwal r)"
    and t: "TruncateAfter (rwal r) (i - 1) (env r) = (Inr u, s)"
    and q: "q = r\<lparr>rlog := take (nat (toSlicePos r i)) (rlog r), env := s\<rparr>"
  shows "durable q \<and> faults (env q) = []"
proof -
  let ?es = "wal_entries (rwal r) (env r)"
  obtain sm where base: "disk_base r = Some (logOffset r, sm)"
    and get: "Get (stateMachine r) = Get (apply_all sm (log_between r (unat (logOffset r)) (unat (lastApplied r))))"
    and lai: "unat (lastApplied r) \<le> lastIndex r" and ws: "wal_sync r" and of: "own_files r"
    by (rule durableD [OF d])
  have i: "unat (logOffset r) < unat i" "unat i \<le> lastIndex r" using x by (auto simp: entryAt_eq [OF wf] split: if_splits)
  define k where "k = unat (i - 1)"
  have k: "unat i = k + 1" using i by (simp add: k_def unat_sub_u64)
  have pos: "nat (toSlicePos r i) = k - unat (logOffset r)" using toSlicePos_entryAt [OF wf x] k by simp
  have ws': "wal_clean (rwal r) (env r)" "length ?es \<le> lastIndex r" "contiguous (lastIndex r - length ?es) ?es"
    "filter (\<lambda>e. logOffset r < Index e) ?es = rlog r" using ws by (simp_all add: wal_sync_def Let_def)
  note td = TruncateAfter_done [OF disk ws'(1) t]
  note ku = keep_upto_contiguous [OF ws'(3) td(1)]
  have lq: "lastIndex q = k" using i k by (auto simp: lastIndex_def q pos min_def)
  have "filter (\<lambda>e. logOffset r < Index e) (keep_upto (i - 1) ?es) = rlog q"
    unfolding ku(3) ws'(4) q using wf contiguous_filter_upto [of "unat (logOffset r)" "rlog r" k]
    by (simp add: log_wf_def pos k_def)
  moreover have "k - length (keep_upto (i - 1) ?es) = lastIndex r - length ?es" "length (keep_upto (i - 1) ?es) \<le> k"
    using ku(2) by (simp_all add: k_def [symmetric])
  moreover have "rwal q = rwal r" "env q = s" "logOffset q = logOffset r" by (simp_all add: q)
  ultimately have "wal_sync q" using td(2,3) ku(1) lq by (simp add: wal_sync_def Let_def)
  moreover have "own_files q" "disk_base q = Some (logOffset q, sm)"
    using of base changes_only_files [OF td(5), of "snapshotPath (node_id r)"] by (auto simp: own_files_def disk_base_def q)
  moreover have lak: "unat (lastApplied r) \<le> k" using la k by (simp add: word_less_nat_alt)
  moreover have "log_between q (unat (logOffset r)) (unat (lastApplied r)) = log_between r (unat (logOffset r)) (unat (lastApplied r))"
  proof (rule log_between_eqI)
    fix j assume j: "unat (logOffset r) < j" "j \<le> unat (lastApplied r)"
    have "unat (of_nat j :: u64) = j" using j unat_u64_less [of "lastApplied r"] by (intro unat_of_nat_u64) simp
    then show "entryAt q (of_nat j) = entryAt r (of_nat j)"
      using entryAt_take [OF wf, of q "nat (toSlicePos r i)" "of_nat j"] j lak pos by (simp add: q)
  qed
  ultimately show ?thesis unfolding durable_def using get lq td(4) by (auto simp: q)
qed


subsection \<open>Taking a snapshot\<close>

lemma contiguous_filter_above:
  "contiguous n es \<Longrightarrow> filter (\<lambda>e. k < unat (Index e)) es = drop (k - n) es"
proof (induction es arbitrary: n)
  case (Cons e es)
  show ?case
  proof (cases "n + 1 \<le> k")
    case True
    then have "k - n = Suc (k - (n + 1))" by simp
    then show ?thesis using True Cons.IH [of "n + 1"] Cons.prems by simp
  next
    case False
    then have "filter (\<lambda>e. k < unat (Index e)) es = es"
      using Cons.prems contiguous_bounds [of "n + 1" es] by (fastforce simp: filter_id_conv)
    then show ?thesis using False Cons.prems by simp
  qed
qed simp

lemma contiguous_filter_suffix:
  assumes "length es \<le> n" and "contiguous (n - length es) es" and "unat k \<le> n"
  defines "fs \<equiv> filter (\<lambda>e. k < Index e) es"
  shows "length fs \<le> n" and "contiguous (n - length fs) fs"
proof -
  let ?m = "unat k - (n - length es)"
  have fs: "fs = drop ?m es"
    using contiguous_filter_above [OF assms(2), of "unat k"] by (simp add: word_less_nat_alt fs_def)
  have m: "?m \<le> length es" using assms(3) by linarith
  show "length fs \<le> n" using assms(1) by (simp add: fs)
  have "n - length fs = n - length es + ?m" using m assms(1) unfolding fs length_drop by linarith
  then show "contiguous (n - length fs) fs" using contiguous_drop [OF assms(2) m] unfolding fs by simp
qed

text \<open>Sizes fit their 32-bit length fields, and the run-time visits every entry of a map once.\<close>

definition state_fits :: "StateMachine \<Rightarrow> bool" where
  "state_fits sm \<longleftrightarrow> list_all kv_ok (data sm) \<and> length (data sm) < 2 ^ 32"

definition disk_ok :: "raft \<Rightarrow> bool" where
  "disk_ok r \<longleftrightarrow> faults (env r) = [] \<and> wal_open (rwal r) \<and> range_ok (range_order (env r))
     \<and> content (env r) (temp_path (path (rwal r))) = []"

lemma snapshot_decodes:
  assumes "sm_wf sm" and "state_fits sm" and "range_ok ord"
  obtains kvs where "DecodeSnapshot (projr (Encode ord \<lparr>LastIncludedIndex = i, LastIncludedTerm = t, snap_Data = SM_Snapshot ord sm\<rparr>)) =
      Inr \<lparr>LastIncludedIndex = i, LastIncludedTerm = t, snap_Data = kvs\<rparr>" "Get (Restore NewStateMachine kvs) = Get sm"
proof -
  let ?snap = "\<lparr>LastIncludedIndex = i, LastIncludedTerm = t, snap_Data = SM_Snapshot ord sm\<rparr>"
  have d: "distinct (map fst (data sm))" using assms(1) by (simp add: sm_wf_def)
  note rd = range_distinct [OF assms(3) d]
  have c: "SM_Snapshot ord sm = ord (data sm)" using rd(1) by (simp add: SM_Snapshot_def copy_map_distinct)
  note rd2 = range_distinct [OF assms(3) rd(1)]
  have "snap_ok ?snap" using rd assms(2) by (simp add: snap_ok_def c state_fits_def list_all_iff)
  moreover have "Encode ord ?snap = Inr (projr (Encode ord ?snap))" by (simp add: Encode_def)
  ultimately have "DecodeSnapshot (projr (Encode ord ?snap)) = Inr (?snap\<lparr>snap_Data := ord (snap_Data ?snap)\<rparr>)"
    using assms(3) by (intro DecodeSnapshot_Encode)
  moreover have "Get (Restore NewStateMachine (ord (SM_Snapshot ord sm))) = Get sm"
    by (rule ext) (simp add: Get_def Restore_def c rd2(2) rd(2))
  ultimately show thesis using that by simp
qed

lemma maybeSnapshot_done:
  assumes "entryAt r (lastApplied r) = Some e" and "snapshotThreshold \<le> lastApplied r - lastSnapshotIndex r"
    and ok: "disk_ok r" and own: "own_files r" and wf: "log_wf r"
  obtains s where
    "maybeSnapshot r = r\<lparr>rlog := drop (unat (lastApplied r) - unat (logOffset r)) (rlog r), logOffset := lastApplied r,
       env := s, lastSnapshotIndex := lastApplied r\<rparr>"
    "faults s = []" "wal_clean (rwal r) s"
    "wal_entries (rwal r) s = filter (\<lambda>e. lastApplied r < Index e) (wal_entries (rwal r) (env r))"
    "files s (snapshotPath (node_id r)) = Some (projr (Encode (range_order (env r))
       \<lparr>LastIncludedIndex = lastApplied r, LastIncludedTerm = Term e,
        snap_Data = SM_Snapshot (range_order (env r)) (stateMachine r)\<rparr>))"
proof -
  let ?la = "lastApplied r" and ?p = "snapshotPath (node_id r)" and ?w = "rwal r"
  let ?snap = "\<lparr>LastIncludedIndex = ?la, LastIncludedTerm = Term e,
     snap_Data = SM_Snapshot (range_order (env r)) (stateMachine r)\<rparr>"
  let ?bs = "projr (Encode (range_order (env r)) ?snap)"
  have dk: "faults (env r) = []" "wal_open ?w" "content (env r) (temp_path (path ?w)) = []" using ok by (simp_all add: disk_ok_def)
  define s1 where "s1 = (env r)\<lparr>files := (files (env r))(?p \<mapsto> ?bs), dirty := dirty (env r) - {?p}\<rparr>"
  have sv: "SaveSnapshot ?p ?snap (env r) = (Inr (), s1)" using SaveSnapshot_free [OF dk(1)] by (simp add: s1_def)
  have s1: "faults s1 = []" "content s1 (temp_path (path ?w)) = []" "wal_entries ?w s1 = wal_entries ?w (env r)"
    "files s1 ?p = Some ?bs"
    using dk own by (auto simp: s1_def own_files_def content_def wal_entries_def)
  obtain y w' s2 where cw: "CompactWAL ?w ?la s1 = (y, w', s2)" by (metis prod_cases3)
  have y: "y = Inr ()" "w' = ?w" "faults s2 = []" using CompactWAL_free [OF s1(1) dk(2) cw] by simp_all
  have ce: "wal_entries ?w s2 = filter (\<lambda>e. ?la < Index e) (wal_entries ?w (env r))" "wal_clean ?w s2"
    using CompactWAL_done [OF cw [unfolded y(1)] _ s1(2)] s1 y by (simp_all add: log_readable_def)
  have "files s2 ?p = files s1 ?p"
    using CompactWAL_changes [of ?w s1 ?la] cw own by (intro changes_only_files) (auto simp: own_files_def)
  moreover have la: "unat (logOffset r) < unat ?la" "unat ?la \<le> lastIndex r"
    using assms(1) by (auto simp: entryAt_eq [OF wf] split: if_splits)
  moreover have "maybeSnapshot r = (compactLog r ?la)\<lparr>env := s2, lastSnapshotIndex := ?la\<rparr>"
    using assms(1,2) sv cw y by (simp add: maybeSnapshot_def Let_def frame_simps)
  ultimately show thesis
    using y ce s1(4) by (intro that [of s2]) (simp_all add: compactLog_eq [OF wf])
qed

lemma maybeSnapshot_durable:
  assumes wf: "node_wf r" and d: "durable r" and ok: "disk_ok r" and fits: "state_fits (stateMachine r)"
  shows "durable (maybeSnapshot r)"
proof (cases "snapshotThreshold \<le> lastApplied r - lastSnapshotIndex r \<and> entryAt r (lastApplied r) \<noteq> None")
  case False
  then have "maybeSnapshot r = r" by (auto simp: maybeSnapshot_def split: option.splits)
  then show ?thesis using d by simp
next
  case True
  then obtain e where e: "entryAt r (lastApplied r) = Some e" by auto
  let ?la = "lastApplied r" and ?es = "wal_entries (rwal r) (env r)"
  have lw: "log_wf r" "sm_wf (stateMachine r)" using wf by (simp_all add: node_wf_def)
  have own: "own_files r" and ws: "wal_sync r" using d by (simp_all add: durable_def)
  obtain s where q: "maybeSnapshot r = r\<lparr>rlog := drop (unat ?la - unat (logOffset r)) (rlog r), logOffset := ?la,
       env := s, lastSnapshotIndex := ?la\<rparr>" (is "_ = ?q")
    and s: "wal_clean (rwal r) s" "wal_entries (rwal r) s = filter (\<lambda>e. ?la < Index e) ?es"
      "files s (snapshotPath (node_id r)) = Some (projr (Encode (range_order (env r))
         \<lparr>LastIncludedIndex = ?la, LastIncludedTerm = Term e, snap_Data = SM_Snapshot (range_order (env r)) (stateMachine r)\<rparr>))"
    using maybeSnapshot_done [OF e _ ok own lw(1)] True by metis
  have la: "unat (logOffset r) < unat ?la" "unat ?la \<le> lastIndex r"
    using e by (auto simp: entryAt_eq [OF lw(1)] split: if_splits)
  have ws': "length ?es \<le> lastIndex r" "contiguous (lastIndex r - length ?es) ?es"
    "filter (\<lambda>e. logOffset r < Index e) ?es = rlog r" using ws by (simp_all add: wal_sync_def Let_def)
  have lastq: "lastIndex ?q = lastIndex r" using la by (simp add: lastIndex_def)
  note fs = contiguous_filter_suffix [OF ws'(1,2) la(2)]
  have "filter (\<lambda>e. ?la < Index e) ?es = filter (\<lambda>e. ?la < Index e) (rlog r)"
    unfolding ws'(3) [symmetric] using la(1) by (auto simp: word_less_nat_alt intro!: filter_cong)
  also have "\<dots> = rlog ?q"
    using lw(1) contiguous_filter_above [of "unat (logOffset r)" "rlog r" "unat ?la"] by (simp add: log_wf_def word_less_nat_alt)
  finally have "rlog ?q = filter (\<lambda>e. ?la < Index e) ?es" by simp
  then have "wal_sync ?q"
    unfolding wal_sync_def Let_def lastq using s(1,2) fs by simp
  moreover have ro: "range_ok (range_order (env r))" using ok by (simp add: disk_ok_def)
  obtain kvs where k: "DecodeSnapshot (projr (Encode (range_order (env r)) \<lparr>LastIncludedIndex = ?la, LastIncludedTerm = Term e,
       snap_Data = SM_Snapshot (range_order (env r)) (stateMachine r)\<rparr>)) =
       Inr \<lparr>LastIncludedIndex = ?la, LastIncludedTerm = Term e, snap_Data = kvs\<rparr>"
    and get: "Get (Restore NewStateMachine kvs) = Get (stateMachine r)"
    by (rule snapshot_decodes [OF lw(2) fits ro])
  have "disk_base ?q = Some (?la, Restore NewStateMachine kvs)" by (simp add: disk_base_def s(3) k)
  moreover note get
  ultimately show ?thesis
    unfolding q durable_def using own la(2) lastq by (auto simp: own_files_def)
qed


subsection \<open>The handler\<close>

lemma durable_cong:
  assumes "rlog q = rlog r" "logOffset q = logOffset r" "lastApplied q = lastApplied r" "stateMachine q = stateMachine r"
    "rwal q = rwal r" "node_id q = node_id r" "env q = env r"
  shows "durable q = durable r"
proof -
  have "log_between q a b = log_between r a b" for a b
    by (rule log_between_eqI) (rule entryAt_cong [OF assms(1,2)])
  then show ?thesis
    using assms by (simp add: durable_def own_files_def wal_sync_def disk_base_def lastIndex_def Let_def)
qed

lemma disk_ok_change:
  assumes "disk_ok r" and "rwal q = rwal r" and "faults (env q) = []" and "range_order (env q) = range_order (env r)"
    and "changes_only {path (rwal r)} (env r) (env q)"
  shows "disk_ok q"
  using assms changes_only_content [OF assms(5), of "temp_path (path (rwal r))"] by (simp add: disk_ok_def)

lemma persistEntries_quiet:
  "persistEntries es r = (Inr (), r') \<Longrightarrow> faults (env r) = [] \<Longrightarrow> wal_open (rwal r) \<Longrightarrow>
     faults (env r') = [] \<and> range_order (env r') = range_order (env r)"
  by (induction es arbitrary: r) (auto simp: Append_free)

lemma scanEntries_durable:
  assumes wf: "log_wf r" and d: "durable r" and ok: "disk_ok r"
    and conflict: "\<And>e x. e \<in> set es \<Longrightarrow> entryAt r (Index e) = Some x \<Longrightarrow> Term x \<noteq> Term e \<Longrightarrow> lastApplied r < Index e"
    and sc: "scanEntries 0 0 es r = (Inr f, r1)"
  shows "durable r1 \<and> disk_ok r1"
  using sc
proof (cases rule: scanEntries_cases [case_names agree conflict])
  case agree
  then show ?thesis using d ok by simp
next
  case (conflict pre e post x s)
  then obtain y where "TruncateAfter (rwal r) (Index e - 1) (env r) = (y, s)" "\<not> isl y" by auto
  then obtain u where t: "TruncateAfter (rwal r) (Index e - 1) (env r) = (Inr u, s)" by (cases y) simp_all
  have dk: "faults (env r) = []" "wal_open (rwal r)" using ok by (simp_all add: disk_ok_def)
  have cl: "wal_clean (rwal r) (env r)" using d by (simp add: durable_def wal_sync_def Let_def)
  note td = TruncateAfter_done [OF dk cl t]
  have "lastApplied r < Index e" using assms(4) conflict(1,3,4) by auto
  then have "durable r1" using durable_truncate [OF wf d conflict(3) _ dk t conflict(5)] by blast
  moreover have "range_order s = range_order (env r)"
    using TruncateAfter_frame(2) [of "rwal r" "Index e - 1" "env r"] t by simp
  then have "disk_ok r1" using td(4,5) conflict(5) by (intro disk_ok_change [OF ok]) simp_all
  ultimately show ?thesis ..
qed

lemma applyCommitted_durable:
  assumes wf: "log_wf r" and d: "durable r" and "logOffset r \<le> lastApplied r"
    and ci: "commitIndex r \<le> lastApplied r \<or> unat (commitIndex r) \<le> lastIndex r"
  shows "durable (applyCommitted r)"
proof -
  obtain sm where base: "disk_base r = Some (logOffset r, sm)"
    and get: "Get (stateMachine r) = Get (apply_all sm (log_between r (unat (logOffset r)) (unat (lastApplied r))))"
    and la: "unat (lastApplied r) \<le> lastIndex r" and ws: "wal_sync r" and own: "own_files r"
    by (rule durableD [OF d])
  let ?a = "unat (lastApplied r)" and ?c = "unat (commitIndex r)" and ?q = "applyCommitted r"
  have lb: "log_between ?q x y = log_between r x y" for x y
    by (rule log_between_eqI) (simp add: entryAt_cong [of ?q r])
  have mx: "unat (lastApplied ?q) = max ?a ?c" by (simp add: applyCommitted_eq max_def word_le_nat_alt)
  have "log_between r (unat (logOffset r)) (max ?a ?c) = log_between r (unat (logOffset r)) ?a @ log_between r ?a ?c"
    using assms(3) log_between_append [of "unat (logOffset r)" ?a "max ?a ?c" r]
    by (cases "?c \<le> ?a") (simp_all add: word_le_nat_alt max_def)
  then have "Get (stateMachine ?q) = Get (apply_all sm (log_between ?q (unat (logOffset r)) (unat (lastApplied ?q))))"
    using Get_apply_all_cong [OF get] unfolding lb mx by (simp add: applyCommitted_eq)
  moreover have "wal_sync ?q" "own_files ?q" "disk_base ?q = Some (logOffset ?q, sm)"
    using ws own base by (simp_all add: wal_sync_def own_files_def disk_base_def lastIndex_def Let_def)
  moreover have "unat (lastApplied ?q) \<le> lastIndex ?q"
    unfolding mx using la ci by (auto simp: lastIndex_def word_le_nat_alt)
  ultimately show ?thesis unfolding durable_def by auto
qed

lemma finishAppend_durable:
  assumes wf: "node_wf r" and d: "durable r" and ok: "disk_ok r" and fits: "state_fits (stateMachine (finishAppend c r))"
  shows "durable (finishAppend c r)"
proof -
  let ?u = "updateCommit c r"
  have lw: "log_wf r" "logOffset r \<le> lastApplied r" "commitIndex r \<le> lastApplied r" "sm_wf (stateMachine r)"
    using wf by (simp_all add: node_wf_def)
  have wfu: "log_wf ?u" "lastIndex ?u = lastIndex r" using lw(1) by (simp_all add: log_wf_def lastIndex_def)
  have du: "durable ?u" using d durable_cong [of ?u r] by simp
  have "commitIndex ?u \<le> lastApplied ?u \<or> unat (commitIndex ?u) \<le> lastIndex ?u"
  proof (cases "c > commitIndex r")
    case True
    then have "commitIndex ?u \<le> of_nat (lastIndex r)" using updateCommit_commit [OF lw(1)] by simp
    then show ?thesis using unat_lastIndex(1) [OF lw(1)] wfu by (simp add: word_le_nat_alt)
  next
    case False
    then show ?thesis using lw(3) by (simp add: updateCommit_def)
  qed
  then have da: "durable (applyCommitted ?u)" using wfu(1) du lw(2) by (intro applyCommitted_durable) simp_all
  have "node_wf (applyCommitted ?u)" using wfu(1) lw(2,4) by (intro apply_wf) simp_all
  moreover have "disk_ok (applyCommitted ?u)" using ok by (simp add: disk_ok_def)
  moreover have "state_fits (stateMachine (applyCommitted ?u))" using fits by (simp add: finishAppend_def frame_simps)
  ultimately show ?thesis unfolding finishAppend_def using da by (intro maybeSnapshot_durable)
qed

lemma NewRaft_recovers:
  assumes wf: "node_wf r" and d: "durable r"
    and disk: "faults s = []" "content s (path w) = content (env r) (path w)"
      "files s (snapshotPath (node_id r)) = files (env r) (snapshotPath (node_id r))"
    and w: "path w = path (rwal r)" "wal_open w"
  shows "\<exists>r' s'. NewRaft (node_id r) ps w NewStateMachine s rnd = (Inr r', s')
      \<and> rlog r' = rlog r \<and> logOffset r' = logOffset r \<and> unat (lastApplied r') = lastIndex r
      \<and> commitIndex r' = logOffset r
      \<and> Get (stateMachine r') = Get (apply_all (stateMachine r) (log_between r (unat (lastApplied r)) (lastIndex r)))
      \<and> node_wf r' \<and> durable r'"
proof -
  have lw: "log_wf r" "unat (logOffset r) \<le> unat (lastApplied r)" using wf by (simp_all add: node_wf_def word_le_nat_alt)
  obtain sm where base: "disk_base r = Some (logOffset r, sm)"
    and get: "Get (stateMachine r) = Get (apply_all sm (log_between r (unat (logOffset r)) (unat (lastApplied r))))"
    and la: "unat (lastApplied r) \<le> lastIndex r" and ws: "wal_sync r" and of: "own_files r"
    using d by (auto simp: durable_def)
  let ?q = "newNode (node_id r) ps w NewStateMachine s rnd"
  let ?r' = "?q\<lparr>rlog := rlog r, logOffset := logOffset r, commitIndex := logOffset r,
     lastApplied := (if rlog r = [] then logOffset r else Index (last (rlog r))), stateMachine := apply_all sm (rlog r)\<rparr>"
  have we: "wal_entries w s = wal_entries (rwal r) (env r)" "wal_clean w s = wal_clean (rwal r) (env r)"
    using disk(2) w by (simp_all add: wal_entries_def wal_clean_def)
  have id: "node_id ?q = node_id r" "env ?q = s" "rwal ?q = w" by (simp_all add: newNode_def)
  have qb: "disk_base ?q = Some (logOffset r, sm)" using base disk disk_base_cong [of ?q r] id by simp
  have "NewRaft (node_id r) ps w NewStateMachine s rnd = (Inr ?r', s)"
    using NewRaft_disk [OF disk(1) w(2) qb] ws by (simp add: we wal_sync_def Let_def)
  moreover have same: "rlog ?r' = rlog r" "logOffset ?r' = logOffset r" "lastIndex ?r' = lastIndex r" "log_wf ?r'"
    using lw(1) by (simp_all add: lastIndex_def log_wf_def)
  moreover have "commitIndex ?r' = logOffset r" by simp
  moreover have la': "unat (lastApplied ?r') = lastIndex r" using last_log_index [OF lw(1)] by (simp add: lastIndex_def)
  moreover have "apply_all sm (rlog r) =
      apply_all (apply_all sm (log_between r (unat (logOffset r)) (unat (lastApplied r)))) (log_between r (unat (lastApplied r)) (lastIndex r))"
    using log_between_all [OF lw(1)] log_between_append [OF lw(2) la, of r] by (metis apply_all_append)
  then have "Get (stateMachine ?r') = Get (apply_all (stateMachine r) (log_between r (unat (lastApplied r)) (lastIndex r)))"
    using Get_apply_all_cong [OF get] by simp
  moreover have "node_wf ?r'"
    using same la' disk_base_wf [OF base] by (intro node_wfI) (simp_all add: word_le_nat_alt lastIndex_def sm_wf_apply_all)
  moreover have "durable ?r'"
  proof -
    have "own_files ?r'" "wal_sync ?r'"
      using of ws id w same(3) by (simp_all add: own_files_def wal_sync_def Let_def we)
    moreover have "disk_base ?r' = Some (logOffset ?r', sm)"
      using qb by (simp add: disk_base_def)
    moreover have "log_between ?r' (unat (logOffset ?r')) (unat (lastApplied ?r')) = rlog r"
      using log_between_all [OF same(4)] unfolding la' same(3) by simp
    ultimately show ?thesis unfolding durable_def using la' same(3) by auto
  qed
  ultimately show ?thesis by blast
qed

lemma HandleInstallSnapshot_installs:
  assumes "currentTerm r \<le> isa_Term args" and "DecodeSnapshot (isa_Data args) = Inr snap" and "faults (env r) = []"
    and "HandleInstallSnapshot r args = (reply, r')"
  shows "isr_Term reply = isa_Term args" "rstate r' = Follower" "rlog r' = []" "logOffset r' = LastIncludedIndex snap"
    "lastApplied r' = LastIncludedIndex snap" "commitIndex r' = LastIncludedIndex snap"
    "data (stateMachine r') = snap_Data snap" "node_id r' = node_id r"
    "files (env r') (snapshotPath (node_id r)) = Some (projr (Encode (range_order (env r)) snap))"
  using assms leD [OF assms(1)] SaveSnapshot_free [OF assms(3)]
  by (auto simp: HandleInstallSnapshot_def Let_def Restore_def split: if_splits)

subsection \<open>An example\<close>

definition sample_command :: bytes where
  "sample_command = lit ''set x=1''"

definition sample_proposed :: raft where
  "sample_proposed = snd (Propose (sample_node 1 Leader []) sample_command)"

lemma wal_entries_Nil: "content s (path w) = [] \<Longrightarrow> wal_entries w s = []"
  by (simp add: wal_entries_def)

lemma sample_empty: "durable (sample_node n st [])" "node_wf (sample_node n st [])" "disk_ok (sample_node n st [])"
proof -
  show "durable (sample_node n st [])"
    by (simp add: durable_def own_files_def wal_sync_def wal_clean_def wal_entries_Nil disk_base_def Let_def lastIndex_def
        sample_node_def content_def snapshotPath_def temp_path_def apply_all_def)
  show "node_wf (sample_node n st [])" by (simp add: node_wf_def log_wf_def sample_node_def)
  show "disk_ok (sample_node n st [])" by (simp add: disk_ok_def sample_node_def content_def range_ok_def)
qed

lemma sample_propose:
  "Propose (sample_node 1 Leader []) sample_command = (Inr 1, sample_proposed)"
  by (simp add: sample_proposed_def Propose_def sample_node_def Let_def lastLogIndexAndTerm_def Append_free)

lemma sample_proposed_durable: "durable sample_proposed" "node_wf sample_proposed"
  "faults (env sample_proposed) = []" "wal_open (rwal sample_proposed)" "lastIndex sample_proposed = 1"
  "node_id sample_proposed = 1"
proof -
  show "durable sample_proposed"
    using Propose_keeps_durable [OF sample_empty(2,1) _ _ sample_propose]
    by (simp add: sample_command_def lastIndex_def sample_node_def)
  show "node_wf sample_proposed"
    unfolding sample_proposed_def by (rule Propose_wf [OF sample_empty(2)]) (simp add: lastIndex_def sample_node_def)
qed (simp_all add: sample_proposed_def Propose_def sample_node_def Let_def lastLogIndexAndTerm_def Append_free lastIndex_def)

definition sample_first :: AppendEntriesArgs where
  "sample_first = \<lparr>aea_Term = 1, aea_LeaderID = 1, aea_PrevLogIndex = 0, aea_PrevLogTerm = 0,
     aea_Entries = [sample_entry 1 1], aea_LeaderCommit = 0\<rparr>"

subsection \<open>Properties\<close>

text \<open>
  C6: crash recovery. A node whose snapshot file and write-ahead log are in step with its memory and that is
  restarted on a working disk by \<^verbatim>\<open>NewRaft\<close> has the same log and log offset, satisfies
  the invariant and is in step again. Its store has every entry of the log applied, also those not yet known
  to be committed, while its commit index is that of the snapshot.
\<close>

theorem crash_recovery:
  assumes wf: "node_wf r" and d: "durable r"
    and disk: "faults s = []" "files s = files (env r)" and w: "path w = path (rwal r)" "wal_open w"
  shows "\<exists>r' s'. NewRaft (node_id r) ps w NewStateMachine s rnd = (Inr r', s')
      \<and> rlog r' = rlog r \<and> logOffset r' = logOffset r \<and> unat (lastApplied r') = lastIndex r
      \<and> commitIndex r' = logOffset r
      \<and> Get (stateMachine r') = Get (apply_all (stateMachine r) (log_between r (unat (lastApplied r)) (lastIndex r)))
      \<and> node_wf r' \<and> durable r'"
  by (rule NewRaft_recovers [OF wf d disk(1) _ _ w]) (simp_all add: disk(2) content_def)

theorem crash_recovery_witness:
  "\<exists>r' s'. NewRaft 1 sample_peers (rwal sample_proposed) NewStateMachine (env sample_proposed) [] = (Inr r', s')
     \<and> rlog r' = rlog sample_proposed \<and> unat (lastApplied r') = 1"
  using crash_recovery [OF sample_proposed_durable(2,1,3) refl refl sample_proposed_durable(4), of sample_peers "[]"]
  unfolding sample_proposed_durable(5,6) by blast

text \<open>
  C7: when \<^verbatim>\<open>Propose\<close> reports an index, whatever was about to fail on the disk, the
  entry is in the log at the next index, is synced to the write-ahead log, and snapshot file and write-ahead
  log are still in step with the memory of the node.
\<close>

theorem Propose_durable:
  assumes "node_wf r" and "durable r" and "lastIndex r + 1 < 2 ^ 63" and "length d < 2 ^ 32"
    and "Propose r d = (Inr i, r')"
  shows "durable r' \<and> path (rwal r') \<notin> dirty (env r') \<and> unat i = lastIndex r + 1
       \<and> entryAt r' i = Some \<lparr>Term = currentTerm r, Index = i, Data = d\<rparr>"
  using assms by (rule Propose_keeps_durable)

theorem Propose_durable_witness:
  "durable sample_proposed \<and> path (rwal sample_proposed) \<notin> dirty (env sample_proposed)"
  using Propose_durable [OF sample_empty(2,1) _ _ sample_propose]
  by (simp add: sample_command_def lastIndex_def sample_node_def)

text \<open>
  C8: when a follower on a working disk accepts entries that contradict nothing it applied, appending, cutting
  off conflicting entries, applying and taking a snapshot leave snapshot file and write-ahead log in step with
  its memory.
\<close>

theorem HandleAppendEntries_durable:
  assumes wf: "node_wf r" and d: "durable r" and ok: "disk_ok r"
    and con: "contiguous (unat (aea_PrevLogIndex args)) (aea_Entries args)"
    and bound: "unat (aea_PrevLogIndex args) + length (aea_Entries args) < 2 ^ 63"
    and eok: "list_all entry_ok (aea_Entries args)"
    and conflict: "\<And>e x. e \<in> set (aea_Entries args) \<Longrightarrow> entryAt r (Index e) = Some x \<Longrightarrow> Term x \<noteq> Term e \<Longrightarrow>
       lastApplied r < Index e"
    and eq: "HandleAppendEntries r args = (reply, r')" and success: "aer_Success reply"
    and fits: "state_fits (stateMachine r')"
  shows "durable r'"
  using eq
proof (cases rule: HandleAppendEntries_cases [case_names stale mismatch truncate_error gap append])
  case (append ra f r1 res s)
  let ?new = "drop f (aea_Entries args)"
  let ?q = "r1\<lparr>rlog := rlog r1 @ ?new\<rparr>" and ?r2 = "r1\<lparr>rlog := rlog r1 @ ?new, env := s\<rparr>"
  have wfa: "log_wf ra" using wf append(2) by (simp add: node_wf_def)
  have da: "durable ra" "disk_ok ra" using d ok durable_cong [of ra r] by (simp_all add: append(2) disk_ok_def)
  have d1: "durable r1" "disk_ok r1"
    using scanEntries_durable [OF wfa da _ append(4)] conflict append(2) by auto
  have wf1: "log_wf r1" using scanEntries_sublog(1) [OF wfa append(4)] .
  have wf2: "log_wf ?r2" by (rule append_core(1) [OF wfa con bound append(4,5)]) simp_all
  have r': "r' = finishAppend (aea_LeaderCommit args) ?r2" and res: "res = Inr ()"
    using append(7,8) success by (cases res; auto simp: rejectAppend_def)+
  have cl: "wal_clean (rwal ?q) (env ?q)" using d1(1) by (simp add: durable_def wal_sync_def Let_def)
  have "list_all entry_ok ?new" using eok by (auto simp: list_all_iff dest: in_set_dropD)
  then have pe: "wal_entries (rwal r1) s = wal_entries (rwal r1) (env r1) @ ?new" "wal_clean (rwal r1) s"
    "changes_only {path (rwal r1)} (env r1) s"
    using persistEntries_entries [OF append(6) [unfolded res] cl] by simp_all
  have dr2: "durable ?r2" by (rule durable_extend [OF wf1 wf2 d1(1), of ?new]) (simp_all add: pe)
  have "faults s = []" "range_order s = range_order (env r1)"
    using persistEntries_quiet [OF append(6) [unfolded res]] d1(2) by (simp_all add: disk_ok_def)
  then have "disk_ok ?r2" using pe(3) by (intro disk_ok_change [OF d1(2)]) simp_all
  moreover have "node_wf ?r2"
    using wf2 wf scanEntries_upd [OF append(4)] by (intro node_wfI) (auto simp: node_wf_def append(2))
  ultimately show ?thesis using dr2 fits unfolding r' by (intro finishAppend_durable)
next
  case truncate_error
  then show ?thesis using success by (simp add: rejectAppend_def)
next
  case gap
  then show ?thesis using success by (simp add: rejectAppend_def)
qed (use success in \<open>simp_all add: rejectAppend_def\<close>)

theorem HandleAppendEntries_durable_witness:
  "durable (snd (HandleAppendEntries (sample_node 2 Follower []) sample_first))"
proof -
  let ?r = "sample_node 2 Follower []"
  let ?h = "HandleAppendEntries ?r sample_first"
  have wf: "log_wf ?r" using sample_empty(2) by (simp add: node_wf_def)
  have none: "entryAt ?r j = None" for j by (simp add: entryAt_eq [OF wf]) (simp add: sample_node_def lastIndex_def)
  have ok: "aer_Success (fst ?h)" "stateMachine (snd ?h) = NewStateMachine"
    by (simp_all add: sample_eval sample_node_def sample_entry_def sample_first_def finishAppend_def updateCommit_def
        applyCommitted_eq maybeSnapshot_def snapshotThreshold_def)
  have fits: "state_fits (stateMachine (snd ?h))" unfolding ok(2) by (simp add: state_fits_def NewStateMachine_def)
  show ?thesis
    by (rule HandleAppendEntries_durable [OF sample_empty(2,1,3) _ _ _ _ surjective_pairing ok(1) fits])
      (simp_all add: none sample_first_def sample_entry_def entry_ok_def)
qed

text \<open>
  C14: sending a snapshot: what \<^verbatim>\<open>sendSnapshotToPeer\<close> reads from the leader's snapshot
  file and \<^verbatim>\<open>HandleInstallSnapshot\<close> installs gives the follower the same key-value
  contents, the index of the snapshot as log offset, applied and committed index, an empty log, and a snapshot
  file with the same contents.
\<close>

theorem snapshot_transfer:
  assumes snap: "files (env l) (snapshotPath (node_id l)) = Some c" "DecodeSnapshot c = Inr snap" "snap_ok snap"
    and quiet: "faults (env l) = []" "range_ok (range_order (env l))" "faults (env r) = []" "range_ok (range_order (env r))"
    and term_ok: "currentTerm r \<le> t"
  shows "\<exists>args l' reply r' sm. sendSnapshotArgs l t i = (Some (LastIncludedIndex snap, args), l')
      \<and> HandleInstallSnapshot r args = (reply, r')
      \<and> isr_Term reply = t \<and> rstate r' = Follower \<and> rlog r' = [] \<and> logOffset r' = LastIncludedIndex snap
      \<and> lastApplied r' = LastIncludedIndex snap \<and> commitIndex r' = LastIncludedIndex snap
      \<and> Get (stateMachine r') = map_of (snap_Data snap)
      \<and> disk_base r' = Some (LastIncludedIndex snap, sm) \<and> Get sm = map_of (snap_Data snap)"
proof -
  let ?ol = "range_order (env l)" and ?or = "range_order (env r)"
  let ?bs = "projr (Encode ?ol snap)"
  have enc: "Encode o' s = Inr (projr (Encode o' s))" for o' s by (simp add: Encode_def)
  let ?args = "\<lparr>isa_Term = t, isa_LeaderID = i, isa_LastIncludedIndex = LastIncludedIndex snap,
     isa_LastIncludedTerm = LastIncludedTerm snap, isa_Data = ?bs\<rparr>"
  have send: "sendSnapshotArgs l t i = (Some (LastIncludedIndex snap, ?args), l)"
    using LoadSnapshot_free(2) [OF quiet(1) snap(1,2)] by (simp add: sendSnapshotArgs_def Encode_def)
  define snap1 where "snap1 = snap\<lparr>snap_Data := ?ol (snap_Data snap)\<rparr>"
  have d: "distinct (map fst (snap_Data snap))" using snap(3) by (simp add: snap_ok_def)
  note rd = range_distinct [OF quiet(2) d]
  have dec1: "DecodeSnapshot ?bs = Inr snap1" unfolding snap1_def by (rule DecodeSnapshot_Encode [OF snap(3) quiet(2) enc])
  have ok1: "snap_ok snap1" using snap(3) rd by (simp add: snap_ok_def snap1_def list_all_iff)
  note rd1 = range_distinct [OF quiet(4) rd(1)]
  have dec2: "DecodeSnapshot (projr (Encode ?or snap1)) = Inr (snap1\<lparr>snap_Data := ?or (snap_Data snap1)\<rparr>)"
    by (rule DecodeSnapshot_Encode [OF ok1 quiet(4) enc])
  let ?r' = "snd (HandleInstallSnapshot r ?args)"
  have h: "isr_Term (fst (HandleInstallSnapshot r ?args)) = t" "rstate ?r' = Follower" "rlog ?r' = []"
    "logOffset ?r' = LastIncludedIndex snap1" "lastApplied ?r' = LastIncludedIndex snap1" "commitIndex ?r' = LastIncludedIndex snap1"
    "data (stateMachine ?r') = snap_Data snap1" "node_id ?r' = node_id r"
    "files (env ?r') (snapshotPath (node_id r)) = Some (projr (Encode ?or snap1))"
    using HandleInstallSnapshot_installs [of r ?args snap1, OF _ _ quiet(3) surjective_pairing] term_ok dec1 by simp_all
  have s1: "LastIncludedIndex snap1 = LastIncludedIndex snap" "snap_Data snap1 = ?ol (snap_Data snap)" by (simp_all add: snap1_def)
  have "disk_base ?r' = Some (LastIncludedIndex snap, Restore NewStateMachine (?or (?ol (snap_Data snap))))"
    using h(8,9) dec2 by (simp add: disk_base_def s1)
  moreover have "Get (Restore NewStateMachine (?or (?ol (snap_Data snap)))) = map_of (snap_Data snap)"
    "Get (stateMachine ?r') = map_of (snap_Data snap)"
    using rd(2) rd1(2) h(7) s1 by (auto simp: Get_def Restore_def fun_eq_iff)
  ultimately show ?thesis using send h(1-6) s1(1) by (metis surjective_pairing)
qed

theorem snapshot_transfer_witness:
  "let l = (sample_node 1 Leader [])\<lparr>env := quiet_os\<lparr>files := [snapshotPath 1 \<mapsto> projr (Encode id sample_snapshot)]\<rparr>\<rparr>
   in \<exists>args l'. sendSnapshotArgs l 1 1 = (Some (3, args), l')
      \<and> Get (stateMachine (snd (HandleInstallSnapshot (sample_node 2 Follower []) args))) (lit ''x'') = Some (lit ''1'')"
proof -
  let ?l = "(sample_node 1 Leader [])\<lparr>env := quiet_os\<lparr>files := [snapshotPath 1 \<mapsto> projr (Encode id sample_snapshot)]\<rparr>\<rparr>"
  have ok: "snap_ok sample_snapshot" by (simp add: snap_ok_def sample_snapshot_def kv_ok_def)
  have id: "range_ok id" by (simp add: range_ok_def)
  have dec: "DecodeSnapshot (projr (Encode id sample_snapshot)) = Inr sample_snapshot"
    using DecodeSnapshot_Encode [OF ok id] by (simp add: Encode_def)
  have f: "files (env ?l) (snapshotPath (node_id ?l)) = Some (projr (Encode id sample_snapshot))" by (simp add: sample_node_def)
  obtain args l' reply r' where "sendSnapshotArgs ?l 1 1 = (Some (LastIncludedIndex sample_snapshot, args), l')"
      "HandleInstallSnapshot (sample_node 2 Follower []) args = (reply, r')"
      "Get (stateMachine r') = map_of (snap_Data sample_snapshot)"
    using snapshot_transfer [OF f dec ok, of "sample_node 2 Follower []" 1 1] by (auto simp: sample_node_def id)
  then show ?thesis unfolding Let_def by (intro exI [of _ args] exI [of _ l']) (simp add: sample_snapshot_def)
qed

text \<open>
  C36: a restarted node is in term 0 and has not voted, whatever term it was in and whoever it voted for; so
  after a restart it can vote a second time in the same term.
\<close>

theorem restart_forgets_vote:
  assumes "NewRaft n ps w sm s rnd = (Inr r, s')"
  shows "currentTerm r = 0 \<and> votedFor r = None"
proof -
  have "currentTerm (snd (loadPersistedState q)) = currentTerm q \<and> votedFor (snd (loadPersistedState q)) = votedFor q" for q
    by (auto simp: loadPersistedState_def replay_eq Let_def split: prod.splits sum.splits option.splits)
  from this [of "newNode n ps w sm s rnd"] show ?thesis
    using assms by (auto simp: NewRaft_def newNode_def split: prod.splits sum.splits)
qed

theorem restart_forgets_vote_witness:
  "\<exists>r s'. NewRaft 1 sample_peers (rwal sample_proposed) NewStateMachine quiet_os [] = (Inr r, s')
     \<and> currentTerm r = 0 \<and> votedFor r = None"
proof -
  have "disk_base (newNode 1 sample_peers (rwal sample_proposed) NewStateMachine quiet_os []) = Some (0, NewStateMachine)"
    by (simp add: disk_base_def newNode_def)
  then obtain r where n: "NewRaft 1 sample_peers (rwal sample_proposed) NewStateMachine quiet_os [] = (Inr r, quiet_os)"
    using NewRaft_disk [OF _ sample_proposed_durable(4)] by (metis quiet_os_simps(2))
  then show ?thesis using restart_forgets_vote [OF n] by blast
qed

text \<open>
  C37: a conflict at the first entry of the write-ahead log cannot be resolved:
  \<^verbatim>\<open>TruncateAfter\<close> looks for the index before it, does not find it and fails; the
  request is rejected with the log in memory cut to nothing and the write-ahead log as it was.
\<close>

theorem conflict_at_first_entry:
  assumes wf: "log_wf r" and d: "durable r" and ok: "disk_ok r"
    and log: "wal_entries (rwal r) (env r) = x # xs" "rlog r = x # xs"
    and args: "aea_Entries args = e # es" "Index e = Index x" "Term e \<noteq> Term x" "currentTerm r \<le> aea_Term args"
      "\<not> prevMismatch r args"
    and eq: "HandleAppendEntries r args = (reply, r')"
  shows "\<not> aer_Success reply \<and> rlog r' = [] \<and> wal_entries (rwal r') (env r') = x # xs"
proof -
  let ?ra = "acceptLeader (aea_Term args) (aea_LeaderID args) r" and ?w = "rwal r" and ?s = "env r"
  have x: "entryAt r (Index x) = Some x" using log by (simp add: entryAt_iff [OF wf])
  have ix: "unat (Index x) = unat (logOffset r) + 1" using wf log by (simp add: log_wf_def)
  have tp: "nat (toSlicePos ?ra (Index x)) = 0"
    using toSlicePos_entryAt [OF wf x] ix by (simp add: toSlicePos_def)
  have "Index x - 1 \<notin> Index ` set (x # xs)"
  proof
    assume "Index x - 1 \<in> Index ` set (x # xs)"
    then obtain y where "y \<in> set (x # xs)" "Index y = Index x - 1" by (metis imageE)
    then show False using contiguous_bounds [of "unat (logOffset r)" "x # xs" y] wf log ix by (simp add: log_wf_def unat_sub_u64)
  qed
  then have "TruncateAfter ?w (Index x - 1) ?s = (Inl (Errorf (''index '' @ decimal (unat (Index x - 1)) @ '' not found'')), ?s)"
    using TruncateAfter_free(2) [of ?s ?w "Index x - 1"] d ok log
    by (simp add: disk_ok_def durable_def wal_sync_def Let_def)
  then have "scanEntries 0 0 (aea_Entries args) ?ra = (Inl (Errorf (''index '' @ decimal (unat (Index x - 1)) @ '' not found'')), ?ra\<lparr>rlog := []\<rparr>)"
    using x args(1-3) tp by (simp add: Let_def)
  then have "HandleAppendEntries r args = (rejectAppend (?ra\<lparr>rlog := []\<rparr>), ?ra\<lparr>rlog := []\<rparr>)"
    using args(4,5) by (simp add: HandleAppendEntries_def Let_def)
  then show ?thesis using eq log by (auto simp: rejectAppend_def)
qed

theorem conflict_at_first_entry_witness:
  "rlog (snd (HandleAppendEntries sample_proposed (sample_first\<lparr>aea_Term := 2, aea_Entries := [sample_entry 2 1]\<rparr>))) = []
   \<and> rlog sample_proposed \<noteq> []"
proof -
  let ?a = "sample_first\<lparr>aea_Term := 2, aea_Entries := [sample_entry 2 1]\<rparr>"
  let ?x = "\<lparr>Term = 1, Index = 1, Data = sample_command\<rparr>"
  have wf: "log_wf sample_proposed" using sample_proposed_durable(2) by (simp add: node_wf_def)
  have fields: "rlog sample_proposed = [?x]" "currentTerm sample_proposed = 1" "logOffset sample_proposed = 0"
    by (simp_all add: sample_proposed_def Propose_def sample_node_def Let_def lastLogIndexAndTerm_def Append_free)
  have ok: "disk_ok sample_proposed"
    by (simp add: sample_proposed_def Propose_def sample_node_def Let_def lastLogIndexAndTerm_def Append_free disk_ok_def
        content_def range_ok_def temp_path_def)
  have "wal_sync sample_proposed" using sample_proposed_durable(1) by (simp add: durable_def)
  then have "filter (\<lambda>e. 0 < Index e) (wal_entries (rwal sample_proposed) (env sample_proposed)) = [?x]"
    "length (wal_entries (rwal sample_proposed) (env sample_proposed)) \<le> 1"
    using sample_proposed_durable(5) fields by (simp_all add: wal_sync_def Let_def)
  then have wal: "wal_entries (rwal sample_proposed) (env sample_proposed) = [?x]"
    by (cases "wal_entries (rwal sample_proposed) (env sample_proposed)") (auto split: if_splits)
  have "\<not> prevMismatch sample_proposed ?a" by (simp add: prevMismatch_def sample_first_def)
  then show ?thesis
    using conflict_at_first_entry [OF wf sample_proposed_durable(1) ok wal fields(1) _ _ _ _ _ surjective_pairing [of "HandleAppendEntries sample_proposed ?a"],
        of "sample_entry 2 1" "[]"] fields
    by (simp add: sample_entry_def)
qed

text \<open>
  C38: a snapshot file of which only a proper prefix was written, as a crash inside
  \<^verbatim>\<open>SaveSnapshot\<close> leaves it, makes \<^verbatim>\<open>NewRaft\<close> fail: the node
  does not start.
\<close>

theorem torn_snapshot_blocks_restart:
  assumes "snap_ok snap" and "range_ok ord" and "Encode ord snap = Inr (part @ lost)" and "lost \<noteq> []"
    and "faults s = []" and "files s (snapshotPath n) = Some part"
  shows "\<exists>err. NewRaft n ps w sm s rnd = (Inl err, s)"
proof -
  obtain e where "DecodeSnapshot part = Inl e" using DecodeSnapshot_torn [OF assms(1-4)] by blast
  then have "LoadSnapshot (snapshotPath n) s = (Inl (Wrap ''failed to decode snapshot : '' e), s)"
    using assms(5,6) by (simp add: LoadSnapshot_def os_simps)
  then show ?thesis by (simp add: NewRaft_def newNode_def loadPersistedState_def)
qed

theorem torn_snapshot_blocks_restart_witness:
  "let s = quiet_os\<lparr>files := [snapshotPath 1 \<mapsto> []]\<rparr>
   in \<exists>err. NewRaft 1 sample_peers (rwal sample_proposed) NewStateMachine s [] = (Inl err, s)"
proof -
  have "snap_ok sample_snapshot" "range_ok id" by (simp_all add: snap_ok_def sample_snapshot_def kv_ok_def range_ok_def)
  moreover define bs where "bs = projr (Encode id sample_snapshot)"
  then have "Encode id sample_snapshot = Inr ([] @ bs)" "length bs \<ge> 8" by (simp_all add: Encode_def)
  ultimately show ?thesis
    using torn_snapshot_blocks_restart [of sample_snapshot id "[]" bs "quiet_os\<lparr>files := [snapshotPath 1 \<mapsto> []]\<rparr>" 1]
    by (force simp: Let_def)
qed

end
