(* ===== verification/Process.thy ===== *)
theory Process
  imports Server Raft_Durability
begin

text \<open>
  The running server process, \<^verbatim>\<open>cmd/server/main.go\<close> with \<^verbatim>\<open>transport\<close>, \<^verbatim>\<open>httpapi\<close> and \<^verbatim>\<open>raft\<close>: what inputs ask for,
  that serving them is doing just that, and a run of the node in the sense of the step relation; starting
  recovers what an earlier process left on disk; and what a client is told about a write.
\<close>

subsection \<open>What inputs ask for\<close>

text \<open>
  What an input asks of the node, independently of how the process takes it apart: a call of one of the three
  handlers, a read, a write, telling who is the leader, the turn of a goroutine, or nothing.
\<close>

datatype operation =
    Vote RequestVoteArgs
  | Entries AppendEntriesArgs
  | Install InstallSnapshotArgs
  | Read gostring
  | Write bytes
  | Redirect
  | Run task
  | Nothing

text \<open>
  Requests of peers are messages as the encoders write them. A message of which only a part arrives, one of an
  unknown type and one whose payload does not decode ask for nothing.
\<close>

inductive asks :: "input \<Rightarrow> operation \<Rightarrow> bool" where
  vote: "EncodeRequestVoteArgs v = Inr bs \<Longrightarrow> incoming c = message MsgRequestVoteArgs bs \<Longrightarrow> asks (Peer c) (Vote v)"
| entries: "append_args_ok a \<Longrightarrow> EncodeAppendEntriesArgs a = Inr bs \<Longrightarrow> incoming c = message MsgAppendEntriesArgs bs \<Longrightarrow>
     asks (Peer c) (Entries a)"
| install: "snapshot_args_ok i \<Longrightarrow> EncodeInstallSnapshotArgs i = Inr bs \<Longrightarrow> incoming c = message MsgInstallSnapshotArgs bs \<Longrightarrow>
     asks (Peer c) (Install i)"
| torn: "length bs < 2 ^ 32 \<Longrightarrow> message t bs = incoming c @ lost \<Longrightarrow> lost \<noteq> [] \<Longrightarrow> asks (Peer c) Nothing"
| unknown: "length bs < 2 ^ 32 \<Longrightarrow> incoming c = message t bs \<Longrightarrow>
     t \<notin> {MsgRequestVoteArgs, MsgAppendEntriesArgs, MsgInstallSnapshotArgs} \<Longrightarrow> asks (Peer c) Nothing"
| malformed_vote: "length bs < 2 ^ 32 \<Longrightarrow> incoming c = message MsgRequestVoteArgs bs \<Longrightarrow>
     DecodeRequestVoteArgs bs = Inl err \<Longrightarrow> asks (Peer c) Nothing"
| malformed_entries: "length bs < 2 ^ 32 \<Longrightarrow> incoming c = message MsgAppendEntriesArgs bs \<Longrightarrow>
     DecodeAppendEntriesArgs bs = Inl failed \<Longrightarrow> asks (Peer c) Nothing"
| malformed_install: "length bs < 2 ^ 32 \<Longrightarrow> incoming c = message MsgInstallSnapshotArgs bs \<Longrightarrow>
     DecodeInstallSnapshotArgs bs = Inl err \<Longrightarrow> asks (Peer c) Nothing"
| get: "asks (Http ''/get'' l q) (Read (query_get q (lit ''key'')))"
| set: "asks (Http ''/set'' True q) (Write (set_command (query_get q (lit ''key'')) (query_get q (lit ''value''))))"
| redirect: "asks (Http ''/set'' False q) Redirect"
| no_route: "urlPath \<notin> {''/get'', ''/set''} \<Longrightarrow> asks (Http urlPath l q) Nothing"
| empty_line: "asks (Stdin []) Nothing"
| get_line: "asks (Stdin (lit ''get '' @ k)) (Read k)"
| command_line: "line \<noteq> [] \<Longrightarrow> (\<nexists>k. line = lit ''get '' @ k) \<Longrightarrow> asks (Stdin line) (Write line)"
| turn: "asks (Task t) (Run t)"

text \<open>The state after an operation.\<close>

fun turn_taken :: "task \<Rightarrow> raft \<Rightarrow> raft" where
  "turn_taken (Timer ss) r = fst (electionTimeout ss r)"
| "turn_taken (VoteAnswer st ss votes maj reply) r = fst (voteReply st ss r votes maj reply)"
| "turn_taken (Beat g) r = r"
| "turn_taken (BeatCall t l d) r = r"
| "turn_taken (BeatTerm t reply) r = heartBeatSuperseded r t reply"
| "turn_taken (BeatOutcome p d reply) r = heartBeatOutcome r p d reply"
| "turn_taken (SnapshotCall t l) r = snd (sendSnapshotArgs r t l)"
| "turn_taken (SnapshotAnswer p i reply) r = sendSnapshotReply r p i reply"

fun perform :: "operation \<Rightarrow> raft \<Rightarrow> raft" where
  "perform (Vote v) r = snd (HandleRequestVote r v)"
| "perform (Entries a) r = snd (HandleAppendEntries r a)"
| "perform (Install i) r = snd (HandleInstallSnapshot r i)"
| "perform (Write d) r = snd (Propose r d)"
| "perform (Run t) r = turn_taken t r"
| "perform (Read k) r = r"
| "perform Redirect r = r"
| "perform Nothing r = r"

text \<open>
  What the sender is told: the answer of the handler; for a read the value or that there is none; for a write
  the index or the error; the number of the leader. \<open>told\<close> says it for a reaction, over HTTP or on standard output.
\<close>

definition index_text :: "u64 \<Rightarrow> gostring" where
  "index_text i = lit (''proposed at index '' @ decimal (unat i))"

fun told :: "(go_error \<Rightarrow> string) \<Rightarrow> operation \<Rightarrow> raft \<Rightarrow> reaction \<Rightarrow> bool" where
  "told errText (Vote v) r x =
     (\<exists>c. x = Answered (answer c MsgRequestVoteReply (EncodeRequestVoteReply (fst (HandleRequestVote r v)))))"
| "told errText (Entries a) r x =
     (\<exists>c. x = Answered (answer c MsgAppendEntriesReply (EncodeAppendEntriesReply (fst (HandleAppendEntries r a)))))"
| "told errText (Install i) r x =
     (\<exists>c. x = Answered (answer c MsgInstallSnapshotReply (EncodeInstallSnapshotReply (fst (HandleInstallSnapshot r i)))))"
| "told errText (Read k) r x =
     (case Get (stateMachine r) k of
        Some v \<Rightarrow> x = Responded \<lparr>status = 200, body = v\<rparr> \<or> x = Printed (k @ lit '' = '' @ v @ [10])
      | None \<Rightarrow> x = Responded \<lparr>status = 404, body = lit ''not found''\<rparr> \<or> x = Printed (k @ lit '' not found'' @ [10]))"
| "told errText (Write d) r x =
     (case fst (Propose r d) of
        Inr i \<Rightarrow> x = Responded \<lparr>status = 200, body = index_text i\<rparr> \<or> x = Printed (index_text i @ [10])
      | Inl err \<Rightarrow> x = Responded \<lparr>status = 500, body = lit (''propose failed: '' @ errText err)\<rparr>
          \<or> x = Printed (lit (''propose failed : '' @ errText err) @ [10]))"
| "told errText Redirect r x =
     (x = Responded \<lparr>status = 421, body = lit (''not the leader; try node '' @ decimal (unat (leaderID r)))\<rparr>)"
| "told errText (Run t) r x = (runTask t r = Inr (x, turn_taken t r))"
| "told errText Nothing r x = (\<forall>resp. x = Responded resp \<longrightarrow> status resp = 404)"

fun performs :: "operation list \<Rightarrow> raft \<Rightarrow> raft" where
  "performs [] r = r"
| "performs (op # ops) r = performs ops (perform op r)"

fun told_all :: "(go_error \<Rightarrow> string) \<Rightarrow> operation list \<Rightarrow> raft \<Rightarrow> reaction list \<Rightarrow> bool" where
  "told_all errText [] r xs = (xs = [])"
| "told_all errText (op # ops) r xs =
     (\<exists>x ys. xs = x # ys \<and> told errText op r x \<and> told_all errText ops (perform op r) ys)"

text \<open>
  The side conditions of the step relation: requests of other nodes carry consecutive entries, indices stay
  below \<open>2 ^ 63\<close> and terms below \<open>2 ^ 64 - 1\<close>; and a heartbeat finds no next index beyond the log, where the
  process panics.
\<close>

fun legal :: "operation \<Rightarrow> raft \<Rightarrow> bool" where
  "legal (Entries a) r = (contiguous (unat (aea_PrevLogIndex a)) (aea_Entries a)
     \<and> unat (aea_PrevLogIndex a) + length (aea_Entries a) < 2 ^ 63)"
| "legal (Install i) r = (case DecodeSnapshot (isa_Data i) of Inl _ \<Rightarrow> True | Inr s \<Rightarrow> unat (LastIncludedIndex s) < 2 ^ 63)"
| "legal (Write d) r = (lastIndex r + 1 < 2 ^ 63)"
| "legal (Run (Timer ss)) r = (unat (currentTerm r) + 1 < 2 ^ 64)"
| "legal (Run (VoteAnswer st ss votes maj reply)) r = (lastIndex r + 1 < 2 ^ 63)"
| "legal (Run (Beat g)) r = (\<not> isl (heartBeatTick r g))"
| "legal op r = True"

fun all_legal :: "operation list \<Rightarrow> raft \<Rightarrow> bool" where
  "all_legal [] r = True"
| "all_legal (op # ops) r = (legal op r \<and> all_legal ops (perform op r))"

subsection \<open>Serving as a run of the node\<close>

lemma HasPrefix_iff: "HasPrefix s p \<longleftrightarrow> (\<exists>k. s = p @ k)"
  by (metis HasPrefix_def append_eq_conv_conj)

lemma TrimPrefix_append [simp]: "TrimPrefix (p @ k) p = k"
  by (simp add: TrimPrefix_def HasPrefix_def)

lemma handleConnection_ignores:
  assumes "asks (Peer c) Nothing"
  shows "handleConnection c r = Inr (c, r)"
  using assms
proof (cases rule: asks.cases)
  case (torn bs t lost)
  then obtain e where "readMessage (incoming c) = Inl e"
    using framec.dec_torn [of "(t, bs)" "incoming c" lost] by auto
  then show ?thesis by (simp add: handleConnection_def)
next
  case (malformed_entries bs failed)
  then have "failed \<noteq> Panic" using DecodeAppendEntriesArgs_no_panic by auto
  then show ?thesis using malformed_entries by (cases failed) (simp_all add: handleConnection_def readMessage_frame msg_defs)
qed (auto simp: handleConnection_def readMessage_frame msg_defs)

lemma peer_served:
  assumes "asks (Peer c) op"
  shows "\<exists>c'. handleConnection c r = Inr (c', perform op r) \<and> told errText op r (Answered c')"
  using assms
proof (cases rule: asks.cases)
  case (vote v bs)
  then show ?thesis using voteRpc.server [OF _ _ surjective_pairing, of v bs c r] by (simp add: vote_args_ok_def) blast
next
  case (entries a bs)
  then show ?thesis using appendRpc.server [OF _ _ surjective_pairing, of a bs c r] by simp blast
next
  case (install i bs)
  then show ?thesis using snapRpc.server [OF _ _ surjective_pairing, of i bs c r] by simp blast
qed (use handleConnection_ignores assms in auto)

lemma write_served:
  "\<exists>resp. serveHttp errText ''/set'' True r q = (resp, snd (Propose r (set_command (query_get q (lit ''key'')) (query_get q (lit ''value'')))))
     \<and> told errText (Write (set_command (query_get q (lit ''key'')) (query_get q (lit ''value'')))) r (Responded resp)"
  by (cases "Propose r (set_command (query_get q (lit ''key'')) (query_get q (lit ''value'')))")
    (auto simp: serveHttp_def HandleSet_def set_command_def Let_def index_text_def status_defs split: sum.splits)

lemma read_served:
  "serveHttp errText ''/get'' l r q = (HandleGet r q, r)"
  "told errText (Read (query_get q (lit ''key''))) r (Responded (HandleGet r q))"
  by (auto simp: serveHttp_def HandleGet_def Raft_Get_def status_defs split: option.splits)

lemma line_served:
  assumes "asks (Stdin line) op"
  shows "\<exists>out. stdinLine errText r line = (out, perform op r) \<and> told errText op r (Printed out)"
  using assms
proof (cases rule: asks.cases)
  case (get_line k)
  have "HasPrefix (lit ''get '' @ k) (lit ''get '')" "TrimPrefix (lit ''get '' @ k) (lit ''get '') = k"
    by (auto simp: HasPrefix_iff) (rule TrimPrefix_append [of "lit ''get ''", simplified])
  then show ?thesis
    unfolding get_line stdinLine_def by (simp add: Raft_Get_def Let_def split: option.splits)
next
  case command_line
  then show ?thesis
    by (cases "Propose r line") (auto simp: stdinLine_def HasPrefix_iff index_text_def split: sum.splits)
qed (simp_all add: stdinLine_def)

lemma task_served: "legal (Run t) r \<Longrightarrow> \<exists>x. runTask t r = Inr (x, turn_taken t r)"
proof (cases t)
  case (Beat g)
  then show "legal (Run t) r \<Longrightarrow> ?thesis" by (cases "heartBeatTick r g") auto
qed (simp_all add: split_def Let_def)

lemma serveInput_asked:
  assumes "asks i op" and "legal op r"
  shows "\<exists>x. serveInput errText i r = Inr (x, perform op r) \<and> told errText op r x"
proof (cases i)
  case (Peer c)
  then show ?thesis using peer_served [of c op r errText] assms(1) by auto
next
  case (Stdin line)
  then show ?thesis using line_served [of line op errText r] assms(1) by auto
next
  case (Task t)
  then have op: "op = Run t" using assms(1) by (auto elim: asks.cases)
  then show ?thesis using task_served [of t r] assms(2) Task by auto
next
  case (Http urlPath l q)
  have "asks (Http urlPath l q) op" using assms(1) Http by simp
  then show ?thesis
  proof (cases rule: asks.cases)
    case set
    define d where "d = set_command (query_get q (lit ''key'')) (query_get q (lit ''value''))"
    obtain resp where "serveHttp errText ''/set'' True r q = (resp, snd (Propose r d))" "told errText (Write d) r (Responded resp)"
      using write_served unfolding d_def by blast
    then show ?thesis using set unfolding Http d_def [symmetric] by auto
  next
    case get
    then show ?thesis using read_served(1) [of errText l r q] read_served(2) [of errText q r] unfolding Http by auto
  qed (auto simp: Http serveHttp_def HandleSet_def LeaderID_def status_defs)
qed

lemma node_run_trans: "node_run q fs r \<Longrightarrow> node_run p evs q \<Longrightarrow> node_run p (evs @ fs) r"
proof (induction rule: node_run.induct)
  case (step r evs' r' ev r'')
  then show ?case using node_run.step [of p "evs @ evs'" r' ev r''] by simp
qed simp

lemma node_run_one: "node_step r ev r' \<Longrightarrow> \<exists>evs. node_run r evs r'"
  using node_run.step [OF node_run.start] by blast

lemma turn_run: "legal (Run t) r \<Longrightarrow> \<exists>evs. node_run r evs (turn_taken t r)"
  by (cases t) (auto intro: node_run.start node_run_one [OF node_step.timeout] node_run_one [OF node_step.vote_reply]
      node_run_one [OF node_step.superseded] node_run_one [OF node_step.outcome]
      node_run_one [OF node_step.snapshot_args] node_run_one [OF node_step.snapshot_reply])

lemma perform_run: "legal op r \<Longrightarrow> \<exists>evs. node_run r evs (perform op r)"
proof (cases op)
  case (Vote v)
  then show ?thesis using node_run_one [OF node_step.vote [OF surjective_pairing]] by simp
next
  case (Entries a)
  then show "legal op r \<Longrightarrow> ?thesis" by (auto intro: node_run_one [OF node_step.append])
next
  case (Install i)
  then show "legal op r \<Longrightarrow> ?thesis" by (auto intro!: node_run_one [OF node_step.install])
next
  case (Write d)
  then show "legal op r \<Longrightarrow> ?thesis" by (auto intro: node_run_one [OF node_step.propose])
next
  case (Run t)
  then show "legal op r \<Longrightarrow> ?thesis" using turn_run by simp
qed (auto intro: node_run.start)

lemma serveInputs_asked:
  "list_all2 asks is ops \<Longrightarrow> all_legal ops r \<Longrightarrow>
     (\<exists>xs. serveInputs errText is r = Inr (xs, performs ops r) \<and> told_all errText ops r xs)
   \<and> (\<exists>evs. node_run r evs (performs ops r))"
proof (induction arbitrary: r rule: list_all2_induct)
  case Nil
  then show ?case using node_run.start by auto
next
  case (Cons i "is" op ops)
  let ?q = "perform op r"
  obtain x where x: "serveInput errText i r = Inr (x, ?q)" "told errText op r x"
    using serveInput_asked [OF Cons.hyps(1)] Cons.prems by auto
  obtain evs where evs: "node_run r evs ?q" using perform_run Cons.prems by fastforce
  obtain xs fs where "serveInputs errText is ?q = Inr (xs, performs ops ?q)" "told_all errText ops ?q xs" "node_run ?q fs (performs ops ?q)"
    using Cons.IH [of ?q] Cons.prems by auto
  then show ?case using x node_run_trans [OF _ evs] by auto
qed

subsection \<open>Start up\<close>

lemma Start_wf [simp]: "node_wf (Start r) = node_wf r"
  by (auto simp: Start_def node_wf_def log_wf_def)

lemma Start_durable [simp]: "durable (Start r) = durable r"
proof -
  have "log_between (Start r) a b = log_between r a b" for a b
    by (rule log_between_eqI) (simp add: Start_def entryAt_def toSlicePos_def Let_def)
  then show ?thesis by (simp add: durable_def own_files_def wal_sync_def disk_base_def lastIndex_def Start_def)
qed

lemma startNode_recovers:
  assumes wf: "node_wf r" and d: "durable r" and own: "path (rwal r) = walPath (node_id r)"
    and disk: "faults s = []" "files s = files (env r)"
  shows "\<exists>r' s' ms. startNode (node_id r) s rnd = (Inr r', s')
      \<and> rlog r' = rlog r \<and> logOffset r' = logOffset r \<and> unat (lastApplied r') = lastIndex r
      \<and> Get (stateMachine r') = Get (apply_all (stateMachine r) (log_between r (unat (lastApplied r)) (lastIndex r)))
      \<and> node_wf r' \<and> durable r' \<and> electionTimer r' = Some ms \<and> 150 \<le> ms \<and> ms < 300"
proof -
  let ?p = "walPath (node_id r)"
  let ?w = "\<lparr>path = ?p, wal_open = True\<rparr>" and ?s = "s\<lparr>files := (files s)(?p \<mapsto> content s ?p)\<rparr>"
  have op: "Open ?p s = (Inr ?w, ?s)" using disk(1) by (simp add: Open_def os_open_append_def next_fault_def)
  have f: "faults ?s = []" "content ?s (path ?w) = content (env r) (path ?w)"
    "files ?s (snapshotPath (node_id r)) = files (env r) (snapshotPath (node_id r))"
    using disk paths_distinct(1) [of "node_id r" "node_id r"] by (simp_all add: content_def)
  obtain r' s' where r': "NewRaft (node_id r) defaultPeers ?w NewStateMachine ?s rnd = (Inr r', s')"
    "rlog r' = rlog r" "logOffset r' = logOffset r" "unat (lastApplied r') = lastIndex r"
    "Get (stateMachine r') = Get (apply_all (stateMachine r) (log_between r (unat (lastApplied r)) (lastIndex r)))"
    "node_wf r'" "durable r'"
    using NewRaft_recovers [OF wf d f, of defaultPeers rnd] own by auto
  have st: "startNode (node_id r) s rnd = (Inr (Start r'), s')" using op r'(1) by (simp add: startNode_def)
  have "\<exists>ms. electionTimer (Start r') = Some ms \<and> 150 \<le> ms \<and> ms < 300"
    using resetElectionTimer_range [of r'] by (simp add: Start_def electionTimeoutMin_def electionTimeoutMax_def)
  moreover have "rlog (Start r') = rlog r'" "logOffset (Start r') = logOffset r'" "lastApplied (Start r') = lastApplied r'"
    "stateMachine (Start r') = stateMachine r'" by (simp_all add: Start_def)
  ultimately show ?thesis using st r' by auto
qed

subsection \<open>Client requests\<close>

lemma apply_last_Get:
  assumes e: "entryAt p i = Some e" and i: "commitIndex p = i" "lastApplied p < i"
    and c: "command e = Some (k, v)"
  shows "Get (stateMachine (applyCommitted p)) k = Some v"
proof -
  have n: "unat (lastApplied p) \<le> unat i - 1" "unat i - 1 \<le> unat i" "unat i - 1 + 1 = unat i"
    using i(2) by (auto simp: word_less_nat_alt)
  have "log_between p (unat i - 1) (unat i) = [e]"
    using e n(3) by (simp add: log_between_def List.map_filter_def)
  then have "stateMachine (applyCommitted p) = Apply (apply_all (stateMachine p) (log_between p (unat (lastApplied p)) (unat i - 1))) e"
    using i(1) log_between_append [OF n(1,2), of p] by (simp add: applyCommitted_eq apply_all_def)
  then show ?thesis using c by (simp add: Get_Apply)
qed

lemma HandleSet_ok:
  assumes "HandleSet errText isLeader r req = (resp, r')" and "status resp = StatusOK" and "node_wf r" and "lastIndex r + 1 < 2 ^ 63"
  shows "\<exists>i. body resp = lit (''proposed at index '' @ decimal (unat i)) \<and> unat i = lastIndex r + 1 \<and> rstate r = Leader
      \<and> entryAt r' i = Some \<lparr>Term = currentTerm r, Index = i,
           Data = set_command (query_get req (lit ''key'')) (query_get req (lit ''value''))\<rparr>"
proof -
  let ?d = "set_command (query_get req (lit ''key'')) (query_get req (lit ''value''))"
  have wf: "log_wf r" using assms(3) by (simp add: node_wf_def)
  obtain res q where p: "Propose r ?d = (res, q)" by fastforce
  then obtain i where i: "res = Inr i" "r' = q" "body resp = lit (''proposed at index '' @ decimal (unat i))"
    using assms(1,2) by (cases res; cases isLeader) (auto simp: HandleSet_def set_command_def status_defs Let_def)
  have l: "rstate r = Leader" using p i(1) by (auto simp: Propose_def split: if_splits)
  have "i = fst (lastLogIndexAndTerm r) + 1" "rlog r' = rlog r @ [\<lparr>Term = currentTerm r, Index = i, Data = ?d\<rparr>]" "logOffset r' = logOffset r"
    using p i(1,2) l by (auto simp: Propose_def Let_def split: prod.splits sum.splits)
  moreover from this have "unat i = lastIndex r + 1" using next_index [OF wf] by simp
  moreover from calculation have "log_wf r'" using log_wf_snoc [OF wf assms(4), of _ r'] by (metis entry.select_convs(2))
  ultimately have "entryAt r' i = Some \<lparr>Term = currentTerm r, Index = i, Data = ?d\<rparr>" "unat i = lastIndex r + 1"
    by (simp_all add: entryAt_iff)
  then show ?thesis using i(3) l by blast
qed

definition sample_set :: query where
  "sample_set = [(lit ''key'', lit ''x''), (lit ''value'', lit ''1'')]"

lemma sample_set_ok:
  "HandleSet (\<lambda>_. []) True (sample_node 1 Leader []) sample_set =
     (\<lparr>status = StatusOK, body = lit (''proposed at index '' @ decimal 1)\<rparr>, sample_proposed)"
  using sample_propose
  by (simp add: HandleSet_def sample_set_def query_get_def sample_command_def sample_node_def)

text \<open>A leader on its own files.\<close>

lemma sample_server:
  defines "r \<equiv> (sample_node 1 Leader [])\<lparr>rwal := \<lparr>path = walPath 1, wal_open = True\<rparr>\<rparr>"
  shows "node_wf r" "durable r" "path (rwal r) = walPath (node_id r)" "node_id r = 1" "lastIndex r = 0" "env r = quiet_os"
    "rlog r = []"
  by (simp_all add: r_def durable_def own_files_def wal_sync_def wal_clean_def wal_entries_Nil disk_base_def Let_def lastIndex_def
        sample_node_def content_def paths_distinct apply_all_def node_wf_def log_wf_def)

text \<open>Inputs of all kinds, and what they ask for.\<close>

definition sample_inputs :: "input list" where
  "sample_inputs = [Http ''/set'' True sample_set, Task (Timer Leader), Http ''/get'' False [(lit ''key'', lit ''x'')],
     Stdin [], Peer (accepted [] [9])]"

definition sample_ops :: "operation list" where
  "sample_ops = [Write sample_command, Run (Timer Leader), Read (lit ''x''), Nothing, Nothing]"

lemma sample_asks: "list_all2 asks sample_inputs sample_ops"
proof -
  have "query_get sample_set (lit ''key'') = lit ''x''" "query_get sample_set (lit ''value'') = lit ''1''"
    "query_get [(lit ''key'', lit ''x'')] (lit ''key'') = lit ''x''"
    by (simp_all add: sample_set_def query_get_def)
  then have "asks (Http ''/set'' True sample_set) (Write sample_command)"
    "asks (Http ''/get'' False [(lit ''key'', lit ''x'')]) (Read (lit ''x''))"
    using asks.set [of sample_set] asks.get [of False "[(lit ''key'', lit ''x'')]"]
    by (simp_all add: sample_command_def set_command_def)
  moreover have "asks (Peer (accepted [] [9])) Nothing"
  proof (rule asks.torn [where t = 9 and bs = "[]" and lost = "PutUint32 0"])
    have "length (PutUint32 0) = 4" by simp
    then show "PutUint32 0 \<noteq> []" by force
  qed (simp_all add: message_def)
  ultimately show ?thesis
    unfolding sample_inputs_def sample_ops_def by (intro list_all2_Cons [THEN iffD2] conjI asks.turn asks.empty_line) simp_all
qed

lemma sample_legal: "all_legal sample_ops (sample_node 1 Leader [])" "performs sample_ops (sample_node 1 Leader []) = sample_proposed"
proof -
  have "snd (Propose (sample_node 1 Leader []) sample_command) = sample_proposed" by (simp add: sample_proposed_def)
  moreover have "currentTerm sample_proposed = 1"
    by (simp add: sample_proposed_def Propose_def sample_node_def Let_def split: prod.splits sum.splits)
  ultimately show "all_legal sample_ops (sample_node 1 Leader [])" "performs sample_ops (sample_node 1 Leader []) = sample_proposed"
    by (simp_all add: sample_ops_def electionTimeout_def lastIndex_def sample_node_def)
qed

end
