(* ===== verification/Cluster.thy ===== *)
theory Cluster
  imports Raft_Quorum
begin

text \<open>
  A cluster of nodes: timers fire, vote requests and answers travel, get lost or overtake each other, nodes
  restart, and nodes do anything else in between. Steps of the nodes are those of \<^verbatim>\<open>raft/raft.go\<close>; the calls of
  an election are those \<^verbatim>\<open>requestVotes\<close> starts. Three kinds of steps are recorded as lapses: a restart, which
  forgets the vote; stepping down on an answer that is out of date; and counting a vote in another term than it
  was given in. Shown is that without lapses there is at most one leader per term, and that the last kind alone
  gives a cluster of three two leaders in one term.
\<close>

subsection \<open>Identity of a node\<close>

text \<open>No step changes the number of a node or its peers.\<close>

definition same_node :: "raft \<Rightarrow> raft \<Rightarrow> bool" where
  "same_node r r' \<longleftrightarrow> node_id r' = node_id r \<and> peers r' = peers r"

lemma finishAppend_identity [simp]: "node_id (finishAppend c r) = node_id r" "peers (finishAppend c r) = peers r"
  by (simp_all add: finishAppend_def updateCommit_def Let_def frame_simps applyCommitted_eq)

lemma HandleAppendEntries_identity: "same_node r (snd (HandleAppendEntries r args))"
proof -
  obtain reply r' where eq: "HandleAppendEntries r args = (reply, r')" by fastforce
  have scan: "same_node q r1" if "scanEntries 0 0 es q = (x, r1)" for es q x r1
    using scanEntries_upd [OF that] by (auto simp: same_node_def)
  have "same_node r r'"
    using eq
  proof (cases rule: HandleAppendEntries_cases [case_names stale mismatch truncate_error gap append])
    case (append ra f r1 res s)
    then show ?thesis using scan [OF append(4)] by (cases "isl res") (auto simp: same_node_def)
  qed (auto dest: scan simp: same_node_def)
  then show ?thesis by (simp add: eq)
qed

lemma tryAdvance_identity [simp]:
  "node_id (tryAdvanceCommitIndex r) = node_id r" "peers (tryAdvanceCommitIndex r) = peers r"
  by (auto simp: tryAdvanceCommitIndex_def Let_def frame_simps applyCommitted_eq split: option.splits)

lemma node_step_identity: "node_step r ev r' \<Longrightarrow> same_node r r'"
proof (induction rule: node_step.induct)
  case (vote r args reply r')
  then show ?case by (auto simp: HandleRequestVote_def Let_def same_node_def split: if_splits)
next
  case (append args r)
  show ?case by (rule HandleAppendEntries_identity)
next
  case (install args r)
  show ?case by (auto simp: HandleInstallSnapshot_def Let_def same_node_def split: sum.splits prod.splits)
next
  case (timeout r ss)
  show ?case by (simp add: electionTimeout_def becomeCandidate_def Let_def same_node_def)
next
  case (vote_reply r st reply ss votes maj)
  show ?case using becomeLeader_index(5,6) [of r]
    by (cases "becomeLeader r") (auto simp: voteReply_def Let_def same_node_def)
next
  case (superseded r t reply)
  show ?case by (simp add: heartBeatSuperseded_def same_node_def)
next
  case (outcome r p d reply)
  show ?case by (simp add: heartBeatOutcome_def Let_def same_node_def)
next
  case (propose r d)
  show ?case by (auto simp: Propose_def Let_def same_node_def split: prod.splits sum.splits)
next
  case (snapshot_args r t l)
  show ?case using sendSnapshotArgs_env [of r t l] by (auto simp: same_node_def)
next
  case (snapshot_reply r p i reply)
  show ?case by (simp add: sendSnapshotReply_def same_node_def)
qed

subsection \<open>Elections in a cluster\<close>

text \<open>
  One election: what the goroutines of a call of \<^verbatim>\<open>requestVotes\<close> share, the calls that have not reached
  their peer yet and the answers that have not been looked at yet.
\<close>

record election =
  el_node :: u64
  el_term :: u64
  el_votes :: nat
  el_maj :: nat
  el_calls :: "(u64 \<times> RequestVoteArgs) list"
  el_replies :: "(u64 \<times> RequestVoteReply) list"

text \<open>
  A cluster: its nodes, all elections, and what happened so far: who voted for whom in which term, who
  became leader in which term, and the lapses.
\<close>

datatype lapse = Restarted u64 | LateStepDown u64 | StaleVote u64

record cluster =
  cl_nodes :: "u64 \<Rightarrow> raft"
  cl_elections :: "election list"
  cl_votes :: "(u64 \<times> u64 \<times> u64) set"
  cl_leaders :: "(u64 \<times> u64) set"
  cl_lapses :: "lapse set"

definition start_election :: "raft \<Rightarrow> (u64 \<times> gostring \<times> RequestVoteArgs) list \<Rightarrow> election" where
  "start_election r calls =
     \<lparr>el_node = node_id r, el_term = currentTerm r, el_votes = 1, el_maj = majority r,
      el_calls = map (\<lambda>(p, addr, args). (p, args)) calls, el_replies = []\<rparr>"

fun cast :: "u64 \<Rightarrow> event \<Rightarrow> (u64 \<times> u64 \<times> u64) set \<Rightarrow> (u64 \<times> u64 \<times> u64) set" where
  "cast n (Voted t c) V = insert (n, t, c) V"
| "cast n LateReply V = V"
| "cast n Silent V = V"

fun note_late :: "u64 \<Rightarrow> event \<Rightarrow> lapse set \<Rightarrow> lapse set" where
  "note_late n LateReply L = insert (LateStepDown n) L"
| "note_late n (Voted t c) L = L"
| "note_late n Silent L = L"

text \<open>What the candidate \<open>q\<close> of election \<open>e\<close>, having read the term \<open>st\<close>, does out of date with an answer.\<close>

definition count_lapses :: "u64 \<Rightarrow> raft \<Rightarrow> election \<Rightarrow> RequestVoteReply \<Rightarrow> lapse set" where
  "count_lapses st q e reply =
     (if st < rvr_Term reply then (if rvr_Term reply \<le> currentTerm q then {LateStepDown (el_node e)} else {})
      else if rvr_VoteGranted reply \<and> currentTerm q \<noteq> el_term e then {StaleVote (el_node e)} else {})"

text \<open>
  The steps of a cluster: a timer fires and starts an election; a call reaches its peer; a call or an
  answer gets lost; an answer is looked at, with any earlier reading \<open>st\<close> of the term and \<open>ss\<close> of the state; a node
  restarts on some disk; and any other step of a node. Becoming leader moves \<^verbatim>\<open>leaderGeneration\<close> on, and
  only looking at an answer does.
\<close>

inductive cluster_step :: "cluster \<Rightarrow> cluster \<Rightarrow> bool" where
  fire: "n \<in> fst ` set (peers (cl_nodes c n)) \<Longrightarrow>
     unat (currentTerm (cl_nodes c n)) + 1 < 2 ^ 64 \<Longrightarrow> becomeCandidate (cl_nodes c n) = (r, calls) \<Longrightarrow>
     cluster_step c (c\<lparr>cl_nodes := (cl_nodes c)(n := r), cl_elections := cl_elections c @ [start_election r calls],
       cl_votes := cast n (Voted (currentTerm r) n) (cl_votes c)\<rparr>)"
| deliver: "k < length (cl_elections c) \<Longrightarrow> cl_elections c ! k = e \<Longrightarrow> el_calls e = xs @ (p, args) # ys \<Longrightarrow>
     HandleRequestVote (cl_nodes c p) args = (reply, r) \<Longrightarrow>
     cluster_step c (c\<lparr>cl_nodes := (cl_nodes c)(p := r),
       cl_elections := (cl_elections c)[k := e\<lparr>el_calls := xs @ ys, el_replies := (p, reply) # el_replies e\<rparr>],
       cl_votes := cast p (if rvr_VoteGranted reply then Voted (rva_Term args) (rva_CandidateID args) else Silent) (cl_votes c)\<rparr>)"
| lose_call: "k < length (cl_elections c) \<Longrightarrow> cl_elections c ! k = e \<Longrightarrow> el_calls e = xs @ x # ys \<Longrightarrow>
     cluster_step c (c\<lparr>cl_elections := (cl_elections c)[k := e\<lparr>el_calls := xs @ ys\<rparr>]\<rparr>)"
| lose_reply: "k < length (cl_elections c) \<Longrightarrow> cl_elections c ! k = e \<Longrightarrow> el_replies e = xs @ x # ys \<Longrightarrow>
     cluster_step c (c\<lparr>cl_elections := (cl_elections c)[k := e\<lparr>el_replies := xs @ ys\<rparr>]\<rparr>)"
| count: "k < length (cl_elections c) \<Longrightarrow> cl_elections c ! k = e \<Longrightarrow> el_replies e = xs @ (p, reply) # ys \<Longrightarrow>
     cl_nodes c (el_node e) = q \<Longrightarrow> lastIndex q + 1 < 2 ^ 63 \<Longrightarrow>
     voteReply st ss q (el_votes e) (el_maj e) reply = (r, v, started) \<Longrightarrow>
     cluster_step c (c\<lparr>cl_nodes := (cl_nodes c)(el_node e := r),
       cl_elections := (cl_elections c)[k := e\<lparr>el_votes := v, el_replies := xs @ ys\<rparr>],
       cl_leaders := (if leaderGeneration r \<noteq> leaderGeneration q
                      then insert (el_node e, currentTerm r) (cl_leaders c) else cl_leaders c),
       cl_lapses := count_lapses st q e reply \<union> cl_lapses c\<rparr>)"
| restart: "NewRaft n (peers (cl_nodes c n)) w sm s rnd = (Inr r, s') \<Longrightarrow>
     cluster_step c (c\<lparr>cl_nodes := (cl_nodes c)(n := r), cl_lapses := insert (Restarted n) (cl_lapses c)\<rparr>)"
| other: "node_step (cl_nodes c n) ev r \<Longrightarrow> leaderGeneration r = leaderGeneration (cl_nodes c n) \<Longrightarrow>
     cluster_step c (c\<lparr>cl_nodes := (cl_nodes c)(n := r), cl_votes := cast n ev (cl_votes c),
       cl_lapses := note_late n ev (cl_lapses c)\<rparr>)"

definition cluster_start :: "(u64, gostring) gomap \<Rightarrow> cluster \<Rightarrow> bool" where
  "cluster_start ps c \<longleftrightarrow> distinct (map fst ps) \<and> (\<forall>n. node_id (cl_nodes c n) = n \<and> peers (cl_nodes c n) = ps)
     \<and> cl_elections c = [] \<and> cl_votes c = {} \<and> cl_leaders c = {} \<and> cl_lapses c = {}"

inductive cluster_run :: "cluster \<Rightarrow> cluster \<Rightarrow> bool" where
  begin_run: "cluster_run c c"
| next_step: "cluster_run c d \<Longrightarrow> cluster_step d e \<Longrightarrow> cluster_run c e"

subsection \<open>Invariants\<close>

definition votes_ok :: "(u64 \<Rightarrow> raft) \<Rightarrow> (u64 \<times> u64 \<times> u64) set \<Rightarrow> bool" where
  "votes_ok N V \<longleftrightarrow>
     (\<forall>n t x. (n, t, x) \<in> V \<longrightarrow> t \<le> currentTerm (N n) \<and> (t = currentTerm (N n) \<longrightarrow> votedFor (N n) = Some x))
   \<and> (\<forall>n t x y. (n, t, x) \<in> V \<longrightarrow> (n, t, y) \<in> V \<longrightarrow> x = y)"

lemma votes_ok_step:
  assumes ok: "votes_ok N V" and step: "node_step (N n) ev r" "ev \<noteq> LateReply"
  shows "votes_ok (N(n := r)) (cast n ev V)"
proof -
  have k: "votes_kept (N n) r" and new: "\<And>t c. ev = Voted t c \<Longrightarrow> currentTerm r = t \<and> votedFor r = Some c"
    using node_step_votes [OF step] by auto
  have old: "t \<le> currentTerm ((N(n := r)) m) \<and> (t = currentTerm ((N(n := r)) m) \<longrightarrow> votedFor ((N(n := r)) m) = Some x)"
    if "(m, t, x) \<in> V" for m t x
  proof -
    have "t \<le> currentTerm (N m) \<and> (t = currentTerm (N m) \<longrightarrow> votedFor (N m) = Some x)"
      using ok that unfolding votes_ok_def by blast
    then show ?thesis using k by (cases "m = n") (auto simp: votes_kept_def)
  qed
  have uniq: "\<And>m t x y. (m, t, x) \<in> V \<Longrightarrow> (m, t, y) \<in> V \<Longrightarrow> x = y" using ok unfolding votes_ok_def by blast
  show ?thesis
  proof (cases ev)
    case (Voted t c)
    then have r: "currentTerm r = t" "votedFor r = Some c" using new by auto
    have only: "x = c" if "(n, t, x) \<in> V" for x using old [OF that] r by simp
    have "s \<le> currentTerm ((N(n := r)) m) \<and> (s = currentTerm ((N(n := r)) m) \<longrightarrow> votedFor ((N(n := r)) m) = Some x)"
      if "(m, s, x) \<in> insert (n, t, c) V" for m s x
      using that
    proof
      assume "(m, s, x) = (n, t, c)"
      then show ?thesis using r by simp
    qed (rule old)
    moreover have "x = y" if "(m, s, x) \<in> insert (n, t, c) V" "(m, s, y) \<in> insert (n, t, c) V" for m s x y
      using that only uniq [of m s x y] by auto
    ultimately show ?thesis unfolding votes_ok_def Voted cast.simps by blast
  qed (use step(2) old uniq in \<open>auto simp: votes_ok_def\<close>)
qed

definition peer_ids :: "(u64, gostring) gomap \<Rightarrow> u64 set" where
  "peer_ids ps = fst ` set ps"

text \<open>The peers an election has not heard of yet.\<close>

definition open_peers :: "election \<Rightarrow> u64 list" where
  "open_peers e = map fst (el_calls e) @ map fst (el_replies e)"

definition election_ok :: "(u64, gostring) gomap \<Rightarrow> (u64 \<times> u64 \<times> u64) set \<Rightarrow> election \<Rightarrow> bool" where
  "election_ok ps V e \<longleftrightarrow> el_node e \<in> peer_ids ps \<and> el_maj e = length ps div 2 + 1
     \<and> distinct (open_peers e)
     \<and> (\<forall>(p, args)\<in>set (el_calls e). p \<in> peer_ids ps \<and> rva_Term args = el_term e \<and> rva_CandidateID args = el_node e)
     \<and> (\<forall>(p, reply)\<in>set (el_replies e). p \<in> peer_ids ps \<and> (rvr_VoteGranted reply \<longrightarrow> (p, el_term e, el_node e) \<in> V))
     \<and> (\<exists>G. G \<subseteq> peer_ids ps \<and> el_votes e = card G \<and> G \<inter> set (open_peers e) = {}
          \<and> (\<forall>p\<in>G. (p, el_term e, el_node e) \<in> V))"

text \<open>A majority voted for the node in the term.\<close>

definition elected :: "(u64, gostring) gomap \<Rightarrow> (u64 \<times> u64 \<times> u64) set \<Rightarrow> u64 \<Rightarrow> u64 \<Rightarrow> bool" where
  "elected ps V n t \<longleftrightarrow> (\<exists>G. G \<subseteq> peer_ids ps \<and> length ps div 2 + 1 \<le> card G \<and> (\<forall>p\<in>G. (p, t, n) \<in> V))"

definition cluster_inv :: "(u64, gostring) gomap \<Rightarrow> cluster \<Rightarrow> bool" where
  "cluster_inv ps c \<longleftrightarrow> distinct (map fst ps) \<and> (\<forall>n. node_id (cl_nodes c n) = n \<and> peers (cl_nodes c n) = ps)
     \<and> votes_ok (cl_nodes c) (cl_votes c) \<and> list_all (election_ok ps (cl_votes c)) (cl_elections c)
     \<and> (\<forall>(n, t)\<in>cl_leaders c. elected ps (cl_votes c) n t)"

lemma cast_mono: "V \<subseteq> cast n ev V"
  by (cases ev) auto

lemma election_ok_mono: "election_ok ps V e \<Longrightarrow> V \<subseteq> W \<Longrightarrow> election_ok ps W e"
  unfolding election_ok_def by (fastforce)

lemma elected_mono: "elected ps V n t \<Longrightarrow> V \<subseteq> W \<Longrightarrow> elected ps W n t"
  unfolding elected_def by blast

lemma election_okE:
  assumes "election_ok ps V e"
  obtains G where "G \<subseteq> peer_ids ps" "el_votes e = card G" "G \<inter> set (open_peers e) = {}"
    "\<forall>p\<in>G. (p, el_term e, el_node e) \<in> V"
  using assms unfolding election_ok_def by blast

lemma start_election_ok:
  assumes "becomeCandidate q = (r, calls)" and "peers q = ps" and "distinct (map fst ps)" and "node_id q \<in> peer_ids ps"
    and "(node_id q, currentTerm r, node_id q) \<in> V"
  shows "election_ok ps V (start_election r calls)"
proof -
  let ?e = "start_election r calls"
  have r: "node_id r = node_id q" "peers r = ps" "calls = requestVotes r"
    using assms(1,2) by (auto simp: becomeCandidate_def Let_def)
  have op: "open_peers ?e = map fst (filter (\<lambda>(p, a). p \<noteq> node_id q) ps)"
    using r by (auto simp: open_peers_def start_election_def requestVotes_def Let_def split_def comp_def split: if_splits)
  have "distinct (open_peers ?e)" unfolding op using assms(3) by (rule distinct_map_filter)
  moreover have "\<forall>(p, args)\<in>set (el_calls ?e). p \<in> peer_ids ps \<and> rva_Term args = el_term ?e \<and> rva_CandidateID args = el_node ?e"
    using r by (auto simp: start_election_def requestVotes_def Let_def peer_ids_def split: if_splits) force+
  moreover have "{node_id q} \<inter> set (open_peers ?e) = {}" unfolding op by auto
  moreover have "el_node ?e = node_id q" "el_term ?e = currentTerm r" "el_votes ?e = 1" "el_replies ?e = []"
    "el_maj ?e = length ps div 2 + 1"
    using r by (simp_all add: start_election_def majority_def)
  ultimately show ?thesis
    using assms(4,5) unfolding election_ok_def by (intro conjI exI [of _ "{node_id q}"]) simp_all
qed

lemma deliver_election_ok:
  assumes ok: "election_ok ps V e" and calls: "el_calls e = xs @ (p, args) # ys"
    and h: "HandleRequestVote q args = (reply, r)"
  shows "election_ok ps (cast p (if rvr_VoteGranted reply then Voted (rva_Term args) (rva_CandidateID args) else Silent) V)
     (e\<lparr>el_calls := xs @ ys, el_replies := (p, reply) # el_replies e\<rparr>)"
proof -
  let ?e = "e\<lparr>el_calls := xs @ ys, el_replies := (p, reply) # el_replies e\<rparr>"
  let ?V = "cast p (if rvr_VoteGranted reply then Voted (rva_Term args) (rva_CandidateID args) else Silent) V"
  have ok': "election_ok ps ?V e" using ok cast_mono by (rule election_ok_mono)
  have p: "p \<in> peer_ids ps" "rva_Term args = el_term e" "rva_CandidateID args = el_node e"
    using ok calls by (simp_all add: election_ok_def)
  have "set (open_peers ?e) = set (open_peers e)" "distinct (open_peers ?e) = distinct (open_peers e)"
    using calls by (auto simp: open_peers_def)
  moreover have "rvr_VoteGranted reply \<longrightarrow> (p, el_term e, el_node e) \<in> ?V" using p by simp
  ultimately show ?thesis using ok' calls p unfolding election_ok_def by simp
qed

lemma lose_election_ok:
  assumes ok: "election_ok ps V e" and "el_calls e = xs @ zs @ ys" and "el_replies e = us @ vs @ ws"
  shows "election_ok ps V (e\<lparr>el_calls := xs @ ys, el_replies := us @ ws\<rparr>)"
proof -
  obtain G where G: "G \<subseteq> peer_ids ps" "el_votes e = card G" "G \<inter> set (open_peers e) = {}"
    "\<forall>p\<in>G. (p, el_term e, el_node e) \<in> V" using ok by (rule election_okE)
  have "G \<inter> set (open_peers (e\<lparr>el_calls := xs @ ys, el_replies := us @ ws\<rparr>)) = {}"
    using G(3) assms(2,3) by (auto simp: open_peers_def)
  moreover have "distinct (open_peers (e\<lparr>el_calls := xs @ ys, el_replies := us @ ws\<rparr>))"
    using ok assms(2,3) by (auto simp: election_ok_def open_peers_def)
  ultimately show ?thesis using ok G(1,2,4) assms(2,3)
    unfolding election_ok_def by (intro conjI exI [of _ G]) (simp_all add: ball_Un)
qed

lemma count_election_ok:
  assumes ok: "election_ok ps V e" and "el_replies e = xs @ (p, reply) # ys"
    and "voteReply st ss q (el_votes e) (el_maj e) reply = (r, v, started)"
  shows "election_ok ps V (e\<lparr>el_votes := v, el_replies := xs @ ys\<rparr>)"
    and "leaderGeneration r \<noteq> leaderGeneration q \<Longrightarrow> rvr_VoteGranted reply \<and> \<not> st < rvr_Term reply \<and> currentTerm r = currentTerm q
      \<and> elected ps V (el_node e) (el_term e)"
proof -
  obtain G where G: "G \<subseteq> peer_ids ps" "el_votes e = card G" "G \<inter> set (open_peers e) = {}"
    "\<forall>p\<in>G. (p, el_term e, el_node e) \<in> V" using ok by (rule election_okE)
  have fin: "finite G" using G(1) finite_subset by (fastforce simp: peer_ids_def)
  have p: "p \<in> peer_ids ps" "p \<notin> G" "rvr_VoteGranted reply \<longrightarrow> (p, el_term e, el_node e) \<in> V"
    using ok assms(2) G(3) by (auto simp: election_ok_def open_peers_def)
  have G': "insert p G \<subseteq> peer_ids ps" "card (insert p G) = el_votes e + 1" using G(1,2) p(1,2) fin by auto
  let ?e = "e\<lparr>el_votes := v, el_replies := xs @ ys\<rparr>"
  have op: "distinct (open_peers ?e)" "p \<notin> set (open_peers ?e)" "set (open_peers ?e) \<subseteq> set (open_peers e)"
    using ok assms(2) by (auto simp: election_ok_def open_peers_def)
  have "\<exists>H. H \<subseteq> peer_ids ps \<and> v = card H \<and> H \<inter> set (open_peers ?e) = {} \<and> (\<forall>p\<in>H. (p, el_term e, el_node e) \<in> V)"
  proof (cases "v = el_votes e")
    case True
    then show ?thesis using G op(3) by (intro exI [of _ G]) auto
  next
    case False
    then have "v = el_votes e + 1" "rvr_VoteGranted reply"
      using assms(3) by (auto simp: voteReply_def Let_def split: if_splits prod.splits)
    then show ?thesis using G G' p op by (intro exI [of _ "insert p G"]) auto
  qed
  then show "election_ok ps V ?e" using ok op(1) assms(2) unfolding election_ok_def by auto
  assume "leaderGeneration r \<noteq> leaderGeneration q"
  then have "rvr_VoteGranted reply" "\<not> st < rvr_Term reply" "el_maj e \<le> el_votes e + 1" "currentTerm r = currentTerm q"
    using assms(3) becomeLeader_fields(1) [of q]
    by (auto simp: voteReply_def Let_def split: if_splits prod.splits)
  then show "rvr_VoteGranted reply \<and> \<not> st < rvr_Term reply \<and> currentTerm r = currentTerm q
      \<and> elected ps V (el_node e) (el_term e)"
    unfolding elected_def using G G' p ok by (intro conjI exI [of _ "insert p G"]) (auto simp: election_ok_def)
qed

lemma list_all_update: "list_all P xs \<Longrightarrow> P x \<Longrightarrow> list_all P (xs[k := x])"
  by (auto simp: list_all_iff dest!: set_update_subset_insert [THEN subsetD])

lemma cluster_invI:
  assumes inv: "cluster_inv ps c" and step: "node_step (cl_nodes c n) ev r" "ev \<noteq> LateReply"
    and els: "list_all (election_ok ps (cast n ev (cl_votes c))) es"
    and ls: "\<forall>(m, t)\<in>L. (m, t) \<in> cl_leaders c \<or> elected ps (cast n ev (cl_votes c)) m t"
  shows "cluster_inv ps \<lparr>cl_nodes = (cl_nodes c)(n := r), cl_elections = es, cl_votes = cast n ev (cl_votes c),
     cl_leaders = L, cl_lapses = F\<rparr>"
proof -
  have "node_id r = n \<and> peers r = ps"
    using node_step_identity [OF step(1)] inv by (simp add: same_node_def cluster_inv_def)
  moreover have "votes_ok ((cl_nodes c)(n := r)) (cast n ev (cl_votes c))"
    using inv step by (intro votes_ok_step) (simp_all add: cluster_inv_def)
  moreover have "elected ps (cast n ev (cl_votes c)) m t" if "(m, t) \<in> L" for m t
    using ls that inv elected_mono [OF _ cast_mono] unfolding cluster_inv_def by blast
  ultimately show ?thesis using inv els by (auto simp: cluster_inv_def)
qed

lemma same_leaders: "\<forall>(m, t)\<in>L. (m, t) \<in> L \<or> elected ps V m t"
  by auto

lemma elections_mono:
  "list_all (election_ok ps V) es \<Longrightarrow> list_all (election_ok ps (cast n ev V)) es"
  using election_ok_mono [OF _ cast_mono] by (metis list_all_iff)

lemma fire_inv:
  assumes inv: "cluster_inv ps c" and n: "n \<in> fst ` set (peers (cl_nodes c n))" "unat (currentTerm (cl_nodes c n)) + 1 < 2 ^ 64"
    and bc: "becomeCandidate (cl_nodes c n) = (r, calls)"
  shows "cluster_inv ps (c\<lparr>cl_nodes := (cl_nodes c)(n := r), cl_elections := cl_elections c @ [start_election r calls],
       cl_votes := cast n (Voted (currentTerm r) n) (cl_votes c)\<rparr>)"
proof -
  let ?ev = "Voted (currentTerm r) n"
  have id: "node_id (cl_nodes c n) = n" "peers (cl_nodes c n) = ps" "distinct (map fst ps)" using inv by (simp_all add: cluster_inv_def)
  have r: "fst (electionTimeout Follower (cl_nodes c n)) = r" "currentTerm r = currentTerm (cl_nodes c n) + 1"
    using bc by (auto simp: electionTimeout_def becomeCandidate_def Let_def)
  have st: "node_step (cl_nodes c n) ?ev r" using node_step.timeout [OF n(2), of Follower] r id(1) by simp
  have "election_ok ps (cast n ?ev (cl_votes c)) (start_election r calls)"
    using n(1) id by (intro start_election_ok [OF bc]) (simp_all add: peer_ids_def)
  then have "list_all (election_ok ps (cast n ?ev (cl_votes c))) (cl_elections c @ [start_election r calls])"
    using inv elections_mono [of ps "cl_votes c" "cl_elections c" n ?ev] by (simp add: cluster_inv_def)
  from cluster_invI [OF inv st _ this same_leaders, of "cl_lapses c"] show ?thesis by (cases c) simp
qed

lemma count_inv:
  assumes inv: "cluster_inv ps c" and e: "k < length (cl_elections c)" "cl_elections c ! k = e"
    and rep: "el_replies e = xs @ (p, reply) # ys" and q: "cl_nodes c (el_node e) = q" "lastIndex q + 1 < 2 ^ 63"
    and v: "voteReply st ss q (el_votes e) (el_maj e) reply = (r, v, started)" and ok: "count_lapses st q e reply = {}"
  shows "cluster_inv ps (c\<lparr>cl_nodes := (cl_nodes c)(el_node e := r),
       cl_elections := (cl_elections c)[k := e\<lparr>el_votes := v, el_replies := xs @ ys\<rparr>],
       cl_leaders := (if leaderGeneration r \<noteq> leaderGeneration q
                      then insert (el_node e, currentTerm r) (cl_leaders c) else cl_leaders c),
       cl_lapses := count_lapses st q e reply \<union> cl_lapses c\<rparr>)"
proof -
  let ?ev = "if st < rvr_Term reply \<and> rvr_Term reply \<le> currentTerm q then LateReply else Silent"
  have els: "list_all (election_ok ps (cl_votes c)) (cl_elections c)" using inv by (simp add: cluster_inv_def)
  then have "election_ok ps (cl_votes c) e" using e by (auto simp: list_all_length)
  note el = count_election_ok [OF this rep v]
  have ev: "?ev = Silent" using ok by (auto simp: count_lapses_def split: if_splits)
  have st: "node_step (cl_nodes c (el_node e)) Silent r"
    using node_step.vote_reply [OF q(2), of st reply ss "el_votes e" "el_maj e"] v q(1) ev by simp
  let ?L = "if leaderGeneration r \<noteq> leaderGeneration q then insert (el_node e, currentTerm r) (cl_leaders c) else cl_leaders c"
  have "\<forall>(m, t)\<in>?L. (m, t) \<in> cl_leaders c \<or> elected ps (cast (el_node e) Silent (cl_votes c)) m t"
    using el(2) ok by (auto simp: count_lapses_def split: if_splits)
  from cluster_invI [OF inv st _ _ this, of "(cl_elections c)[k := e\<lparr>el_votes := v, el_replies := xs @ ys\<rparr>]"]
  show ?thesis using list_all_update [OF els el(1)] by (cases c) auto
qed

lemma elections_changed:
  assumes "cluster_inv ps c" and "k < length (cl_elections c)" "cl_elections c ! k = e"
    and "election_ok ps (cl_votes c) e \<Longrightarrow> election_ok ps (cl_votes c) e'"
  shows "cluster_inv ps (c\<lparr>cl_elections := (cl_elections c)[k := e']\<rparr>)"
proof -
  have els: "list_all (election_ok ps (cl_votes c)) (cl_elections c)" using assms(1) by (simp add: cluster_inv_def)
  then have "election_ok ps (cl_votes c) e" using assms(2,3) by (auto simp: list_all_length)
  then show ?thesis using assms(1) list_all_update [OF els assms(4)] by (simp add: cluster_inv_def)
qed

text \<open>A step that adds no lapse keeps the invariant.\<close>

lemma cluster_step_inv: "cluster_step c d \<Longrightarrow> cl_lapses d = {} \<Longrightarrow> cl_lapses c = {} \<and> (cluster_inv ps c \<longrightarrow> cluster_inv ps d)"
proof (induction rule: cluster_step.induct)
  case (fire n c r calls)
  then show ?case using fire_inv [OF _ fire.hyps] by simp
next
  case (deliver k c e xs p args ys reply r)
  have "cluster_inv ps (c\<lparr>cl_nodes := (cl_nodes c)(p := r),
       cl_elections := (cl_elections c)[k := e\<lparr>el_calls := xs @ ys, el_replies := (p, reply) # el_replies e\<rparr>],
       cl_votes := cast p (if rvr_VoteGranted reply then Voted (rva_Term args) (rva_CandidateID args) else Silent) (cl_votes c)\<rparr>)"
    if inv: "cluster_inv ps c"
  proof -
    have ok: "list_all (election_ok ps (cl_votes c)) (cl_elections c)" using inv by (simp add: cluster_inv_def)
    then have "election_ok ps (cl_votes c) e" using deliver.hyps(1,2) by (auto simp: list_all_length)
    note e = deliver_election_ok [OF this deliver.hyps(3,4)]
    from cluster_invI [OF inv node_step.vote [OF deliver.hyps(4)] _ list_all_update [OF elections_mono [OF ok] e] same_leaders, of k "cl_lapses c"]
    show ?thesis by (cases c) (simp split: if_splits)
  qed
  then show ?case using deliver.prems by simp
next
  case (lose_call k c e xs x ys)
  have "election_ok ps (cl_votes c) (e\<lparr>el_calls := xs @ ys\<rparr>)" if "election_ok ps (cl_votes c) e"
    using lose_election_ok [OF that, of xs "[x]" ys "el_replies e" "[]" "[]"] lose_call.hyps(3) by simp
  then show ?case using elections_changed [OF _ lose_call.hyps(1,2)] lose_call.prems by simp
next
  case (lose_reply k c e xs x ys)
  have "election_ok ps (cl_votes c) (e\<lparr>el_replies := xs @ ys\<rparr>)" if "election_ok ps (cl_votes c) e"
    using lose_election_ok [OF that, of "el_calls e" "[]" "[]" xs "[x]" ys] lose_reply.hyps(3) by simp
  then show ?case using elections_changed [OF _ lose_reply.hyps(1,2)] lose_reply.prems by simp
next
  case (count k c e xs p reply ys q st ss r v started)
  then show ?case using count_inv [OF _ count.hyps] by auto
next
  case (restart n c w sm s rnd r s')
  then show ?case by simp
next
  case (other c n ev r)
  then have ev: "ev \<noteq> LateReply" by auto
  have "cluster_inv ps (c\<lparr>cl_nodes := (cl_nodes c)(n := r), cl_votes := cast n ev (cl_votes c), cl_lapses := note_late n ev (cl_lapses c)\<rparr>)"
    if inv: "cluster_inv ps c"
  proof -
    have "list_all (election_ok ps (cast n ev (cl_votes c))) (cl_elections c)"
      using inv elections_mono by (simp add: cluster_inv_def)
    from cluster_invI [OF inv other.hyps(1) ev this same_leaders] show ?thesis by (cases c) simp
  qed
  note kept = this
  have late: "note_late n ev (cl_lapses c) = cl_lapses c" using ev by (cases ev) simp_all
  show ?case
  proof (intro conjI impI)
    show "cl_lapses c = {}" using other.prems late by simp
  qed (rule kept)
qed

lemma cluster_run_inv: "cluster_run c d \<Longrightarrow> cluster_start ps c \<Longrightarrow> cl_lapses d = {} \<Longrightarrow> cluster_inv ps d"
proof (induction rule: cluster_run.induct)
  case (begin_run c)
  then show ?case by (simp add: cluster_start_def cluster_inv_def votes_ok_def)
qed (blast dest: cluster_step_inv)

subsection \<open>Elections step by step\<close>

text \<open>A node with an empty log in a term; its votes and its role may be any.\<close>

definition empty_node :: "(u64, gostring) gomap \<Rightarrow> u64 \<Rightarrow> u64 \<Rightarrow> raft \<Rightarrow> bool" where
  "empty_node ps n t r \<longleftrightarrow> node_id r = n \<and> peers r = ps \<and> currentTerm r = t \<and> rlog r = [] \<and> logOffset r = 0"

definition empty_args :: "u64 \<Rightarrow> u64 \<Rightarrow> RequestVoteArgs" where
  "empty_args n t = \<lparr>rva_Term = t, rva_CandidateID = n, rva_LastLogIndex = 0, rva_LastLogTerm = 0\<rparr>"

lemma fire_step:
  assumes r: "empty_node ps n t (cl_nodes c n)" and n: "n \<in> fst ` set ps" "unat t + 1 < 2 ^ 64"
  obtains c' q where "cluster_step c c'" "cl_nodes c' = (cl_nodes c)(n := q)" "empty_node ps n (t + 1) q" "rstate q = Candidate"
    "cl_elections c' = cl_elections c @ [\<lparr>el_node = n, el_term = t + 1, el_votes = 1, el_maj = length ps div 2 + 1,
       el_calls = map (\<lambda>(p, addr). (p, empty_args n (t + 1))) (filter (\<lambda>(p, addr). p \<noteq> n) ps), el_replies = []\<rparr>]"
    "cl_leaders c' = cl_leaders c" "cl_lapses c' = cl_lapses c"
proof -
  obtain q calls where bc: "becomeCandidate (cl_nodes c n) = (q, calls)" by fastforce
  then have q: "empty_node ps n (t + 1) q" "rstate q = Candidate" "calls = requestVotes q"
    using r by (auto simp: becomeCandidate_def Let_def empty_node_def)
  have "cluster_step c (c\<lparr>cl_nodes := (cl_nodes c)(n := q), cl_elections := cl_elections c @ [start_election q calls],
       cl_votes := cast n (Voted (currentTerm q) n) (cl_votes c)\<rparr>)"
    using r n by (intro cluster_step.fire [OF _ _ bc]) (simp_all add: empty_node_def)
  moreover have "start_election q calls = \<lparr>el_node = n, el_term = t + 1, el_votes = 1, el_maj = length ps div 2 + 1,
       el_calls = map (\<lambda>(p, addr). (p, empty_args n (t + 1))) (filter (\<lambda>(p, addr). p \<noteq> n) ps), el_replies = []\<rparr>"
    using q by (simp add: start_election_def empty_node_def majority_def requestVotes_def empty_args_def Let_def split_def)
  ultimately show thesis using that q by fastforce
qed

lemma vote_step:
  assumes e: "k < length (cl_elections c)" "cl_elections c ! k = e" "el_calls e = xs @ (p, empty_args n t) # ys"
    and p: "empty_node ps p s (cl_nodes c p)" "s < t"
  obtains c' q where "cluster_step c c'" "cl_nodes c' = (cl_nodes c)(p := q)" "empty_node ps p t q"
    "cl_elections c' = (cl_elections c)[k := e\<lparr>el_calls := xs @ ys, el_replies := (p, \<lparr>rvr_Term = t, rvr_VoteGranted = True\<rparr>) # el_replies e\<rparr>]"
    "cl_leaders c' = cl_leaders c" "cl_lapses c' = cl_lapses c"
proof -
  define q where "q = snd (HandleRequestVote (cl_nodes c p) (empty_args n t))"
  have "\<not> t < s" using p(2) by simp
  then have h: "HandleRequestVote (cl_nodes c p) (empty_args n t) = (\<lparr>rvr_Term = t, rvr_VoteGranted = True\<rparr>, q)"
    and q: "empty_node ps p t q"
    using p unfolding q_def
    by (simp_all add: HandleRequestVote_def empty_args_def empty_node_def isCandidateLogUpToDate_def lastLogIndexAndTerm_def Let_def)
  from that [OF cluster_step.deliver [OF e h] _ q] show thesis by simp
qed

lemma win_step:
  assumes e: "k < length (cl_elections c)" "cl_elections c ! k = e" "el_replies e = xs @ (p, \<lparr>rvr_Term = s, rvr_VoteGranted = True\<rparr>) # ys"
    and q: "empty_node ps (el_node e) t (cl_nodes c (el_node e))" "rstate (cl_nodes c (el_node e)) = Candidate" "s \<le> t"
    and maj: "el_maj e \<le> el_votes e + 1"
  obtains c' where "cluster_step c c'" "\<And>m. m \<noteq> el_node e \<Longrightarrow> cl_nodes c' m = cl_nodes c m"
    "\<And>j. j \<noteq> k \<Longrightarrow> cl_elections c' ! j = cl_elections c ! j" "length (cl_elections c') = length (cl_elections c)"
    "cl_leaders c' = insert (el_node e, t) (cl_leaders c)"
    "cl_lapses c' = (if t = el_term e then {} else {StaleVote (el_node e)}) \<union> cl_lapses c"
proof -
  let ?q = "cl_nodes c (el_node e)" and ?reply = "\<lparr>rvr_Term = s, rvr_VoteGranted = True\<rparr>"
  obtain r x where b: "becomeLeader ?q = (r, x)" by fastforce
  have ct: "currentTerm ?q = t" and li: "lastIndex ?q + 1 < 2 ^ 63" using q(1) by (simp_all add: empty_node_def lastIndex_def)
  have r: "leaderGeneration r \<noteq> leaderGeneration ?q" "currentTerm r = t"
    using b ct becomeLeader_fields(1,9) [of ?q] by simp_all
  have v: "voteReply t Candidate ?q (el_votes e) (el_maj e) ?reply = (r, el_votes e + 1, x)"
    using maj b leD [OF q(3)] by (simp add: voteReply_def)
  have "count_lapses t ?q e ?reply = (if t = el_term e then {} else {StaleVote (el_node e)})"
    using ct q(3) by (auto simp: count_lapses_def)
  note lapses = this
  show thesis
    by (rule that [OF cluster_step.count [OF e refl li v]]) (simp_all add: r lapses)
qed

text \<open>A node of a cluster of three starts an election and gets the vote of a peer.\<close>

lemma campaign:
  assumes n: "empty_node ps n t (cl_nodes c n)" "n \<in> fst ` set ps" "unat t + 1 < 2 ^ 64"
    and p: "empty_node ps p s (cl_nodes c p)" "p \<in> fst ` set ps" "p \<noteq> n" "s < t + 1" and three: "length ps = 3"
  obtains c1 c2 q p' ys where "cluster_step c c1" "cluster_step c1 c2" "cl_nodes c2 = (cl_nodes c)(n := q, p := p')"
    "empty_node ps n (t + 1) q" "rstate q = Candidate" "empty_node ps p (t + 1) p'"
    "cl_elections c2 = cl_elections c @ [\<lparr>el_node = n, el_term = t + 1, el_votes = 1, el_maj = 2, el_calls = ys,
       el_replies = [(p, \<lparr>rvr_Term = t + 1, rvr_VoteGranted = True\<rparr>)]\<rparr>]"
    "cl_leaders c2 = cl_leaders c" "cl_lapses c2 = cl_lapses c"
proof -
  define calls where "calls = map (\<lambda>(p, addr). (p, empty_args n (t + 1))) (filter (\<lambda>(p, addr :: gostring). p \<noteq> n) ps)"
  define el where "el = \<lparr>el_node = n, el_term = t + 1, el_votes = 1, el_maj = length ps div 2 + 1, el_calls = calls, el_replies = []\<rparr>"
  obtain c1 q where c1: "cluster_step c c1" "cl_nodes c1 = (cl_nodes c)(n := q)" "empty_node ps n (t + 1) q" "rstate q = Candidate"
    "cl_elections c1 = cl_elections c @ [el]" "cl_leaders c1 = cl_leaders c" "cl_lapses c1 = cl_lapses c"
    unfolding el_def calls_def by (rule fire_step [OF n])
  have "(p, empty_args n (t + 1)) \<in> set calls" using p(2,3) by (force simp: calls_def)
  then obtain xs ys where ys: "el_calls el = xs @ (p, empty_args n (t + 1)) # ys" by (auto simp: el_def dest: split_list)
  have k: "length (cl_elections c) < length (cl_elections c1)" "cl_elections c1 ! length (cl_elections c) = el"
    and p1: "empty_node ps p s (cl_nodes c1 p)" using c1(2,5) p(1,3) by simp_all
  obtain c2 p' where c2: "cluster_step c1 c2" "cl_nodes c2 = (cl_nodes c1)(p := p')" "empty_node ps p (t + 1) p'"
    "cl_elections c2 = (cl_elections c1)[length (cl_elections c) := el\<lparr>el_calls := xs @ ys,
       el_replies := (p, \<lparr>rvr_Term = t + 1, rvr_VoteGranted = True\<rparr>) # el_replies el\<rparr>]"
    "cl_leaders c2 = cl_leaders c1" "cl_lapses c2 = cl_lapses c1"
    by (rule vote_step [OF k ys p1 p(4)])
  show thesis
    by (rule that [OF c1(1) c2(1) _ c1(3,4) c2(3)]) (simp_all add: c1 c2 el_def three)
qed

lemma cluster_run_trans: "cluster_run d e \<Longrightarrow> cluster_run c d \<Longrightarrow> cluster_run c e"
  by (induction rule: cluster_run.induct) (auto intro: cluster_run.next_step)

text \<open>With the vote it is leader of its term.\<close>

lemma elect:
  assumes n: "empty_node ps n t (cl_nodes c n)" "n \<in> fst ` set ps" "unat t + 1 < 2 ^ 64"
    and p: "empty_node ps p s (cl_nodes c p)" "p \<in> fst ` set ps" "p \<noteq> n" "s < t + 1" and three: "length ps = 3"
  obtains d where "cluster_run c d"
    "cl_leaders d = insert (n, t + 1) (cl_leaders c)" "cl_lapses d = cl_lapses c"
proof -
  let ?el = "\<lambda>ys. \<lparr>el_node = n, el_term = t + 1, el_votes = 1, el_maj = 2, el_calls = ys,
       el_replies = [(p, \<lparr>rvr_Term = t + 1, rvr_VoteGranted = True\<rparr>)]\<rparr>" and ?k = "length (cl_elections c)"
  obtain c1 c2 q p' ys where c: "cluster_step c c1" "cluster_step c1 c2" "cl_nodes c2 = (cl_nodes c)(n := q, p := p')"
    "empty_node ps n (t + 1) q" "rstate q = Candidate" "empty_node ps p (t + 1) p'" "cl_elections c2 = cl_elections c @ [?el ys]"
    "cl_leaders c2 = cl_leaders c" "cl_lapses c2 = cl_lapses c"
    by (rule campaign [OF n p three])
  have h: "?k < length (cl_elections c2)" "cl_elections c2 ! ?k = ?el ys"
      "el_replies (?el ys) = [] @ (p, \<lparr>rvr_Term = t + 1, rvr_VoteGranted = True\<rparr>) # []"
      "empty_node ps (el_node (?el ys)) (t + 1) (cl_nodes c2 (el_node (?el ys)))"
      "rstate (cl_nodes c2 (el_node (?el ys))) = Candidate" "el_maj (?el ys) \<le> el_votes (?el ys) + 1"
    using c(3-7) p(3) by simp_all
  obtain d where d: "cluster_step c2 d" "cl_leaders d = insert (n, t + 1) (cl_leaders c2)" "cl_lapses d = cl_lapses c2"
    by (rule win_step [OF h(1-5) order_refl h(6)]) simp
  show thesis
  proof (rule that [of d])
    show "cluster_run c d"
      by (rule cluster_run.next_step [OF cluster_run.next_step [OF cluster_run.next_step [OF cluster_run.begin_run c(1)] c(2)] d(1)])
  qed (use c(8,9) d in simp_all)
qed

text \<open>If its timer fires once more before the answer arrives, it becomes leader of the next term instead.\<close>

lemma elect_late:
  assumes n: "empty_node ps n t (cl_nodes c n)" "n \<in> fst ` set ps" "unat t + 1 < 2 ^ 64" "unat (t + 1) + 1 < 2 ^ 64" "t + 1 < t + 1 + 1"
    and p: "empty_node ps p s (cl_nodes c p)" "p \<in> fst ` set ps" "p \<noteq> n" "s < t + 1" and three: "length ps = 3"
  obtains d where "cluster_run c d"
    "cl_leaders d = insert (n, t + 1 + 1) (cl_leaders c)" "cl_lapses d = insert (StaleVote n) (cl_lapses c)"
    "empty_node ps p (t + 1) (cl_nodes d p)" "\<forall>m. m \<noteq> n \<and> m \<noteq> p \<longrightarrow> cl_nodes d m = cl_nodes c m"
proof -
  let ?el = "\<lambda>ys. \<lparr>el_node = n, el_term = t + 1, el_votes = 1, el_maj = 2, el_calls = ys,
       el_replies = [(p, \<lparr>rvr_Term = t + 1, rvr_VoteGranted = True\<rparr>)]\<rparr>" and ?k = "length (cl_elections c)"
  obtain c1 c2 q p' ys where c: "cluster_step c c1" "cluster_step c1 c2" "cl_nodes c2 = (cl_nodes c)(n := q, p := p')"
    "empty_node ps n (t + 1) q" "rstate q = Candidate" "empty_node ps p (t + 1) p'" "cl_elections c2 = cl_elections c @ [?el ys]"
    "cl_leaders c2 = cl_leaders c" "cl_lapses c2 = cl_lapses c"
    by (rule campaign [OF n(1-3) p three])
  have n2: "empty_node ps n (t + 1) (cl_nodes c2 n)" using c(3,4) p(3) by simp
  obtain c3 q' new where c3: "cluster_step c2 c3" "cl_nodes c3 = (cl_nodes c2)(n := q')" "empty_node ps n (t + 1 + 1) q'"
    "rstate q' = Candidate" "cl_elections c3 = cl_elections c2 @ [new]" "cl_leaders c3 = cl_leaders c2" "cl_lapses c3 = cl_lapses c2"
    by (rule fire_step [OF n2 n(2,4)])
  have h: "?k < length (cl_elections c3)" "cl_elections c3 ! ?k = ?el ys"
      "el_replies (?el ys) = [] @ (p, \<lparr>rvr_Term = t + 1, rvr_VoteGranted = True\<rparr>) # []"
      "empty_node ps (el_node (?el ys)) (t + 1 + 1) (cl_nodes c3 (el_node (?el ys)))"
      "rstate (cl_nodes c3 (el_node (?el ys))) = Candidate" "el_maj (?el ys) \<le> el_votes (?el ys) + 1"
    using c(7) c3(2-5) by (simp_all add: nth_append)
  obtain d where d: "cluster_step c3 d" "\<And>m. m \<noteq> n \<Longrightarrow> cl_nodes d m = cl_nodes c3 m"
    "cl_leaders d = insert (n, t + 1 + 1) (cl_leaders c3)" "cl_lapses d = {StaleVote n} \<union> cl_lapses c3"
    using less_imp_neq [OF n(5)] by - (rule win_step [OF h(1-5) less_imp_le [OF n(5)] h(6)], simp)
  show thesis
  proof (rule that [of d])
    have "cluster_run c c3"
      by (rule cluster_run.next_step [OF cluster_run.next_step [OF cluster_run.next_step [OF cluster_run.begin_run c(1)] c(2)] c3(1)])
    then show "cluster_run c d" using d(1) by (rule cluster_run.next_step)
  qed (use c(3,6,8,9) c3(2,6,7) d p(3) in simp_all)
qed

subsection \<open>Properties\<close>

text \<open>Three followers with empty logs in term 1.\<close>

definition sample_cluster :: cluster where
  "sample_cluster = \<lparr>cl_nodes = (\<lambda>n. sample_node n Follower []), cl_elections = [], cl_votes = {}, cl_leaders = {}, cl_lapses = {}\<rparr>"

lemma sample_cluster_start: "cluster_start sample_peers sample_cluster" "empty_node sample_peers n 1 (cl_nodes sample_cluster n)"
  by (simp_all add: cluster_start_def empty_node_def sample_cluster_def sample_node_def sample_peers_def)

lemma sample_cluster_empty: "cl_elections sample_cluster = []" "cl_leaders sample_cluster = {}" "cl_lapses sample_cluster = {}"
  by (simp_all add: sample_cluster_def)

lemma sample_cluster_run: "\<exists>d. cluster_run sample_cluster d \<and> (2, 2) \<in> cl_leaders d \<and> cl_lapses d = {}"
proof -
  have ps: "(2 :: u64) \<in> fst ` set sample_peers" "(1 :: u64) \<in> fst ` set sample_peers" "length sample_peers = 3"
    by (simp_all add: sample_peers_def)
  have w: "unat (1 :: u64) + 1 < 2 ^ 64" "(1 :: u64) \<noteq> 2" "(1 :: u64) < 1 + 1" by simp_all
  obtain d where d: "cluster_run sample_cluster d"
    "cl_leaders d = insert (2, 1 + 1) (cl_leaders sample_cluster)" "cl_lapses d = cl_lapses sample_cluster"
    by (rule elect [OF sample_cluster_start(2) ps(1) w(1) sample_cluster_start(2) ps(2) w(2,3) ps(3)])
  then show ?thesis by (intro exI [of _ d]) (simp add: sample_cluster_empty)
qed

text \<open>
  C1: election safety. In every run of a cluster, with requests and answers lost, delayed and reordered in any
  way, there is at most one leader per term, provided the run has no lapse: no node restarts, which forgets its
  vote; no node steps down on an answer whose term it has already reached; and no vote is counted while the
  candidate is in another term than the vote was given in. The code does not exclude these three.
\<close>

theorem one_leader_per_term:
  assumes "cluster_start ps c" and "cluster_run c d" and "cl_lapses d = {}"
    and "(n, t) \<in> cl_leaders d" and "(m, t) \<in> cl_leaders d"
  shows "n = m"
proof -
  have inv: "cluster_inv ps d" by (rule cluster_run_inv [OF assms(2,1,3)])
  obtain G where G: "G \<subseteq> peer_ids ps" "length ps div 2 + 1 \<le> card G" "\<forall>p\<in>G. (p, t, n) \<in> cl_votes d"
    using inv assms(4) by (auto simp: cluster_inv_def elected_def)
  obtain H where H: "H \<subseteq> peer_ids ps" "length ps div 2 + 1 \<le> card H" "\<forall>p\<in>H. (p, t, m) \<in> cl_votes d"
    using inv assms(5) by (auto simp: cluster_inv_def elected_def)
  have q: "vote_quorum (cl_nodes d n) G" "vote_quorum (cl_nodes d n) H"
    using inv G H by (simp_all add: vote_quorum_def cluster_inv_def peer_ids_def majority_def)
  show ?thesis
    by (rule vq.unique_choice [OF q, where chose = "\<lambda>v x. (v, t, x) \<in> cl_votes d"])
      (use inv G H in \<open>auto simp: cluster_inv_def votes_ok_def\<close>)
qed

theorem one_leader_per_term_witness:
  "\<exists>d. cluster_run sample_cluster d \<and> cl_lapses d = {} \<and> (2, 2) \<in> cl_leaders d \<and> (1, 2) \<notin> cl_leaders d"
proof -
  obtain d where d: "cluster_run sample_cluster d" "cl_lapses d = {}" "(2, 2) \<in> cl_leaders d" using sample_cluster_run by blast
  then have "(1, 2) \<notin> cl_leaders d" using one_leader_per_term [OF sample_cluster_start(1) d, of 1] by auto
  with d show ?thesis by blast
qed

text \<open>
  C34: the code does not check that an answer belongs to the current election. Three nodes with empty logs in
  the same term can get two leaders in one later term without any restart or outdated step-down: the timer of one
  node fires twice before the answer to its first request arrives, which then makes it leader of the later term
  although nobody voted for it there, and another node is elected in that term.
\<close>

theorem two_leaders_in_a_term:
  assumes "cluster_start ps c" and "fst ` set ps = {a, b, x}" and "distinct [a, b, x]" and "unat t + 2 < 2 ^ 64"
    and "\<And>n. n \<in> {a, b, x} \<Longrightarrow> currentTerm (cl_nodes c n) = t \<and> rlog (cl_nodes c n) = [] \<and> logOffset (cl_nodes c n) = 0"
  shows "\<exists>d. cluster_run c d \<and> (a, t + 2) \<in> cl_leaders d \<and> (x, t + 2) \<in> cl_leaders d \<and> cl_lapses d = {StaleVote a}"
proof -
  have ids: "a \<in> fst ` set ps" "b \<in> fst ` set ps" "x \<in> fst ` set ps" using assms(2) by auto
  have "card (fst ` set ps) = 3" using assms(2,3) by simp
  then have three: "length ps = 3" using assms(1) card_peers [of ps] by (simp add: cluster_start_def)
  have e: "empty_node ps a t (cl_nodes c a)" "empty_node ps b t (cl_nodes c b)" "empty_node ps x t (cl_nodes c x)"
    using assms(1,5) by (simp_all add: empty_node_def cluster_start_def)
  have c: "cl_elections c = []" "cl_leaders c = {}" "cl_lapses c = {}" using assms(1) by (simp_all add: cluster_start_def)
  have t1: "unat (t + 1) = unat t + 1" using assms(4) unat_add_lem [of t 1] by simp
  have t2: "unat (t + 1 + 1) = unat t + 2" using assms(4) unat_add_lem [of "t + 1" 1] t1 by simp
  have w: "unat t + 1 < 2 ^ 64" "unat (t + 1) + 1 < 2 ^ 64" "t < t + 1" "t + 1 < t + 1 + 1"
    using assms(4) unfolding word_less_nat_alt t1 t2 by simp_all
  have ne: "b \<noteq> a" "x \<noteq> a" "x \<noteq> b" "b \<noteq> x" using assms(3) by auto
  obtain c4 where c4: "cluster_run c c4" "cl_leaders c4 = insert (a, t + 1 + 1) (cl_leaders c)"
    "cl_lapses c4 = insert (StaleVote a) (cl_lapses c)" "empty_node ps b (t + 1) (cl_nodes c4 b)"
    "\<forall>m. m \<noteq> a \<and> m \<noteq> b \<longrightarrow> cl_nodes c4 m = cl_nodes c m"
    by (rule elect_late [OF e(1) ids(1) w(1,2,4) e(2) ids(2) ne(1) w(3) three])
  have x4: "empty_node ps x t (cl_nodes c4 x)" using c4(5) ne(2,3) e(3) by simp
  obtain c5 q new where c5: "cluster_step c4 c5" "cl_nodes c5 = (cl_nodes c4)(x := q)" "empty_node ps x (t + 1) q"
    "cl_elections c5 = cl_elections c4 @ [new]" "cl_leaders c5 = cl_leaders c4" "cl_lapses c5 = cl_lapses c4"
    by (rule fire_step [OF x4 ids(3) w(1)])
  have n5: "empty_node ps x (t + 1) (cl_nodes c5 x)" "empty_node ps b (t + 1) (cl_nodes c5 b)" using c5(2,3) c4(4) ne by simp_all
  obtain d where d: "cluster_run c5 d" "cl_leaders d = insert (x, t + 1 + 1) (cl_leaders c5)"
    "cl_lapses d = cl_lapses c5"
    by (rule elect [OF n5(1) ids(3) w(2) n5(2) ids(2) ne(4) w(4) three])
  have "cluster_run c d" by (rule cluster_run_trans [OF d(1) cluster_run.next_step [OF c4(1) c5(1)]])
  then show ?thesis using c c4(2,3) c5(5,6) d(2,3) by (intro exI [of _ d]) simp
qed

theorem two_leaders_in_a_term_witness:
  "\<exists>d. cluster_run sample_cluster d \<and> (1, 3) \<in> cl_leaders d \<and> (3, 3) \<in> cl_leaders d \<and> cl_lapses d = {StaleVote 1}"
proof -
  have ps: "fst ` set sample_peers = {1 :: u64, 2, 3}" "distinct [1 :: u64, 2, 3]" "unat (1 :: u64) + 2 < 2 ^ 64"
    by (simp_all add: sample_peers_def)
  have "currentTerm (cl_nodes sample_cluster n) = 1 \<and> rlog (cl_nodes sample_cluster n) = [] \<and> logOffset (cl_nodes sample_cluster n) = 0" for n
    using sample_cluster_start(2) by (simp add: empty_node_def)
  from two_leaders_in_a_term [OF sample_cluster_start(1) ps this] show ?thesis by simp
qed

end
