(* ===== verification/Spec2Isabelle.thy ===== *)
theory Spec2Isabelle
  imports Process Cluster
begin

text \<open>
  jin-kv is a key-value store replicated with Raft. A server process
  (\<^verbatim>\<open>cmd/server/main.go\<close>) runs one node: \<^verbatim>\<open>raft/raft.go\<close>
  elects leaders, replicates a log of commands and applies committed ones to a store;
  \<^verbatim>\<open>wal/wal.go\<close> keeps the log on disk and \<^verbatim>\<open>raft/snapshot.go\<close>
  the snapshots that allow it to be compacted; \<^verbatim>\<open>rpc/rpc.go\<close> defines the messages
  between nodes and \<^verbatim>\<open>transport/transport.go\<close> carries them;
  \<^verbatim>\<open>httpapi/httpapi.go\<close> is the client's interface.

  \<^bold>\<open>The theories and the code.\<close>

  \<^item> \<^verbatim>\<open>Prelude\<close>: bytes, 64-bit indices as words, Go errors as values of a sum,
    panics as a second kind of failure, Go maps as association lists, shared lemmas.

  \<^item> \<^verbatim>\<open>Go_Std\<close>, \<^verbatim>\<open>Go_Strings\<close>,
    \<^verbatim>\<open>Go_Os\<close>: what the sources use of the standard library: big-endian integers,
    \<^verbatim>\<open>io.ReadFull\<close>, CRC-32, \<^verbatim>\<open>strings.Fields\<close> and others, and
    files. Every system call takes its outcome from a list of faults, so a statement about all lists covers
    every failing call and every crash; dirty files are those not yet synced. The locales
    \<^verbatim>\<open>codec\<close>, \<^verbatim>\<open>exact_codec\<close> and
    \<^verbatim>\<open>record_file\<close> are the contract of a binary format; they are interpreted for log
    records, snapshots and message frames.

  \<^item> \<^verbatim>\<open>Wal\<close> models \<^verbatim>\<open>wal/wal.go\<close>:
    \<^verbatim>\<open>Open\<close>, \<^verbatim>\<open>Append\<close>, \<^verbatim>\<open>ReadAll\<close>,
    \<^verbatim>\<open>TruncateAfter\<close>, \<^verbatim>\<open>CompactWAL\<close>,
    \<^verbatim>\<open>Close\<close>, with the record format. \<^verbatim>\<open>wal_entries\<close> abstracts
    the file to the entries it holds.

  \<^item> \<^verbatim>\<open>Kv\<close> models \<^verbatim>\<open>StateMachine\<close> with
    \<^verbatim>\<open>Apply\<close>, \<^verbatim>\<open>Get\<close>, \<^verbatim>\<open>Snapshot\<close> and
    \<^verbatim>\<open>Restore\<close>. The locale \<^verbatim>\<open>snapshot_machine\<close> is what
    compaction relies on.

  \<^item> \<^verbatim>\<open>Snapshots\<close> models the snapshot format and file of
    \<^verbatim>\<open>raft/snapshot.go\<close>.

  \<^item> \<^verbatim>\<open>Rpc\<close> models the six messages of \<^verbatim>\<open>rpc/rpc.go\<close>
    with their encoders and decoders.

  \<^item> \<^verbatim>\<open>Raft_Node\<close>, \<^verbatim>\<open>Raft_Election\<close>,
    \<^verbatim>\<open>Raft_Replication\<close>, \<^verbatim>\<open>Raft_Recovery\<close> model
    \<^verbatim>\<open>raft/raft.go\<close> and \<^verbatim>\<open>maybeSnapshot\<close>: the fields of the
    struct \<^verbatim>\<open>Raft\<close> are the record \<^verbatim>\<open>raft\<close>, with the disk and
    the random numbers as two more fields; every section of code that runs under
    \<^verbatim>\<open>r.mu\<close> is one function on it. Goroutines that make a remote call are split there:
    what is sent, and what is done with the answer. What a goroutine reads before it takes the lock and acts
    upon afterwards is an argument: the term and the state in \<^verbatim>\<open>voteReply\<close>, the state
    in \<^verbatim>\<open>electionTimeout\<close>, the answer of \<^verbatim>\<open>IsLeader\<close> in
    \<^verbatim>\<open>HandleSet\<close>. A tick of \<^verbatim>\<open>heartBeatLoop\<close> is
    \<^verbatim>\<open>heartBeatTick\<close>, its goroutine \<^verbatim>\<open>heartBeatArgs\<close> and
    \<^verbatim>\<open>heartBeatReply\<close>; \<^verbatim>\<open>electionLoop\<close> is
    \<^verbatim>\<open>electionTimeout\<close>; \<^verbatim>\<open>sendSnapshotToPeer\<close> is
    \<^verbatim>\<open>sendSnapshotArgs\<close> and \<^verbatim>\<open>sendSnapshotReply\<close>.

  \<^item> \<^verbatim>\<open>Transport\<close> models \<^verbatim>\<open>transport/transport.go\<close>:
    framing over a connection whose writes may fail after any number of bytes, the three client methods,
    \<^verbatim>\<open>handleConnection\<close> and the accept loop. The locale
    \<^verbatim>\<open>rpc_channel\<close> is interpreted for the three calls.

  \<^item> \<^verbatim>\<open>Httpapi\<close> models \<^verbatim>\<open>HandleGet\<close> and
    \<^verbatim>\<open>HandleSet\<close>, \<^verbatim>\<open>Server\<close> models
    \<^verbatim>\<open>main\<close>: start up, standard input, the two routes, and the process serving inputs
    of all kinds in turn with the goroutines of its node (\<^verbatim>\<open>runTask\<close>).

  \<^bold>\<open>What is shown.\<close>

  \<^item> \<^verbatim>\<open>Raft_Matching\<close>: on every path of
    \<^verbatim>\<open>HandleAppendEntries\<close>, whatever fails, the log stays contiguous behind its
    offset; heartbeats and the handler keep the log matching property; accepted entries are stored and
    committed ones applied in order; a follower that is behind catches up in two heartbeats; exactly when a
    heartbeat panics.

  \<^item> \<^verbatim>\<open>Raft_Steps\<close>: a node as a transition system, its invariant along every
    run, one vote per term, and the answers acted upon late that break it.

  \<^item> \<^verbatim>\<open>Raft_Quorum\<close>: two quorums overlap (locale
    \<^verbatim>\<open>quorum_system\<close>), and what is committed has been acknowledged by a quorum, in
    clusters of three by every node.

  \<^item> \<^verbatim>\<open>Cluster\<close>: runs of a whole cluster with messages lost, delayed and
    reordered; at most one leader per term if no node restarts, no answer makes a node step down to a term it
    has reached, and votes are counted in the term they were given in. The code ensures none of the three;
    without the last a term can have two leaders.

  \<^item> \<^verbatim>\<open>Raft_Durability\<close>: \<^verbatim>\<open>durable\<close> says that snapshot
    file and write-ahead log determine log and state. Proposing, accepting entries and taking snapshots keep
    it; a restarted node recovers from it, but forgets its term and vote; snapshot transfer; two states of the
    disk that block a node.

  \<^item> \<^verbatim>\<open>Wal\<close>, \<^verbatim>\<open>Kv\<close>,
    \<^verbatim>\<open>Snapshots\<close>, \<^verbatim>\<open>Rpc\<close>: what every operation leaves of the
    log under every failing system call, corruption is detected, the store refines a map, and all formats
    round trip.

  \<^item> \<^verbatim>\<open>Process\<close> and this theory: what inputs ask for, that the process does it
    and that this is a run of the transition system; the process restarts, a write over HTTP is read back,
    remote calls are calls of the handler.

  \<^bold>\<open>Bounds.\<close>

  Indices and terms are 64-bit words and wrap around as in Go; a slice position is the signed reading of an
  index difference. Theorems about the log assume indices below \<^verbatim>\<open>2^63\<close>, where this
  reading is exact, and terms below \<^verbatim>\<open>2^64 - 1\<close>; lengths in messages and records must
  fit their 32-bit fields. All loops are total functions (the readers consume their input, the apply loop
  moves towards the commit index); no fuel is used.

  \<^bold>\<open>Not modelled.\<close>

  The scheduling of goroutines and timers appears only as the order of steps, and each locked section as one
  step. Accesses outside the lock are readings from the past, not data races in the sense of the Go memory
  model. Slices that share memory, log output, time-outs of connections, parsing of command line and URLs, and
  sockets are not modelled. A crash here is the end of the process: which files are not yet synced is
  recorded, but what a failure of the machine leaves of them is not.
  \<^verbatim>\<open>cmd/client/main.go\<close> prints one line. The shell scripts start processes and look at
  their output.
\<close>



text \<open>
  C15: restarting the process. Started on the files an earlier process of the same node left in step with its
  memory, \<^verbatim>\<open>main\<close> opens the log, recovers the same log and offset and a store with the
  whole log applied, sets the election timer between 150 and 300 milliseconds, and serves from there.
\<close>

theorem server_restart:
  assumes "node_wf r" and "durable r" and "path (rwal r) = walPath (node_id r)"
    and "faults s = []" and "files s = files (env r)"
  shows "\<exists>r' s' ms. startNode (node_id r) s rnd = (Inr r', s')
      \<and> rlog r' = rlog r \<and> logOffset r' = logOffset r \<and> unat (lastApplied r') = lastIndex r
      \<and> Get (stateMachine r') = Get (apply_all (stateMachine r) (log_between r (unat (lastApplied r)) (lastIndex r)))
      \<and> node_wf r' \<and> durable r' \<and> electionTimer r' = Some ms \<and> 150 \<le> ms \<and> ms < 300
      \<and> runServer errText (node_id r) s rnd (Inr ()) inputs = serveInputs errText inputs r'"
proof -
  obtain r' s' ms where r': "startNode (node_id r) s rnd = (Inr r', s')"
    "rlog r' = rlog r" "logOffset r' = logOffset r" "unat (lastApplied r') = lastIndex r"
    "Get (stateMachine r') = Get (apply_all (stateMachine r) (log_between r (unat (lastApplied r)) (lastIndex r)))"
    "node_wf r'" "durable r'" "electionTimer r' = Some ms" "150 \<le> ms" "ms < 300"
    using startNode_recovers [OF assms] by blast
  moreover have "runServer errText (node_id r) s rnd (Inr ()) inputs = serveInputs errText inputs r'"
    using r'(1) by (simp add: runServer_def)
  ultimately show ?thesis by blast
qed

theorem server_restart_witness:
  "\<exists>r' s'. startNode 1 quiet_os [] = (Inr r', s') \<and> rlog r' = [] \<and> unat (lastApplied r') = 0"
  using server_restart [OF sample_server(1-3), of quiet_os "[]" "\<lambda>_. []" "[]"] unfolding sample_server(4-7) by auto

text \<open>
  C16: a write over HTTP. When \<^verbatim>\<open>HandleSet\<close> answers 200, the body names the index of
  the entry it appended, and on every node that has this entry and applies its log up to that index,
  \<^verbatim>\<open>HandleGet\<close> for the key answers 200 with the value written, for keys and values
  without spaces and keys without \<^verbatim>\<open>=\<close>.
\<close>

theorem http_set_then_get:
  assumes "HandleSet errText isLeader r req = (resp, r')" and "status resp = StatusOK"
    and "node_wf r" and "lastIndex r + 1 < 2 ^ 63"
    and "k = query_get req (lit ''key'')" and "v = query_get req (lit ''value'')"
    and "no_space k" and "no_space v" and "61 \<notin> set k"
  shows "\<exists>i. body resp = lit (''proposed at index '' @ decimal (unat i)) \<and> unat i = lastIndex r + 1
      \<and> entryAt r' i \<noteq> None
      \<and> (\<forall>p q. entryAt p i = entryAt r' i \<longrightarrow> commitIndex p = i \<longrightarrow> lastApplied p < i \<longrightarrow> query_get q (lit ''key'') = k \<longrightarrow>
           HandleGet (applyCommitted p) q = \<lparr>status = StatusOK, body = v\<rparr>)"
proof -
  obtain i where i: "body resp = lit (''proposed at index '' @ decimal (unat i))" "unat i = lastIndex r + 1"
    "entryAt r' i = Some \<lparr>Term = currentTerm r, Index = i, Data = set_command k v\<rparr>"
    using HandleSet_ok [OF assms(1-4)] assms(5,6) by blast
  have "HandleGet (applyCommitted p) q = \<lparr>status = StatusOK, body = v\<rparr>"
    if "entryAt p i = entryAt r' i" "commitIndex p = i" "lastApplied p < i" "query_get q (lit ''key'') = k" for p q
    using apply_last_Get [OF _ that(2,3) command_set [OF assms(7-9)]] that(1,4) i(3)
    by (simp add: HandleGet_def Raft_Get_def)
  with i show ?thesis by blast
qed

theorem http_set_then_get_witness:
  "HandleGet (applyCommitted (sample_proposed\<lparr>commitIndex := 1\<rparr>)) [(lit ''key'', lit ''x'')] =
     \<lparr>status = StatusOK, body = lit ''1''\<rparr>"
proof -
  have q: "lit ''x'' = query_get sample_set (lit ''key'')" "lit ''1'' = query_get sample_set (lit ''value'')"
    by (simp_all add: sample_set_def query_get_def)
  have ns: "no_space (lit ''x'')" "no_space (lit ''1'')" "61 \<notin> set (lit ''x'')"
    by (simp_all add: space1_def space2_def space3_def)
  have last: "lastIndex (sample_node 1 Leader []) = 0" by (simp add: sample_node_def lastIndex_def)
  obtain i where i: "unat i = 1" and
    get: "\<forall>p q. entryAt p i = entryAt sample_proposed i \<longrightarrow> commitIndex p = i \<longrightarrow> lastApplied p < i \<longrightarrow>
      query_get q (lit ''key'') = lit ''x'' \<longrightarrow> HandleGet (applyCommitted p) q = \<lparr>status = StatusOK, body = lit ''1''\<rparr>"
    using http_set_then_get [OF sample_set_ok _ sample_empty(2) _ q ns] unfolding last by auto
  have "i = 1" using i by (simp add: word_unat_eq_iff)
  moreover have "lastApplied sample_proposed = 0" "logOffset sample_proposed = 0"
    by (simp_all add: sample_proposed_def Propose_def sample_node_def Let_def lastLogIndexAndTerm_def Append_free)
  ultimately show ?thesis using get by (simp add: query_get_def)
qed

text \<open>
  C17: a remote call is a call of the handler. Over a working network each of the three client methods returns
  what the handler of the called node returns; if writes fail on either side, after any number of bytes, it
  returns that or an error, never another reply.
\<close>

theorem remote_call_is_handler:
  assumes "append_args_ok a" and "snapshot_args_ok i"
  shows "SendRequestVote (served_by [] [] r) addr v = Inr (fst (HandleRequestVote r v))
       \<and> SendAppendEntries (served_by [] [] r) addr a = Inr (fst (HandleAppendEntries r a))
       \<and> SendInstallSnapshot (served_by [] [] r) addr i = Inr (fst (HandleInstallSnapshot r i))
       \<and> SendRequestVote (served_by fs gs r) addr v \<in> insert (Inr (fst (HandleRequestVote r v))) (range Inl)
       \<and> SendAppendEntries (served_by fs gs r) addr a \<in> insert (Inr (fst (HandleAppendEntries r a))) (range Inl)
       \<and> SendInstallSnapshot (served_by fs gs r) addr i \<in> insert (Inr (fst (HandleInstallSnapshot r i))) (range Inl)"
  using voteRpc.call_is_handler [OF _ surjective_pairing] appendRpc.call_is_handler [OF assms(1) surjective_pairing]
    snapRpc.call_is_handler [OF assms(2) surjective_pairing]
  by (simp add: SendRequestVote_def SendAppendEntries_def SendInstallSnapshot_def vote_args_ok_def image_iff)

theorem remote_call_is_handler_witness:
  "SendAppendEntries (served_by [] [] sample_follower) [] sample_append = Inr (fst (HandleAppendEntries sample_follower sample_append))"
proof -
  have a: "append_args_ok sample_append" by (simp add: append_args_ok_def sample_defs)
  have i: "snapshot_args_ok \<lparr>isa_Term = 2, isa_LeaderID = 1, isa_LastIncludedIndex = 9, isa_LastIncludedTerm = 2, isa_Data = []\<rparr>"
    by (simp add: snapshot_args_ok_def)
  show ?thesis using remote_call_is_handler [OF a i] by blast
qed

text \<open>
  C18: a request that arrives whole makes the server run its handler once; of which only a proper prefix
  arrives, it leaves the node as it was. Whether the answer can be written makes no difference to the node.
\<close>

theorem request_all_or_nothing:
  assumes "append_args_ok a" and "snapshot_args_ok i"
    and "EncodeRequestVoteArgs v = Inr vb" and "EncodeAppendEntriesArgs a = Inr ab" and "EncodeInstallSnapshotArgs i = Inr ib"
  shows "(\<exists>c. handleConnection (accepted gs (take n (message MsgRequestVoteArgs vb))) r =
           Inr (c, if length (message MsgRequestVoteArgs vb) \<le> n then snd (HandleRequestVote r v) else r))
    \<and> (\<exists>c. handleConnection (accepted gs (take n (message MsgAppendEntriesArgs ab))) r =
           Inr (c, if length (message MsgAppendEntriesArgs ab) \<le> n then snd (HandleAppendEntries r a) else r))
    \<and> (\<exists>c. handleConnection (accepted gs (take n (message MsgInstallSnapshotArgs ib))) r =
           Inr (c, if length (message MsgInstallSnapshotArgs ib) \<le> n then snd (HandleInstallSnapshot r i) else r))"
proof -
  have d: "m = take n m @ drop n m" "drop n m = [] \<longleftrightarrow> length m \<le> n" for m :: bytes by simp_all
  show ?thesis
    using voteRpc.request_effect [OF _ surjective_pairing assms(3) d(1) accepted_incoming]
      appendRpc.request_effect [OF assms(1) surjective_pairing assms(4) d(1) accepted_incoming]
      snapRpc.request_effect [OF assms(2) surjective_pairing assms(5) d(1) accepted_incoming]
    unfolding d(2) by (simp add: vote_args_ok_def)
qed

theorem request_all_or_nothing_witness:
  "let v = sample_vote 2 3; vb = projr (EncodeRequestVoteArgs v)
   in \<exists>c. handleConnection (accepted [] (take 9 (message MsgRequestVoteArgs vb))) sample_follower = Inr (c, sample_follower)"
proof -
  let ?v = "sample_vote 2 3"
  let ?vb = "projr (EncodeRequestVoteArgs ?v)" and ?ab = "projr (EncodeAppendEntriesArgs sample_append)"
  let ?i = "\<lparr>isa_Term = 2, isa_LeaderID = 1, isa_LastIncludedIndex = 9, isa_LastIncludedTerm = 2, isa_Data = []\<rparr>"
  have ok: "append_args_ok sample_append" "snapshot_args_ok ?i"
    by (simp_all add: append_args_ok_def sample_defs snapshot_args_ok_def)
  have e: "EncodeRequestVoteArgs ?v = Inr ?vb" "EncodeAppendEntriesArgs sample_append = Inr ?ab"
    "EncodeInstallSnapshotArgs ?i = Inr (projr (EncodeInstallSnapshotArgs ?i))"
    by (simp_all add: EncodeRequestVoteArgs_def EncodeAppendEntriesArgs_def EncodeInstallSnapshotArgs_def)
  have "\<not> length (message MsgRequestVoteArgs ?vb) \<le> 9" by (simp add: message_def EncodeRequestVoteArgs_def)
  then show ?thesis using request_all_or_nothing [OF ok e, of "[]" 9 sample_follower] unfolding Let_def by metis
qed

end
